(* ===== verification/Prelude.thy ===== *)
theory Prelude
  imports Main "HOL-Library.Word"
begin

text \<open>
  Shared vocabulary of the development: the machine integer types of the AVR port, the
  theorem collections, the relabelling of a word as an array index, and the generic facts
  on lists, words and options that the component theories use.
\<close>

unbundle bit_operations_syntax

section \<open>Machine integers\<close>

text \<open>
  The widths are those of the AVR port (\<^verbatim>\<open>arch/avr/arch_port.h\<close>): \<open>uint_fast8_t\<close>, the
  priority masks and \<open>arch_atomic_t\<close> are 8 bits wide, \<open>arch_ticks_t\<close> is 16 bits wide.
\<close>

type_synonym u8 = "8 word"
type_synonym u16 = "16 word"

section \<open>Collections\<close>

named_theorems list_h_defs \<open>unfolding of the list.h operations\<close>
named_theorems frame_simps \<open>what an operation leaves unchanged\<close>

section \<open>Lists\<close>

lemma last_in_bucket: "xs \<noteq> [] \<Longrightarrow> hd xs # tl xs = xs"
  by simp

lemma remove1_split:
  "x \<notin> set xs \<Longrightarrow> remove1 x (xs @ x # ys) = xs @ ys"
  by (induction xs) auto

lemma distinct_remove1_filter:
  "distinct xs \<Longrightarrow> remove1 x xs = filter (\<lambda>y. y \<noteq> x) xs"
  by (rule distinct_remove1_removeAll [THEN trans]) (simp_all add: removeAll_filter_not_eq eq_commute)

lemma map_remove1_inj:
  "inj f \<Longrightarrow> map f (remove1 x xs) = remove1 (f x) (map f xs)"
  by (induction xs) (auto dest: injD)

section \<open>Words\<close>

lemma unat_u8_less: "unat (w :: u8) < 256"
  using unsigned_less [of w] by simp

lemma unat_u16_less: "unat (w :: u16) < 65536"
  using unsigned_less [of w] by simp

lemma u8_eq_iff_unat: "(a :: u8) = b \<longleftrightarrow> unat a = unat b"
  by (simp add: word_unat_eq_iff)

end
