(* ===== verification/Arch_Port.thy ===== *)
theory Arch_Port
  imports Prelude
begin

text \<open>
  The port layer the kernel calls: the priority mask macros, the three implementations of
  \<open>arch_bitmask_fls\<close> (AVR, MSP430, Linux), the interrupt flag of the AVR status register
  with the critical section macros, and the AVR atomic macros built from them.
  The lemmas show that the ports agree on the index of the highest set bit, that critical
  sections nest, and that the atomic macros act as one step and restore the flag.
\<close>

section \<open>Priority masks\<close>

definition arch_bitmask_set :: "u8 \<Rightarrow> u8 \<Rightarrow> u8" where
  "arch_bitmask_set bitfield b = bitfield OR push_bit (unat b) 1"

definition arch_bitmask_clear :: "u8 \<Rightarrow> u8 \<Rightarrow> u8" where
  "arch_bitmask_clear bitfield b = bitfield AND NOT (push_bit (unat b) 1)"

text \<open>In the other ports the masks are shifted in an \<open>int\<close>, of 16 bits (MSP430) or 32 bits (Linux), and the result
  is cut back to the 8 bits of the mask.\<close>

definition msp430_bitmask_set :: "u8 \<Rightarrow> u8 \<Rightarrow> u8" where
  "msp430_bitmask_set bitfield b = ucast ((ucast bitfield :: 16 word) OR push_bit (unat b) 1)"

definition msp430_bitmask_clear :: "u8 \<Rightarrow> u8 \<Rightarrow> u8" where
  "msp430_bitmask_clear bitfield b = ucast ((ucast bitfield :: 16 word) AND NOT (push_bit (unat b) 1))"

definition linux_bitmask_set :: "u8 \<Rightarrow> u8 \<Rightarrow> u8" where
  "linux_bitmask_set bitfield b = ucast ((ucast bitfield :: 32 word) OR push_bit (unat b) 1)"

definition linux_bitmask_clear :: "u8 \<Rightarrow> u8 \<Rightarrow> u8" where
  "linux_bitmask_clear bitfield b = ucast ((ucast bitfield :: 32 word) AND NOT (push_bit (unat b) 1))"

text \<open>The lookup table of the AVR port, and its copy in the MSP430 port.\<close>

definition avr_log2lkup :: "u8 list" where
  "avr_log2lkup = [
      0, 1, 2, 2, 3, 3, 3, 3, 4, 4, 4, 4, 4, 4, 4, 4,
      5, 5, 5, 5, 5, 5, 5, 5, 5, 5, 5, 5, 5, 5, 5, 5,
      6, 6, 6, 6, 6, 6, 6, 6, 6, 6, 6, 6, 6, 6, 6, 6,
      6, 6, 6, 6, 6, 6, 6, 6, 6, 6, 6, 6, 6, 6, 6, 6,
      7, 7, 7, 7, 7, 7, 7, 7, 7, 7, 7, 7, 7, 7, 7, 7,
      7, 7, 7, 7, 7, 7, 7, 7, 7, 7, 7, 7, 7, 7, 7, 7,
      7, 7, 7, 7, 7, 7, 7, 7, 7, 7, 7, 7, 7, 7, 7, 7,
      7, 7, 7, 7, 7, 7, 7, 7, 7, 7, 7, 7, 7, 7, 7, 7,
      8, 8, 8, 8, 8, 8, 8, 8, 8, 8, 8, 8, 8, 8, 8, 8,
      8, 8, 8, 8, 8, 8, 8, 8, 8, 8, 8, 8, 8, 8, 8, 8,
      8, 8, 8, 8, 8, 8, 8, 8, 8, 8, 8, 8, 8, 8, 8, 8,
      8, 8, 8, 8, 8, 8, 8, 8, 8, 8, 8, 8, 8, 8, 8, 8,
      8, 8, 8, 8, 8, 8, 8, 8, 8, 8, 8, 8, 8, 8, 8, 8,
      8, 8, 8, 8, 8, 8, 8, 8, 8, 8, 8, 8, 8, 8, 8, 8,
      8, 8, 8, 8, 8, 8, 8, 8, 8, 8, 8, 8, 8, 8, 8, 8,
      8, 8, 8, 8, 8, 8, 8, 8, 8, 8, 8, 8, 8, 8, 8, 8
   ]"

definition arch_bitmask_fls :: "u8 \<Rightarrow> u8" where
  "arch_bitmask_fls bitfield = avr_log2lkup ! unat bitfield"

definition msp430_log2lkup :: "u8 list" where
  "msp430_log2lkup = [
      0, 1, 2, 2, 3, 3, 3, 3, 4, 4, 4, 4, 4, 4, 4, 4,
      5, 5, 5, 5, 5, 5, 5, 5, 5, 5, 5, 5, 5, 5, 5, 5,
      6, 6, 6, 6, 6, 6, 6, 6, 6, 6, 6, 6, 6, 6, 6, 6,
      6, 6, 6, 6, 6, 6, 6, 6, 6, 6, 6, 6, 6, 6, 6, 6,
      7, 7, 7, 7, 7, 7, 7, 7, 7, 7, 7, 7, 7, 7, 7, 7,
      7, 7, 7, 7, 7, 7, 7, 7, 7, 7, 7, 7, 7, 7, 7, 7,
      7, 7, 7, 7, 7, 7, 7, 7, 7, 7, 7, 7, 7, 7, 7, 7,
      7, 7, 7, 7, 7, 7, 7, 7, 7, 7, 7, 7, 7, 7, 7, 7,
      8, 8, 8, 8, 8, 8, 8, 8, 8, 8, 8, 8, 8, 8, 8, 8,
      8, 8, 8, 8, 8, 8, 8, 8, 8, 8, 8, 8, 8, 8, 8, 8,
      8, 8, 8, 8, 8, 8, 8, 8, 8, 8, 8, 8, 8, 8, 8, 8,
      8, 8, 8, 8, 8, 8, 8, 8, 8, 8, 8, 8, 8, 8, 8, 8,
      8, 8, 8, 8, 8, 8, 8, 8, 8, 8, 8, 8, 8, 8, 8, 8,
      8, 8, 8, 8, 8, 8, 8, 8, 8, 8, 8, 8, 8, 8, 8, 8,
      8, 8, 8, 8, 8, 8, 8, 8, 8, 8, 8, 8, 8, 8, 8, 8,
      8, 8, 8, 8, 8, 8, 8, 8, 8, 8, 8, 8, 8, 8, 8, 8
   ]"

definition msp430_bitmask_fls :: "u8 \<Rightarrow> u8" where
  "msp430_bitmask_fls bitfield = msp430_log2lkup ! unat bitfield"

text \<open>\<open>__builtin_clz\<close>: the number of zero bits above the highest one bit of an unsigned int.\<close>

definition builtin_clz :: "32 word \<Rightarrow> nat" where
  "builtin_clz w = length (takeWhile (\<lambda>i. \<not> bit w i) (rev [0..<32]))"

definition linux_bitmask_fls :: "u8 \<Rightarrow> u8" where
  "linux_bitmask_fls bitfield =
     (if bitfield = 0 then 0 else word_of_nat (32 - builtin_clz (ucast bitfield)))"

section \<open>Interrupt flag and critical sections (AVR)\<close>

text \<open>Bit 7 of SREG is the global interrupt enable flag.\<close>

definition SREG_I :: nat where
  "SREG_I = 7"

definition arch_dint :: "u8 \<Rightarrow> u8" where
  "arch_dint sreg = sreg AND NOT (push_bit SREG_I 1)"

definition arch_eint :: "u8 \<Rightarrow> u8" where
  "arch_eint sreg = sreg OR push_bit SREG_I 1"

definition arch_is_dint :: "u8 \<Rightarrow> bool" where
  "arch_is_dint sreg \<longleftrightarrow> sreg AND push_bit SREG_I 1 = 0"

text \<open>\<open>arch_halt\<close> spins with interrupts disabled.\<close>

partial_function (option) arch_halt_loop :: "u8 \<Rightarrow> u8 option" where
  "arch_halt_loop sr = arch_halt_loop sr"

definition arch_halt :: "u8 \<Rightarrow> u8 option" where
  "arch_halt sr = arch_halt_loop (arch_dint sr)"

text \<open>\<open>arch_critical_enter\<close> stores SREG in the caller's variable: the pair is
  (critical state, new SREG).\<close>

definition arch_critical_enter :: "u8 \<Rightarrow> u8 \<times> u8" where
  "arch_critical_enter sreg = (sreg, arch_dint sreg)"

definition arch_critical_exit :: "u8 \<Rightarrow> u8 \<Rightarrow> u8" where
  "arch_critical_exit critical_state sreg = critical_state"

section \<open>Atomic macros (AVR)\<close>

text \<open>Each macro maps SREG and the memory cell to (result, new cell, new SREG).\<close>

definition os_atomic_inc_load :: "u8 \<Rightarrow> 'w::len word \<Rightarrow> 'w word \<times> 'w word \<times> u8" where
  "os_atomic_inc_load sreg cell =
     (let (cristate, sreg) = arch_critical_enter sreg;
          cell = cell + 1;
          val = cell;
          sreg = arch_critical_exit cristate sreg
      in (val, cell, sreg))"

definition os_atomic_dec_load :: "u8 \<Rightarrow> 'w::len word \<Rightarrow> 'w word \<times> 'w word \<times> u8" where
  "os_atomic_dec_load sreg cell =
     (let (cristate, sreg) = arch_critical_enter sreg;
          cell = cell - 1;
          val = cell;
          sreg = arch_critical_exit cristate sreg
      in (val, cell, sreg))"

definition os_atomic_inc :: "u8 \<Rightarrow> 'w::len word \<Rightarrow> 'w word \<times> u8" where
  "os_atomic_inc sreg cell = snd (os_atomic_inc_load sreg cell)"

definition os_atomic_dec :: "u8 \<Rightarrow> 'w::len word \<Rightarrow> 'w word \<times> u8" where
  "os_atomic_dec sreg cell = snd (os_atomic_dec_load sreg cell)"

text \<open>A cell that holds a pointer is read and written whole; \<open>'p\<close> is the pointer type.\<close>

definition os_atomic_load :: "u8 \<Rightarrow> 'p \<Rightarrow> 'p \<times> u8" where
  "os_atomic_load sreg cell =
     (let (cristate, sreg) = arch_critical_enter sreg;
          val = cell;
          sreg = arch_critical_exit cristate sreg
      in (val, sreg))"

definition os_atomic_store :: "u8 \<Rightarrow> 'p \<Rightarrow> 'p \<Rightarrow> 'p \<times> u8" where
  "os_atomic_store sreg val cell =
     (let (cristate, sreg) = arch_critical_enter sreg;
          cell = val;
          sreg = arch_critical_exit cristate sreg
      in (cell, sreg))"

definition os_atomic_exch :: "u8 \<Rightarrow> 'p \<Rightarrow> 'p \<Rightarrow> 'p \<times> 'p \<times> u8" where
  "os_atomic_exch sreg val cell =
     (let (cristate, sreg) = arch_critical_enter sreg;
          tmp = cell;
          cell = val;
          sreg = arch_critical_exit cristate sreg
      in (tmp, cell, sreg))"

text \<open>\<open>os_atomic_cmp_exch\<close> gives (fail, new cell, new expected value, new SREG).\<close>

definition os_atomic_cmp_exch :: "u8 \<Rightarrow> 'p \<Rightarrow> 'p \<Rightarrow> 'p \<Rightarrow> bool \<times> 'p \<times> 'p \<times> u8" where
  "os_atomic_cmp_exch sreg exp_val val cell =
     (let (cristate, sreg) = arch_critical_enter sreg;
          tmp = cell
      in if tmp = exp_val
         then (let cell = val; sreg = arch_critical_exit cristate sreg
               in (False, cell, exp_val, sreg))
         else (let sreg = arch_critical_exit cristate sreg
               in (True, cell, tmp, sreg)))"

section \<open>Masks\<close>

lemma bit_arch_bitmask_set:
  "bit (arch_bitmask_set m b) i \<longleftrightarrow> bit m i \<or> (i = unat b \<and> i < 8)"
  by (auto simp: arch_bitmask_set_def bit_simps)

lemma bit_arch_bitmask_clear:
  "bit (arch_bitmask_clear m b) i \<longleftrightarrow> bit m i \<and> i \<noteq> unat b"
  by (auto simp: arch_bitmask_clear_def bit_simps dest: bit_imp_le_length)

text \<open>The reference: one more than the index of the highest set bit, 0 for an empty mask.\<close>

definition fls_spec :: "u8 \<Rightarrow> nat \<Rightarrow> bool" where
  "fls_spec m r \<longleftrightarrow> r \<le> 8 \<and> (\<forall>i < 8. r \<le> i \<longrightarrow> \<not> bit m i) \<and> (r = 0 \<or> bit m (r - 1))"

definition fls_check :: "(u8 \<Rightarrow> u8) \<Rightarrow> nat \<Rightarrow> bool" where
  "fls_check f n \<longleftrightarrow>
     (let m = word_of_nat n; r = unat (f m)
      in r \<le> 8 \<and> list_all (\<lambda>i. r \<le> i \<longrightarrow> \<not> bit m i) [0..<8] \<and> (r = 0 \<or> bit m (r - 1)))"

lemma fls_check_spec:
  assumes "list_all (fls_check f) [0..<256]"
  shows "fls_spec m (unat (f m))"
proof -
  have "fls_check f (unat m)"
    using assms unat_u8_less [of m] by (simp add: list_all_iff)
  then show ?thesis
    by (auto simp: fls_check_def fls_spec_def list_all_iff Let_def)
qed

lemma avr_fls_check: "list_all (fls_check arch_bitmask_fls) [0..<256]"
  by code_simp

lemma msp430_fls_check: "list_all (fls_check msp430_bitmask_fls) [0..<256]"
  by code_simp

lemma linux_fls_check: "list_all (fls_check linux_bitmask_fls) [0..<256]"
  by code_simp

text \<open>The reference has one value, so the ports agree.\<close>

lemma fls_spec_le: "fls_spec m a \<Longrightarrow> fls_spec m b \<Longrightarrow> a \<le> b"
  by (cases a) (auto simp: fls_spec_def Suc_le_eq not_less [symmetric])

lemma fls_spec_unique: "fls_spec m a \<Longrightarrow> fls_spec m b \<Longrightarrow> a = b"
  using fls_spec_le le_antisym by blast

lemmas fls_specs =
  fls_check_spec [OF avr_fls_check] fls_check_spec [OF msp430_fls_check]
  fls_check_spec [OF linux_fls_check]

section \<open>Halt\<close>

lemma arch_halt_never_returns: "arch_halt sr = None"
proof -
  have "arch_halt_loop sr = Some r \<Longrightarrow> False" for sr r by (rule arch_halt_loop.raw_induct) auto
  then show ?thesis by (cases "arch_halt sr") (auto simp: arch_halt_def)
qed

section \<open>Critical sections\<close>

lemma is_dint_bit: "arch_is_dint r \<longleftrightarrow> \<not> bit r SREG_I"
proof -
  have "SREG_I < 8" by (simp add: SREG_I_def)
  then show ?thesis by (auto simp: arch_is_dint_def bit_eq_iff [where ?'a = u8] bit_simps)
qed

lemma is_dint_dint [simp]: "arch_is_dint (arch_dint r)"
  by (simp add: is_dint_bit arch_dint_def bit_simps SREG_I_def)

lemma dint_idle: "arch_is_dint r \<Longrightarrow> arch_dint r = r"
  by (auto simp: is_dint_bit arch_dint_def bit_eq_iff [where ?'a = u8] bit_simps)

section \<open>Properties\<close>

text \<open>The masks of the three ports are the same.\<close>

lemma bitmasks_agree:
  "msp430_bitmask_set m b = arch_bitmask_set m b" "linux_bitmask_set m b = arch_bitmask_set m b"
  "msp430_bitmask_clear m b = arch_bitmask_clear m b" "linux_bitmask_clear m b = arch_bitmask_clear m b"
  by (auto simp: bit_eq_iff [where ?'a = u8] bit_arch_bitmask_set bit_arch_bitmask_clear msp430_bitmask_set_def
      linux_bitmask_set_def msp430_bitmask_clear_def linux_bitmask_clear_def bit_simps dest: bit_imp_le_length)

text \<open>C29. The table driven \<open>arch_bitmask_fls\<close> of the AVR and MSP430 ports and the
  \<open>__builtin_clz\<close> version of the Linux port compute the same function: one more than the index
  of the highest set bit of the mask, and 0 for the empty mask. The ports also set and clear the same bits,
  though they compute with integers of different widths.\<close>

theorem bitmask_ports_agree:
  "fls_spec m (unat (arch_bitmask_fls m)) \<and> msp430_bitmask_fls m = arch_bitmask_fls m \<and>
   linux_bitmask_fls m = arch_bitmask_fls m \<and>
   msp430_bitmask_set m b = arch_bitmask_set m b \<and> linux_bitmask_set m b = arch_bitmask_set m b \<and>
   msp430_bitmask_clear m b = arch_bitmask_clear m b \<and> linux_bitmask_clear m b = arch_bitmask_clear m b"
  using fls_specs [of m] fls_spec_unique [of m] by (auto simp: u8_eq_iff_unat bitmasks_agree)

text \<open>Critical sections of the AVR port nest: entering disables the interrupts whatever
  the state was, an inner section leaves them disabled, and leaving the outer one restores the
  status register of the caller. The atomic macros run inside such a section, leave the status
  register as it was, and wrap around at the width of their operand.\<close>

theorem critical_sections_nest:
  "(let (c1, r1) = arch_critical_enter r; (c2, r2) = arch_critical_enter r1;
        r3 = arch_critical_exit c2 r2; r4 = arch_critical_exit c1 r3
    in arch_is_dint r1 \<and> arch_is_dint r2 \<and> arch_is_dint r3 \<and> r4 = r) \<and>
   os_atomic_inc_load r cell = (cell + 1, cell + 1, r) \<and>
   os_atomic_dec_load r cell = (cell - 1, cell - 1, r) \<and>
   os_atomic_exch r v old = (old, v, r) \<and>
   os_atomic_cmp_exch r exp v old =
     (if old = exp then (False, v, exp, r) else (True, old, old, r))"
  by (simp add: arch_critical_enter_def arch_critical_exit_def os_atomic_inc_load_def
      os_atomic_dec_load_def os_atomic_exch_def os_atomic_cmp_exch_def Let_def)

end
