(* ===== verification/Interfaces.thy ===== *)
theory Interfaces
  imports Prelude
begin

text \<open>
  The contracts between components, as locales. A \<open>stable_queue\<close> is a container that is
  emptied in the order of a key, first-in first-out among equal keys: the priority lists of
  \<^verbatim>\<open>list.h\<close> and the task queues of \<^verbatim>\<open>os_sched.c\<close> are instances. A \<open>drain\<close> is a loop that
  empties a queue, as the wake-up loops of the synchronisation objects do. An \<open>invariant_system\<close> is
  a step relation whose steps keep an invariant.
\<close>

section \<open>Reference insertion\<close>

text \<open>Before the first element of smaller key, so after every element of the same key.\<close>

definition prio_insert :: "('a \<Rightarrow> 'k::linorder) \<Rightarrow> 'a \<Rightarrow> 'a list \<Rightarrow> 'a list" where
  "prio_insert prio e xs =
     takeWhile (\<lambda>x. prio e \<le> prio x) xs @ e # dropWhile (\<lambda>x. prio e \<le> prio x) xs"

definition prio_sorted :: "('a \<Rightarrow> 'k::linorder) \<Rightarrow> 'a list \<Rightarrow> bool" where
  "prio_sorted prio xs \<longleftrightarrow> sorted_wrt (\<lambda>x y. prio y \<le> prio x) xs"

text \<open>The stable sort by descending key.\<close>

definition prio_sort :: "('a \<Rightarrow> 'k::linorder) \<Rightarrow> 'a list \<Rightarrow> 'a list" where
  "prio_sort prio xs = rev (sort_key prio (rev xs))"

lemma prio_insert_simps [simp]:
  "prio_insert prio e [] = [e]"
  "prio_insert prio e (x # xs) =
     (if prio e \<le> prio x then x # prio_insert prio e xs else e # x # xs)"
  by (simp_all add: prio_insert_def)

lemma set_prio_insert: "set (prio_insert prio e xs) = insert e (set xs)"
  by (induction xs) auto

lemma prio_insert_hd: "prio_insert k e xs \<noteq> []" "hd (prio_insert k e xs) \<in> insert e (set xs)"
proof -
  show "prio_insert k e xs \<noteq> []" by (simp add: prio_insert_def)
  then show "hd (prio_insert k e xs) \<in> insert e (set xs)" using hd_in_set set_prio_insert by metis
qed

lemma prio_sorted_insert: "prio_sorted prio xs \<Longrightarrow> prio_sorted prio (prio_insert prio e xs)"
  by (induction xs) (force simp: prio_sorted_def set_prio_insert)+

lemma filter_above_bound:
  "\<forall>x \<in> set xs. prio x \<le> a \<Longrightarrow> \<not> p \<le> a \<Longrightarrow> filter (\<lambda>x. prio x = p) xs = []"
  for p :: "'k::linorder"
  by (auto simp: filter_empty_conv)

text \<open>Elements of one priority keep their order and the new one comes last among them.\<close>

lemma prio_insert_fifo:
  "prio_sorted prio xs \<Longrightarrow>
   filter (\<lambda>x. prio x = p) (prio_insert prio e xs) =
   filter (\<lambda>x. prio x = p) xs @ (if prio e = p then [e] else [])"
  by (induction xs) (auto simp: prio_sorted_def filter_above_bound)

lemma prio_insert_above:
  "\<forall>x \<in> set xs. prio e \<le> prio x \<Longrightarrow> prio_insert prio e (xs @ ys) = xs @ prio_insert prio e ys"
  by (induction xs) auto

lemma prio_insert_below: "\<forall>x \<in> set xs. prio x < prio e \<Longrightarrow> prio_insert prio e xs = e # xs"
  by (cases xs) auto

lemma prio_insert_cong:
  "(\<And>x. x \<in> insert e (set xs) \<Longrightarrow> k x = k' x) \<Longrightarrow> prio_insert k e xs = prio_insert k' e xs"
  by (induction xs) auto

lemma prio_sorted_cong:
  "(\<And>x. x \<in> set xs \<Longrightarrow> k x = k' x) \<Longrightarrow> prio_sorted k xs = prio_sorted k' xs"
  by (induction xs) (auto simp: prio_sorted_def)

lemma rev_insort_key:
  "sorted (map prio xs) \<Longrightarrow> rev (insort_key prio e xs) = prio_insert prio e (rev xs)"
proof (induction xs)
  case (Cons x xs)
  show ?case
  proof (cases "prio e \<le> prio x")
    case True
    then have "prio_insert prio e (rev xs @ [x]) = rev xs @ prio_insert prio e [x]"
      using Cons.prems by (intro prio_insert_above) auto
    then show ?thesis using True by simp
  next
    case False
    have "prio_insert prio e (ys @ [x]) = prio_insert prio e ys @ [x]" for ys
      using False by (induction ys) auto
    then show ?thesis using False Cons by simp
  qed
qed simp

lemma prio_sort_snoc: "prio_sort prio (xs @ [x]) = prio_insert prio x (prio_sort prio xs)"
  by (simp add: prio_sort_def rev_insort_key)

lemma set_prio_sort [simp]: "set (prio_sort prio xs) = set xs"
  by (simp add: prio_sort_def)

lemma length_prio_sort [simp]: "length (prio_sort prio xs) = length xs"
  by (simp add: prio_sort_def)

lemma prio_sort_sorted: "prio_sorted prio (prio_sort prio xs)"
  by (induction xs rule: rev_induct)
    (simp_all add: prio_sort_snoc prio_sorted_insert, simp add: prio_sort_def prio_sorted_def)

lemma prio_sort_fifo:
  "filter (\<lambda>x. prio x = p) (prio_sort prio xs) = filter (\<lambda>x. prio x = p) xs"
proof (induction xs rule: rev_induct)
  case (snoc x xs)
  then show ?case by (simp add: prio_sort_snoc prio_insert_fifo prio_sort_sorted)
qed (simp add: prio_sort_def)

section \<open>Queues\<close>

text \<open>Running an operation for every element, and taking elements out \<open>n\<close> times.\<close>

fun put_all :: "('e \<Rightarrow> 's \<Rightarrow> 's option) \<Rightarrow> 'e list \<Rightarrow> 's \<Rightarrow> 's option" where
  "put_all put [] s = Some s"
| "put_all put (e # es) s = Option.bind (put e s) (put_all put es)"

fun take_n :: "('s \<Rightarrow> ('e option \<times> 's) option) \<Rightarrow> nat \<Rightarrow> 's \<Rightarrow> ('e option list \<times> 's) option" where
  "take_n get 0 s = Some ([], s)"
| "take_n get (Suc n) s =
     Option.bind (get s) (\<lambda>(e, s). Option.bind (take_n get n s) (\<lambda>(es, s). Some (e # es, s)))"

text \<open>\<open>R xs s\<close>: the state \<open>s\<close> holds the elements \<open>xs\<close>, in the order in which they leave;
  \<open>can e s\<close>: the element may be put in.\<close>

locale stable_queue =
  fixes R :: "'e list \<Rightarrow> 's \<Rightarrow> bool"
    and key :: "'e \<Rightarrow> 'k::linorder"
    and can :: "'e \<Rightarrow> 's \<Rightarrow> bool"
    and put :: "'e \<Rightarrow> 's \<Rightarrow> 's option"
    and get :: "'s \<Rightarrow> ('e option \<times> 's) option"
  assumes put_law: "R xs s \<Longrightarrow> can e s \<Longrightarrow> \<exists>s'. put e s = Some s' \<and> R (prio_insert key e xs) s'"
    and can_put: "R xs s \<Longrightarrow> put e s = Some s' \<Longrightarrow> can e s \<Longrightarrow> can d s \<Longrightarrow> d \<noteq> e \<Longrightarrow> can d s'"
    and get_empty: "R [] s \<Longrightarrow> get s = Some (None, s)"
    and get_first: "R (e # xs) s \<Longrightarrow> \<exists>s'. get s = Some (Some e, s') \<and> R xs s'"
begin

lemma put_all_from:
  assumes "R xs s" and "distinct es" and "\<forall>e \<in> set es. can e s"
  shows "\<exists>s'. put_all put es s = Some s' \<and> R (fold (prio_insert key) es xs) s'"
  using assms
proof (induction es arbitrary: xs s)
  case (Cons e es)
  obtain s' where s': "put e s = Some s'" "R (prio_insert key e xs) s'"
    using put_law [OF Cons.prems(1), of e] Cons.prems(3) by auto
  moreover have "\<forall>d \<in> set es. can d s'"
    using can_put [OF Cons.prems(1) s'(1)] Cons.prems(2,3) by auto
  ultimately show ?case
    using Cons.IH [OF s'(2)] Cons.prems(2) by simp
qed simp

lemma fold_prio_insert: "fold (prio_insert key) es [] = prio_sort key es"
  by (induction es rule: rev_induct) (simp_all add: prio_sort_snoc, simp add: prio_sort_def)

lemma put_all_sorts:
  assumes "R [] s" and "distinct es" and "\<forall>e \<in> set es. can e s"
  shows "\<exists>s'. put_all put es s = Some s' \<and> R (prio_sort key es) s'"
  using put_all_from [OF assms] by (simp add: fold_prio_insert)

lemma take_all: "R xs s \<Longrightarrow> \<exists>s'. take_n get (length xs) s = Some (map Some xs, s') \<and> R [] s'"
proof (induction xs arbitrary: s)
  case (Cons x xs)
  obtain s' where "get s = Some (Some x, s')" "R xs s'" using get_first Cons.prems by blast
  then show ?case using Cons.IH [of s'] by auto
qed simp

text \<open>What was put in leaves by descending key, and in the order of arrival within a key.\<close>

lemma put_take:
  assumes "R [] s" and "distinct es" and "\<forall>e \<in> set es. can e s"
  shows "\<exists>s' s''. put_all put es s = Some s' \<and>
    take_n get (length es) s' = Some (map Some (prio_sort key es), s'') \<and>
    R [] s'' \<and> get s'' = Some (None, s'')"
proof -
  obtain s' where s': "put_all put es s = Some s'" "R (prio_sort key es) s'"
    using put_all_sorts [OF assms] by blast
  then show ?thesis using take_all [OF s'(2)] get_empty by auto
qed

end

section \<open>Loops that empty a queue\<close>

text \<open>
  A loop that takes elements out one by one. \<open>R es s\<close>: the elements \<open>es\<close> are still to be taken;
  one round takes the first of them and does its work, and without elements the loop ends with
  \<open>fin\<close>; \<open>did es s s'\<close> is the effect of handling \<open>es\<close>.
\<close>

locale drain =
  fixes R :: "'e list \<Rightarrow> 's \<Rightarrow> bool"
    and loop :: "'s \<Rightarrow> 'r"
    and fin :: "'s \<Rightarrow> 'r"
    and did :: "'e list \<Rightarrow> 's \<Rightarrow> 's \<Rightarrow> bool"
  assumes last: "R [] s \<Longrightarrow> loop s = fin s"
    and first: "R (e # es) s \<Longrightarrow> \<exists>s'. loop s = loop s' \<and> R es s' \<and> did [e] s s'"
    and did_nil: "did [] s s"
    and did_cons: "did [e] s s' \<Longrightarrow> did es s' s'' \<Longrightarrow> did (e # es) s s''"
begin

text \<open>The loop ends, and it has handled exactly the elements of the queue.\<close>

lemma drains: "R es s \<Longrightarrow> \<exists>s'. loop s = fin s' \<and> R [] s' \<and> did es s s'"
proof (induction es arbitrary: s)
  case Nil
  then show ?case using last did_nil by blast
next
  case (Cons e es)
  obtain s1 where s1: "loop s = loop s1" "R es s1" "did [e] s s1" using first [OF Cons.prems] by blast
  then obtain s' where "loop s1 = fin s'" "R [] s'" "did es s1 s'" using Cons.IH by blast
  then show ?case using s1 did_cons by metis
qed

end

section \<open>Step systems\<close>

inductive reachable :: "('s \<Rightarrow> bool) \<Rightarrow> ('s \<Rightarrow> 's \<Rightarrow> bool) \<Rightarrow> 's \<Rightarrow> bool"
  for start :: "'s \<Rightarrow> bool" and step :: "'s \<Rightarrow> 's \<Rightarrow> bool" where
  start: "start s \<Longrightarrow> reachable start step s"
| step: "reachable start step s \<Longrightarrow> step s s' \<Longrightarrow> reachable start step s'"

locale invariant_system =
  fixes start :: "'s \<Rightarrow> bool" and step :: "'s \<Rightarrow> 's \<Rightarrow> bool" and inv :: "'s \<Rightarrow> bool"
  assumes start_inv: "start s \<Longrightarrow> inv s"
    and step_inv: "inv s \<Longrightarrow> step s s' \<Longrightarrow> inv s'"
begin

lemma reachable_inv: "reachable start step s \<Longrightarrow> inv s"
  by (induction rule: reachable.induct) (auto intro: start_inv step_inv)

end

end
