(* ===== verification/List_H.thy ===== *)
theory List_H
  imports Interfaces
begin

text \<open>
  The intrusive doubly linked lists of \<^verbatim>\<open>source/list.h\<close>. A heap gives every node its two
  links; the operations assign them in the order the C code does. \<open>dlist h l xs\<close> says that
  the nodes \<open>xs\<close> form the circular list with the head \<open>l\<close>; the lemmas state each operation
  against this abstraction, together with what it leaves alone.
\<close>

section \<open>Model\<close>

text \<open>The struct \<open>list_t\<close>, for all nodes of one kind: \<open>lnext h n\<close> is \<open>n->next\<close>.\<close>

record 'a lheap =
  lnext :: "'a \<Rightarrow> 'a"
  lprev :: "'a \<Rightarrow> 'a"

definition set_next :: "'a \<Rightarrow> 'a \<Rightarrow> 'a lheap \<Rightarrow> 'a lheap" where
  "set_next n v h = h\<lparr>lnext := (lnext h)(n := v)\<rparr>"

definition set_prev :: "'a \<Rightarrow> 'a \<Rightarrow> 'a lheap \<Rightarrow> 'a lheap" where
  "set_prev n v h = h\<lparr>lprev := (lprev h)(n := v)\<rparr>"

definition list_put_in_between :: "'a \<Rightarrow> 'a \<Rightarrow> 'a \<Rightarrow> 'a lheap \<Rightarrow> 'a lheap" where
  "list_put_in_between elem left right h =
     (let h = set_prev right elem h;
          h = set_next elem right h;
          h = set_prev elem left h
      in set_next left elem h)"

definition list_connect_together :: "'a \<Rightarrow> 'a \<Rightarrow> 'a lheap \<Rightarrow> 'a lheap" where
  "list_connect_together left right h =
     (let h = set_prev right left h
      in set_next left right h)"

definition list_init :: "'a \<Rightarrow> 'a lheap \<Rightarrow> 'a lheap" where
  "list_init l h = (let h = set_next l l h in set_prev l l h)"

definition list_prepend :: "'a \<Rightarrow> 'a \<Rightarrow> 'a lheap \<Rightarrow> 'a lheap" where
  "list_prepend l elem h = list_put_in_between elem l (lnext h l) h"

definition list_append :: "'a \<Rightarrow> 'a \<Rightarrow> 'a lheap \<Rightarrow> 'a lheap" where
  "list_append l elem h = list_put_in_between elem (lprev h l) l h"

definition list_put_after :: "'a \<Rightarrow> 'a \<Rightarrow> 'a lheap \<Rightarrow> 'a lheap" where
  "list_put_after itr ele h = list_put_in_between ele itr (lnext h itr) h"

definition list_put_before :: "'a \<Rightarrow> 'a \<Rightarrow> 'a lheap \<Rightarrow> 'a lheap" where
  "list_put_before itr ele h = list_put_in_between ele (lprev h itr) itr h"

definition list_unlink :: "'a \<Rightarrow> 'a lheap \<Rightarrow> 'a lheap" where
  "list_unlink elem h =
     (let h = list_connect_together (lprev h elem) (lnext h elem) h
      in list_init elem h)"

definition list_is_empty :: "'a \<Rightarrow> 'a lheap \<Rightarrow> bool" where
  "list_is_empty l h = (if lnext h l = l then True else False)"

definition list_itr_begin :: "'a \<Rightarrow> 'a lheap \<Rightarrow> 'a" where
  "list_itr_begin l h = lnext h l"

definition list_itr_end :: "'a \<Rightarrow> 'a \<Rightarrow> bool" where
  "list_itr_end l itr \<longleftrightarrow> l = itr"

text \<open>The functions that may return NULL return an option.\<close>

definition list_peekfirst :: "'a \<Rightarrow> 'a lheap \<Rightarrow> 'a option" where
  "list_peekfirst l h = (if lnext h l = l then None else Some (lnext h l))"

definition list_detachfirst :: "'a \<Rightarrow> 'a lheap \<Rightarrow> 'a option \<times> 'a lheap" where
  "list_detachfirst l h =
     (let elem = lnext h l
      in if elem = l then (None, h)
         else let h = list_connect_together (lprev h elem) (lnext h elem) h;
                  h = list_init elem h
              in (Some elem, h))"

definition list_peeklast :: "'a \<Rightarrow> 'a lheap \<Rightarrow> 'a option" where
  "list_peeklast l h = (if lprev h l = l then None else Some (lprev h l))"

text \<open>
  Priority lists: \<open>prio\<close> is the field \<open>prio\<close> of \<open>listprio_t\<close>. The scan of
  \<open>listprio_append\<close> follows the links until it returns to the head or meets a smaller
  priority; it is undefined (\<open>None\<close>) where the C loop does not end.
\<close>

partial_function (option) listprio_scan ::
  "('a \<Rightarrow> u16) \<Rightarrow> 'a lheap \<Rightarrow> 'a \<Rightarrow> 'a \<Rightarrow> 'a \<Rightarrow> 'a \<Rightarrow> ('a \<times> 'a) option" where
  "listprio_scan prio h hh elem l r =
     (if r \<noteq> hh \<and> prio elem \<le> prio r
      then listprio_scan prio h hh elem r (lnext h r)
      else Some (l, r))"

definition listprio_append ::
  "('a \<Rightarrow> u16) \<Rightarrow> 'a \<Rightarrow> 'a \<Rightarrow> 'a lheap \<Rightarrow> 'a lheap option" where
  "listprio_append prio hh elem h =
     (case listprio_scan prio h hh elem hh (lnext h hh) of
        None \<Rightarrow> None
      | Some (l, r) \<Rightarrow> Some (list_put_in_between elem l r h))"

definition listprio_detachfirst :: "'a \<Rightarrow> 'a lheap \<Rightarrow> 'a option \<times> 'a lheap" where
  "listprio_detachfirst l h =
     (let elem = lnext h l
      in if elem = l then (None, h)
         else let h = list_connect_together (lprev h elem) (lnext h elem) h;
                  h = list_init elem h
              in (Some elem, h))"

section \<open>Abstraction\<close>

text \<open>\<open>seg h ns\<close>: neighbours in \<open>ns\<close> are linked both ways.\<close>

fun seg :: "'a lheap \<Rightarrow> 'a list \<Rightarrow> bool" where
  "seg h (x # y # zs) \<longleftrightarrow> lnext h x = y \<and> lprev h y = x \<and> seg h (y # zs)"
| "seg h _ \<longleftrightarrow> True"

definition dlist :: "'a lheap \<Rightarrow> 'a \<Rightarrow> 'a list \<Rightarrow> bool" where
  "dlist h l xs \<longleftrightarrow> seg h (l # xs @ [l]) \<and> distinct (l # xs)"

text \<open>The two heaps give a node the same links.\<close>

definition same_links :: "'a lheap \<Rightarrow> 'a lheap \<Rightarrow> 'a \<Rightarrow> bool" where
  "same_links h h' n \<longleftrightarrow> lnext h' n = lnext h n \<and> lprev h' n = lprev h n"

lemmas [list_h_defs] =
  set_next_def set_prev_def list_put_in_between_def list_connect_together_def
  list_init_def list_prepend_def list_append_def list_put_after_def list_put_before_def
  list_unlink_def Let_def

section \<open>Segments\<close>

lemma seg_append: "seg h (xs @ y # zs) \<longleftrightarrow> seg h (xs @ [y]) \<and> seg h (y # zs)"
  by (induction xs rule: induct_list012) auto

lemma seg_Cons: "seg h (x # y # zs) \<longleftrightarrow> lnext h x = y \<and> lprev h y = x \<and> seg h (y # zs)"
  by simp

lemma seg_snoc: "seg h (xs @ [x, y]) \<longleftrightarrow> seg h (xs @ [x]) \<and> lnext h x = y \<and> lprev h y = x"
  using seg_append [of h xs x "[y]"] by simp

text \<open>A segment depends on the next links of all but its last node and the previous links of
  all but its first node.\<close>

lemma seg_cong:
  assumes "\<forall>n \<in> set (butlast ns). lnext h' n = lnext h n"
    and "\<forall>n \<in> set (tl ns). lprev h' n = lprev h n"
  shows "seg h' ns = seg h ns"
  using assms
proof (induction ns rule: induct_list012)
  case (3 x y zs)
  then show ?case
    by (cases zs) auto
qed simp_all

lemma dlist_cong:
  assumes "\<forall>n \<in> set (l # xs). same_links h h' n"
  shows "dlist h' l xs = dlist h l xs"
proof -
  have "seg h' (l # xs @ [l]) = seg h (l # xs @ [l])"
    by (rule seg_cong) (use assms in \<open>auto simp: same_links_def butlast_append split: if_splits\<close>)
  then show ?thesis by (simp add: dlist_def)
qed

lemma dlist_Nil: "dlist h l [] \<longleftrightarrow> lnext h l = l \<and> lprev h l = l"
  by (auto simp: dlist_def)

lemma dlist_next: "dlist h l xs \<Longrightarrow> lnext h l = hd (xs @ [l])"
  by (cases xs) (auto simp: dlist_def)

lemma dlist_prev: "dlist h l xs \<Longrightarrow> lprev h l = last (l # xs)"
  by (cases xs rule: rev_cases) (auto simp: dlist_def seg_snoc [of _ "l # _", simplified])

lemma dlist_distinct: "dlist h l xs \<Longrightarrow> distinct xs \<and> l \<notin> set xs"
  by (simp add: dlist_def)

text \<open>The list a head stands for is unique.\<close>

lemma seg_unique:
  "seg h (x # xs @ [l]) \<Longrightarrow> seg h (x # ys @ [l]) \<Longrightarrow> l \<notin> set xs \<Longrightarrow> l \<notin> set ys \<Longrightarrow> xs = ys"
proof (induction xs arbitrary: x ys)
  case Nil
  then show ?case by (cases ys) auto
next
  case (Cons a xs)
  show ?case
  proof (cases ys)
    case Nil
    with Cons.prems show ?thesis by auto
  next
    case (Cons b ys')
    with Cons.prems Cons.IH [of a ys'] show ?thesis by auto
  qed
qed

lemma dlist_unique: "dlist h l xs \<Longrightarrow> dlist h l ys \<Longrightarrow> xs = ys"
  unfolding dlist_def by (auto intro: seg_unique)

section \<open>Operations on the abstraction\<close>

lemma put_in_between_links:
  "lnext (list_put_in_between e a b h) = (lnext h)(e := b, a := e)"
  "lprev (list_put_in_between e a b h) = (lprev h)(b := e, e := a)"
  by (auto simp: list_h_defs)

text \<open>Insertion between the neighbours \<open>a\<close> and \<open>b\<close> of a segment, then of a list.\<close>

lemma seg_put_in_between:
  assumes "seg h (as @ a # b # bs)" and "e \<notin> set (as @ a # b # bs)"
    and "a \<notin> set as" and "a \<notin> set (butlast (b # bs))"
    and "b \<notin> set bs" and "b \<notin> set (tl (as @ [a]))"
  shows "seg (list_put_in_between e a b h) (as @ a # e # b # bs)"
proof -
  let ?h = "list_put_in_between e a b h"
  have segs: "seg h (as @ [a])" "seg h (b # bs)"
    using assms(1) seg_append [of h as a "b # bs"] by auto
  have "seg ?h (as @ [a]) = seg h (as @ [a])"
    using assms by (intro seg_cong) (auto simp: put_in_between_links dest: in_set_butlastD list.set_sel(2) [rotated])
  moreover have "seg ?h (b # bs) = seg h (b # bs)"
    using assms by (intro seg_cong) (auto simp: put_in_between_links split: if_splits dest: in_set_butlastD)
  ultimately have "seg ?h (as @ [a])" "seg ?h (b # bs)"
    using segs by auto
  then show ?thesis
    using seg_append [of ?h as a "e # b # bs"] assms by (auto simp: put_in_between_links)
qed

lemma dlist_put_in_between:
  assumes "dlist h l (xs @ ys)" and "e \<notin> set (l # xs @ ys)"
  shows "dlist (list_put_in_between e (last (l # xs)) (hd (ys @ [l])) h) l (xs @ e # ys)"
proof (cases xs rule: rev_cases)
  case Nil
  with assms show ?thesis
    using seg_put_in_between [of h "[]" l l "[]" e]
      seg_put_in_between [of h "[]" l "hd ys" "tl ys @ [l]" e]
    by (cases ys) (auto simp: dlist_def butlast_append)
next
  case (snoc xs' x)
  with assms show ?thesis
    using seg_put_in_between [of h "l # xs'" x l "[]" e]
      seg_put_in_between [of h "l # xs'" x "hd ys" "tl ys @ [l]" e]
    by (cases ys) (auto simp: dlist_def butlast_append)
qed

text \<open>What the insertion writes: the links of the node and of its two neighbours.\<close>

lemma put_in_between_frame:
  "n \<notin> {e, a, b} \<Longrightarrow> same_links h (list_put_in_between e a b h) n"
  by (simp add: same_links_def put_in_between_links)

lemma dlist_init: "dlist (list_init l h) l []"
  by (simp add: dlist_Nil list_h_defs)

lemma init_frame: "n \<noteq> l \<Longrightarrow> same_links h (list_init l h) n"
  by (simp add: same_links_def list_h_defs)

lemma dlist_append:
  assumes "dlist h l xs" and "e \<notin> set (l # xs)"
  shows "dlist (list_append l e h) l (xs @ [e])"
  using dlist_put_in_between [of h l xs "[]" e] assms
  by (simp add: list_append_def dlist_prev)

lemma dlist_prepend:
  assumes "dlist h l xs" and "e \<notin> set (l # xs)"
  shows "dlist (list_prepend l e h) l (e # xs)"
  using dlist_put_in_between [of h l "[]" xs e] assms
  by (simp add: list_prepend_def dlist_next)

lemma append_frame:
  assumes "dlist h l xs" and "n \<notin> set (e # l # xs)"
  shows "same_links h (list_append l e h) n"
  unfolding list_append_def
  by (rule put_in_between_frame) (use assms in \<open>auto simp: dlist_prev split: if_splits\<close>)

text \<open>The neighbours of an element of a list.\<close>

lemma dlist_neighbours:
  assumes "dlist h l (xs @ e # ys)"
  shows "lprev h e = last (l # xs)" and "lnext h e = hd (ys @ [l])"
proof -
  have sg: "seg h ((l # xs) @ e # (ys @ [l]))"
    using assms by (simp add: dlist_def)
  show "lprev h e = last (l # xs)"
    using sg seg_append [of h "l # xs" e "ys @ [l]"]
    by (cases xs rule: rev_cases) (auto simp: seg_snoc [of _ "l # _", simplified])
  show "lnext h e = hd (ys @ [l])"
    using sg seg_append [of h "l # xs" e "ys @ [l]"] by (cases ys) auto
qed

lemma dlist_put_after:
  assumes "dlist h l (xs @ i # ys)" and "e \<notin> set (l # xs @ i # ys)"
  shows "dlist (list_put_after i e h) l (xs @ i # e # ys)"
  using dlist_put_in_between [of h l "xs @ [i]" ys e] assms
  by (simp add: list_put_after_def dlist_neighbours(2) [OF assms(1)])

lemma dlist_put_before:
  assumes "dlist h l (xs @ ys)" and "e \<notin> set (l # xs @ ys)" and "i = hd (ys @ [l])"
  shows "dlist (list_put_before i e h) l (xs @ e # ys)"
proof (cases ys)
  case Nil
  then show ?thesis
    using dlist_put_in_between [of h l xs "[]" e] assms
    by (simp add: list_put_before_def dlist_prev)
next
  case (Cons y zs)
  then show ?thesis
    using dlist_put_in_between [of h l xs ys e] assms dlist_neighbours(1) [of h l xs y zs]
    by (simp add: list_put_before_def)
qed

lemma put_before_frame:
  assumes "dlist h l (xs @ ys)" and "i = hd (ys @ [l])" and "n \<notin> set (e # l # xs @ ys)"
  shows "same_links h (list_put_before i e h) n"
proof -
  have "lprev h i \<in> set (l # xs @ ys)"
    using assms dlist_neighbours(1) [of h l xs] dlist_prev [of h l xs]
    by (cases ys) (auto split: if_splits)
  moreover have "i \<in> set (l # xs @ ys)"
    using assms(2) by (cases ys) auto
  ultimately show ?thesis
    unfolding list_put_before_def using assms(3) by (intro put_in_between_frame) auto
qed

section \<open>Removal\<close>

lemma unlink_links:
  assumes "lprev h e = a" and "lnext h e = b"
  shows "lnext (list_unlink e h) = (lnext h)(a := b, e := e)"
    and "lprev (list_unlink e h) = (lprev h)(b := a, e := e)"
  using assms by (auto simp: list_h_defs)

lemma seg_unlink:
  assumes "seg h (as @ a # e # b # bs)" and "e \<notin> set (as @ a # b # bs)"
    and "a \<notin> set as" and "a \<notin> set (butlast (b # bs))"
    and "b \<notin> set bs" and "b \<notin> set (tl (as @ [a]))"
  shows "seg (list_unlink e h) (as @ a # b # bs)"
proof -
  let ?h = "list_unlink e h"
  have segs: "seg h (as @ [a])" "seg h (b # bs)" "lprev h e = a" "lnext h e = b"
    using assms(1) seg_append [of h as a "e # b # bs"] by auto
  note links = unlink_links [OF segs(3,4)]
  have "seg ?h (as @ [a]) = seg h (as @ [a])"
    using assms by (intro seg_cong) (auto simp: links dest: in_set_butlastD list.set_sel(2) [rotated])
  moreover have "seg ?h (b # bs) = seg h (b # bs)"
    using assms by (intro seg_cong) (auto simp: links split: if_splits dest: in_set_butlastD)
  ultimately have "seg ?h (as @ [a])" "seg ?h (b # bs)"
    using segs by auto
  then show ?thesis
    using seg_append [of ?h as a "b # bs"] assms by (auto simp: links)
qed

lemma dlist_unlink_split:
  assumes "dlist h l (xs @ e # ys)"
  shows "dlist (list_unlink e h) l (xs @ ys)"
proof (cases xs rule: rev_cases)
  case Nil
  with assms show ?thesis
    using seg_unlink [of h "[]" l e l "[]"] seg_unlink [of h "[]" l e "hd ys" "tl ys @ [l]"]
    by (cases ys) (auto simp: dlist_def butlast_append)
next
  case (snoc xs' x)
  with assms show ?thesis
    using seg_unlink [of h "l # xs'" x e l "[]"] seg_unlink [of h "l # xs'" x e "hd ys" "tl ys @ [l]"]
    by (cases ys) (auto simp: dlist_def butlast_append)
qed

lemma dlist_unlink:
  assumes "dlist h l xs" and "e \<in> set xs"
  shows "dlist (list_unlink e h) l (remove1 e xs)"
proof -
  from assms(2) obtain ys zs where xs: "xs = ys @ e # zs" and "e \<notin> set ys"
    by (blast dest: split_list_first)
  then show ?thesis
    using dlist_unlink_split [of h l ys e zs] assms(1) by (simp add: remove1_split)
qed

lemma unlink_self: "dlist (list_unlink e h) e []"
  by (simp add: dlist_Nil list_h_defs)

lemma unlink_frame:
  assumes "dlist h l xs" and "e \<in> set xs" and "n \<notin> set (l # xs)"
  shows "same_links h (list_unlink e h) n"
proof -
  from assms(2) obtain ys zs where xs: "xs = ys @ e # zs"
    by (blast dest: split_list)
  note nb = dlist_neighbours [of h l ys e zs]
  have "lprev h e \<in> set (l # xs)" "lnext h e \<in> set (l # xs)"
    using assms(1) nb unfolding xs by (auto split: if_splits simp: hd_append)
  moreover have "e \<in> set (l # xs)" using assms(2) by simp
  ultimately show ?thesis
    using assms(3) unlink_links [OF refl refl, of e h]
    by (auto simp add: same_links_def simp del: set_simps)
qed

section \<open>Observers and detachment\<close>

lemma dlist_is_empty: "dlist h l xs \<Longrightarrow> list_is_empty l h \<longleftrightarrow> xs = []"
  by (cases xs) (auto simp: list_is_empty_def dlist_next dlist_def)

lemma dlist_peekfirst:
  "dlist h l xs \<Longrightarrow> list_peekfirst l h = (case xs of [] \<Rightarrow> None | x # _ \<Rightarrow> Some x)"
  by (cases xs) (auto simp: list_peekfirst_def dlist_def)

lemma dlist_peeklast:
  "dlist h l xs \<Longrightarrow> list_peeklast l h = (if xs = [] then None else Some (last xs))"
  using dlist_prev [of h l xs] dlist_distinct [of h l xs]
  by (cases xs rule: rev_cases) (auto simp: list_peeklast_def)

text \<open>\<open>list_detachfirst\<close> is \<open>list_unlink\<close> of the first element.\<close>

lemma detachfirst_Cons:
  assumes "dlist h l (x # xs)"
  shows "list_detachfirst l h = (Some x, list_unlink x h)"
proof -
  have "lnext h l = x" "x \<noteq> l"
    using assms by (auto simp: dlist_def)
  then show ?thesis
    by (simp add: list_detachfirst_def list_unlink_def Let_def)
qed

lemma detachfirst_Nil: "dlist h l [] \<Longrightarrow> list_detachfirst l h = (None, h)"
  by (simp add: list_detachfirst_def dlist_Nil)

lemma listprio_detachfirst_eq: "listprio_detachfirst = list_detachfirst"
  by (simp add: fun_eq_iff listprio_detachfirst_def list_detachfirst_def)

section \<open>Priority lists\<close>

lemma listprio_scan_result:
  assumes "dlist h l (xs @ ys)" and "\<forall>x \<in> set xs. prio e \<le> prio x"
  shows "listprio_scan prio h l e (last (l # xs)) (hd (ys @ [l])) =
    Some (last (l # xs @ takeWhile (\<lambda>x. prio e \<le> prio x) ys),
      hd (dropWhile (\<lambda>x. prio e \<le> prio x) ys @ [l]))"
  using assms
proof (induction ys arbitrary: xs)
  case Nil
  then show ?case by (subst listprio_scan.simps) simp
next
  case (Cons y ys)
  show ?case
  proof (cases "prio e \<le> prio y")
    case False
    then show ?thesis by (subst listprio_scan.simps) simp
  next
    case True
    have "y \<noteq> l" and "lnext h y = hd (ys @ [l])"
      using Cons.prems(1) dlist_neighbours(2) [of h l xs y ys] by (auto simp: dlist_def)
    then show ?thesis
      using Cons.IH [of "xs @ [y]"] Cons.prems True
      by (subst listprio_scan.simps) simp
  qed
qed

lemma listprio_append_result:
  assumes "dlist h l xs" and "e \<notin> set (l # xs)"
  shows "\<exists>h'. listprio_append prio l e h = Some h' \<and> dlist h' l (prio_insert prio e xs)"
proof -
  let ?P = "\<lambda>x. prio e \<le> prio x"
  let ?l = "last (l # takeWhile ?P xs)" and ?r = "hd (dropWhile ?P xs @ [l])"
  have "dlist h l (takeWhile ?P xs @ dropWhile ?P xs)" using assms(1) by simp
  moreover have "e \<notin> set (l # takeWhile ?P xs @ dropWhile ?P xs)"
    using assms(2) by (metis takeWhile_dropWhile_id)
  ultimately have "dlist (list_put_in_between e ?l ?r h) l (prio_insert prio e xs)"
    unfolding prio_insert_def by (rule dlist_put_in_between)
  moreover have "listprio_scan prio h l e l (lnext h l) = Some (?l, ?r)"
    using listprio_scan_result [of h l "[]" xs prio e] assms(1) by (simp add: dlist_next)
  ultimately show ?thesis
    by (simp add: listprio_append_def)
qed

text \<open>An element of a list is not linked to itself; a detached node is.\<close>

lemma dlist_linked: "dlist h l xs \<Longrightarrow> x \<in> set xs \<Longrightarrow> lnext h x \<noteq> x"
proof -
  assume d: "dlist h l xs" and "x \<in> set xs"
  then obtain ys zs where xs: "xs = ys @ x # zs" by (blast dest: split_list)
  then have "lnext h x = hd (zs @ [l])" using dlist_neighbours(2) d by fast
  then show "lnext h x \<noteq> x" using dlist_distinct [OF d] unfolding xs by (cases zs) auto
qed

lemma listprio_append_frame:
  assumes "dlist h l xs" and "e \<notin> set (l # xs)" and "listprio_append prio l e h = Some h'"
    and "n \<notin> set (e # l # xs)"
  shows "same_links h h' n"
proof -
  let ?P = "\<lambda>x. prio e \<le> prio x"
  let ?a = "last (l # takeWhile ?P xs)" and ?b = "hd (dropWhile ?P xs @ [l])"
  have "listprio_scan prio h l e l (lnext h l) = Some (?a, ?b)"
    using listprio_scan_result [of h l "[]" xs prio e] assms(1) by (simp add: dlist_next)
  then have h': "h' = list_put_in_between e ?a ?b h"
    using assms(3) by (simp add: listprio_append_def)
  have "?a \<in> set (l # takeWhile ?P xs)" by (rule last_in_set) simp
  moreover have "?b \<in> set (dropWhile ?P xs @ [l])" by (rule hd_in_set) simp
  ultimately have "{e, ?a, ?b} \<subseteq> set (e # l # xs)"
    by (auto dest: set_takeWhileD set_dropWhileD)
  then show ?thesis unfolding h' using assms(4) by (intro put_in_between_frame) blast
qed

section \<open>The priority lists are stable queues\<close>

interpretation listprio: stable_queue
  "\<lambda>xs h. dlist h l xs" prio "\<lambda>e h. e \<noteq> l \<and> lnext h e = e"
  "listprio_append prio l" "\<lambda>h. Some (listprio_detachfirst l h)"
  for l :: 'a and prio :: "'a \<Rightarrow> u16"
proof unfold_locales
  fix xs :: "'a list" and h h' :: "'a lheap" and e d :: 'a
  assume d: "dlist h l xs"
  have free: "x \<noteq> l \<and> lnext h x = x \<Longrightarrow> x \<notin> set (l # xs)" for x
    using dlist_linked [OF d] by auto
  show "e \<noteq> l \<and> lnext h e = e \<Longrightarrow>
      \<exists>h'. listprio_append prio l e h = Some h' \<and> dlist h' l (prio_insert prio e xs)"
    using listprio_append_result [OF d free] .
  assume "listprio_append prio l e h = Some h'" "e \<noteq> l \<and> lnext h e = e"
    "d \<noteq> l \<and> lnext h d = d" "d \<noteq> e"
  then show "d \<noteq> l \<and> lnext h' d = d"
    using listprio_append_frame [OF d free] free [of d] by (auto simp: same_links_def)
next
  fix xs :: "'a list" and h :: "'a lheap" and e :: 'a
  show "Some (listprio_detachfirst l h) = Some (None, h)" if "dlist h l []"
    using that by (simp add: listprio_detachfirst_eq detachfirst_Nil)
  show "\<exists>h'. Some (listprio_detachfirst l h) = Some (Some e, h') \<and> dlist h' l xs"
    if "dlist h l (e # xs)"
    using that detachfirst_Cons [OF that] dlist_unlink_split [of h l "[]" e xs]
    by (simp add: listprio_detachfirst_eq)
qed

section \<open>Properties\<close>

text \<open>The insertions of \<^verbatim>\<open>list.h\<close> put a node that is not yet in the list exactly where
  their names say: \<open>list_append\<close> last, \<open>list_prepend\<close> first, \<open>list_put_after\<close> and
  \<open>list_put_before\<close> next to the iterator, and the result is again a well-linked circular list
  in both directions.\<close>

theorem list_insert_refines:
  assumes "dlist h l (xs @ i # ys)" and "e \<notin> set (l # xs @ i # ys)"
  shows "dlist (list_append l e h) l (xs @ i # ys @ [e]) \<and>
    dlist (list_prepend l e h) l (e # xs @ i # ys) \<and>
    dlist (list_put_after i e h) l (xs @ i # e # ys) \<and>
    dlist (list_put_before i e h) l (xs @ e # i # ys)"
  using dlist_append [OF assms] dlist_prepend [OF assms] dlist_put_after [OF assms]
    dlist_put_before [of h l xs "i # ys" e i] assms by simp_all

definition heap012 :: "nat lheap" where
  "heap012 = list_append 0 2 (list_append 0 1 \<lparr>lnext = \<lambda>n. n, lprev = \<lambda>n. n\<rparr>)"

theorem list_insert_refines_witness:
  "dlist (list_append 0 3 heap012) 0 [1, 2, 3] \<and> dlist (list_prepend 0 3 heap012) 0 [3, 1, 2] \<and>
   dlist (list_put_after 1 3 heap012) 0 [1, 3, 2] \<and> dlist (list_put_before 1 3 heap012) 0 [3, 1, 2]"
proof -
  have "dlist heap012 0 ([] @ 1 # [2])" by (simp add: heap012_def dlist_def list_h_defs)
  from list_insert_refines [OF this, of 3] show ?thesis by simp
qed

text \<open>\<open>list_unlink\<close> removes exactly its node and leaves it linked to itself, so that
  unlinking it again changes nothing; \<open>list_detachfirst\<close> does the same with the first node, and
  returns NULL exactly for an empty list.\<close>

theorem list_remove_refines:
  assumes "dlist h l xs" and "e \<in> set xs"
  shows "dlist (list_unlink e h) l (remove1 e xs) \<and>
    list_unlink e (list_unlink e h) = list_unlink e h \<and>
    (\<exists>h'. list_detachfirst l h = (Some (hd xs), h') \<and> dlist h' l (tl xs)) \<and>
    (list_is_empty l (list_unlink e h) \<longleftrightarrow> xs = [e])"
proof (intro conjI)
  show u: "dlist (list_unlink e h) l (remove1 e xs)" by (rule dlist_unlink [OF assms])
  show "list_unlink e (list_unlink e h) = list_unlink e h"
    by (simp add: list_h_defs fun_upd_idem_iff)
  obtain x ys where xs: "xs = x # ys" using assms(2) by (cases xs) auto
  show "\<exists>h'. list_detachfirst l h = (Some (hd xs), h') \<and> dlist h' l (tl xs)"
    using detachfirst_Cons [of h l x ys] dlist_unlink_split [of h l "[]" x ys] assms(1)
    unfolding xs by simp
  show "list_is_empty l (list_unlink e h) \<longleftrightarrow> xs = [e]"
    using dlist_is_empty [OF u] assms(2) xs by auto
qed

theorem list_remove_refines_witness:
  "dlist (list_unlink 1 heap012) 0 [2] \<and> \<not> list_is_empty 0 (list_unlink 1 heap012)"
proof -
  have "dlist heap012 0 [1, 2]" by (simp add: heap012_def dlist_def list_h_defs)
  from list_remove_refines [OF this, of 1] show ?thesis by simp
qed

text \<open>C28. Priority lists: appending distinct detached elements to an empty list with
  \<open>listprio_append\<close> always ends, and \<open>listprio_detachfirst\<close> then returns them by descending
  priority and, within one priority, in the order in which they were appended; after that it
  returns NULL.\<close>

theorem listprio_drain_sorted:
  assumes "dlist h l []" and "distinct es" and "\<forall>e \<in> set es. e \<noteq> l \<and> lnext h e = e"
  shows "\<exists>h' h''. put_all (listprio_append prio l) es h = Some h' \<and>
    take_n (\<lambda>h. Some (listprio_detachfirst l h)) (length es) h' =
      Some (map Some (prio_sort prio es), h'') \<and>
    dlist h'' l [] \<and> listprio_detachfirst l h'' = (None, h'')"
  using listprio.put_take [OF assms] by simp

theorem listprio_drain_sorted_witness:
  "\<exists>h' h''. put_all (listprio_append (\<lambda>n. if n = 2 then 7 else 4) 0) [1, 2, 3 :: nat]
      \<lparr>lnext = \<lambda>n. n, lprev = \<lambda>n. n\<rparr> = Some h' \<and>
    take_n (\<lambda>h. Some (listprio_detachfirst 0 h)) 3 h' = Some ([Some 2, Some 1, Some 3], h'')"
proof -
  let ?h = "\<lparr>lnext = \<lambda>n. n, lprev = \<lambda>n. n\<rparr> :: nat lheap"
  have "dlist ?h 0 []" by (simp add: dlist_Nil)
  from listprio_drain_sorted [OF this, of "[1, 2, 3]" "\<lambda>n. if n = 2 then 7 else 4"]
  show ?thesis by (auto simp: prio_sort_def numeral_3_eq_3)
qed

end
