(* ===== verification/Kernel_State.thy ===== *)
theory Kernel_State
  imports Prelude Arch_Port List_H
begin

text \<open>
  The data of the kernel: the enumerations and structs of \<^verbatim>\<open>os_sched.h\<close>, \<^verbatim>\<open>os_sem.h\<close>,
  \<^verbatim>\<open>os_mtx.h\<close>, \<^verbatim>\<open>os_waitqueue.h\<close> and \<^verbatim>\<open>os_timer.h\<close>, the configuration of \<^verbatim>\<open>os_config.h\<close>,
  and the record of all global variables and objects. Objects are named by their address;
  the link fields of one kind of object live in one heap of \<^verbatim>\<open>List_H\<close>, since links of
  different kinds never point to each other. The result type of the kernel functions tells
  apart a normal result, a failed assertion (\<^verbatim>\<open>os_halt\<close>), a NULL dereference, and a loop that
  does not end (\<open>None\<close>).
\<close>

section \<open>Configuration\<close>

definition OS_CONFIG_PRIOCNT :: nat where
  "OS_CONFIG_PRIOCNT = 5"

definition ARCH_ATOMIC_MAX :: u8 where
  "ARCH_ATOMIC_MAX = 255"

definition OS_TICKS_MAX :: u16 where
  "OS_TICKS_MAX = 65535"

text \<open>The static assertions of \<^verbatim>\<open>os_protected.h\<close>; the mask of a task queue is an \<open>u8\<close>.\<close>

definition ARCH_BITFIELD_MAX :: nat where
  "ARCH_BITFIELD_MAX = size (0 :: u8)"

definition os_static_asserts :: bool where
  "os_static_asserts \<longleftrightarrow> size OS_TICKS_MAX \<ge> 16 \<and> unat OS_TICKS_MAX \<ge> 65535 - 1 \<and> OS_CONFIG_PRIOCNT \<le> ARCH_BITFIELD_MAX"

definition OS_TIMEOUT_INFINITE :: u16 where
  "OS_TIMEOUT_INFINITE = OS_TICKS_MAX"

definition OS_TIMEOUT_TRY :: u16 where
  "OS_TIMEOUT_TRY = 0"

definition OS_WAITQUEUE_ALL :: u8 where
  "OS_WAITQUEUE_ALL = 255"

definition OS_STACK_MINSIZE :: u16 where
  "OS_STACK_MINSIZE = 35 * 4"

definition OS_STACK_FILLPATERN :: u8 where
  "OS_STACK_FILLPATERN = 0xAB"

section \<open>Enumerations\<close>

datatype os_taskstate =
    TASKSTATE_RUNNING | TASKSTATE_READY | TASKSTATE_WAIT | TASKSTATE_DESTROYED
  | TASKSTATE_INVALID

datatype os_taskblock =
    OS_TASKBLOCK_INVALID | OS_TASKBLOCK_SEM | OS_TASKBLOCK_MTX | OS_TASKBLOCK_WAITQUEUE

datatype os_retcode = OS_OK | OS_WOULDBLOCK | OS_TIMEOUT | OS_DESTROYED | OS_INVALID

text \<open>The code compares task states by the value of the enumeration.\<close>

fun taskstate_value :: "os_taskstate \<Rightarrow> nat" where
  "taskstate_value TASKSTATE_RUNNING = 0"
| "taskstate_value TASKSTATE_READY = 1"
| "taskstate_value TASKSTATE_WAIT = 2"
| "taskstate_value TASKSTATE_DESTROYED = 3"
| "taskstate_value TASKSTATE_INVALID = 4"

instantiation os_taskstate :: linorder
begin

definition less_eq_os_taskstate :: "os_taskstate \<Rightarrow> os_taskstate \<Rightarrow> bool" where
  "a \<le> b \<longleftrightarrow> taskstate_value a \<le> taskstate_value b"

definition less_os_taskstate :: "os_taskstate \<Rightarrow> os_taskstate \<Rightarrow> bool" where
  "a < b \<longleftrightarrow> taskstate_value a < taskstate_value b"

instance
proof
  fix a b :: os_taskstate
  show "a \<le> b \<Longrightarrow> b \<le> a \<Longrightarrow> a = b"
    by (cases a; cases b) (simp_all add: less_eq_os_taskstate_def)
qed (auto simp: less_eq_os_taskstate_def less_os_taskstate_def)

end

fun retcode_value :: "os_retcode \<Rightarrow> int" where
  "retcode_value OS_OK = 0"
| "retcode_value OS_WOULDBLOCK = 1"
| "retcode_value OS_TIMEOUT = 2"
| "retcode_value OS_DESTROYED = 3"
| "retcode_value OS_INVALID = 4"

definition retcode_of :: "int \<Rightarrow> os_retcode" where
  "retcode_of i =
     (if i = 0 then OS_OK else if i = 1 then OS_WOULDBLOCK else if i = 2 then OS_TIMEOUT
      else if i = 3 then OS_DESTROYED else OS_INVALID)"

section \<open>Addresses\<close>

type_synonym tid = nat
type_synonym mtxid = nat
type_synonym wqid = nat

text \<open>The semaphore and the timer that a blocking call keeps on the stack of its task are
  named by that task.\<close>

datatype semid = UserSem nat | JoinSem tid
datatype timerid = UserTimer nat | BlockTimer tid

text \<open>The task queues: the ready queue and the field \<open>task_queue\<close> of the objects.\<close>

datatype qid = ReadyQ | MtxQ mtxid | SemQ semid | WaitQ wqid

text \<open>The nodes of the three kinds of lists.\<close>

datatype tqnode = TqNull | Bucket qid nat | TaskLink tid
datatype mtxnode = MtxNull | MtxList tid | MtxLink mtxid
datatype timernode = TimerList | ReloadList | TimerLink timerid

section \<open>Structs\<close>

text \<open>
  A suspended task continues where it left the CPU. \<open>kont\<close> stands for the program counter
  and the local variables saved with its context: the entry of a new task, the code an
  interrupt left (with the saved SREG), or the code after the context switch of a kernel
  function (with the saved \<open>cristate\<close> variables of the calls on its stack).
\<close>

datatype kont =
    K_Start u16 u16
  | K_Isr u8
  | K_Schedule u8
  | K_ScheduleJoin u8 u8 tid
  | K_MtxLock u8
  | K_SemDown u8
  | K_JoinDown u8 u8 tid
  | K_WaitqueueWait u8
  | K_Exit

text \<open>The union of \<open>ret_value\<close> and \<open>block_code\<close> is the one field \<open>ret_block\<close>.\<close>

record os_task =
  ctx_sp :: u16
  ctx_kont :: kont
  prio_base :: u8
  prio_current :: u8
  state :: os_taskstate
  task_queue :: "qid option"
  block_type :: os_taskblock
  timer :: "timerid option"
  join_sem :: "semid option"
  ret_block :: int
  stack_end :: u16
  stack_size :: u16

record os_mtx =
  owner :: "tid option"
  recur :: u8

record os_sem =
  sem_value :: u8

text \<open>A callback is one of the two timeout functions of the kernel or a user function; its
  parameter is a task pointer or a user value.\<close>

datatype timer_proc = SemTimerClbck | WaitqueueTimerClbck | UserTimerProc nat
datatype timer_param = TaskParam tid | UserParam nat

record os_timer =
  ticks_rem :: u16
  ticks_reload :: u16
  clbck :: timer_proc
  param :: timer_param
  magic :: u16

text \<open>The global variables and all objects. \<open>isr_saved\<close> holds the SREG values that nested
  interrupts pushed on the stack of the interrupt they interrupted; \<open>task_start_pc\<close> is the
  address the linker gave \<open>arch_task_start\<close>.\<close>

record kstate =
  task_current :: tid
  isr_nesting :: u8
  sched_lock :: u8
  waitqueue_current :: "wqid option"
  ticks_cnt :: u16
  timer_tick_unsynch :: u16
  sreg :: u8
  isr_saved :: "u8 list"
  qmask :: "qid \<Rightarrow> u8"
  tqh :: "tqnode lheap"
  mxh :: "mtxnode lheap"
  tmh :: "timernode lheap"
  task :: "tid \<Rightarrow> os_task"
  mtx :: "mtxid \<Rightarrow> os_mtx"
  sem :: "semid \<Rightarrow> os_sem"
  tmr :: "timerid \<Rightarrow> os_timer"
  mem :: "u16 \<Rightarrow> u8"
  task_start_pc :: u16

text \<open>The variable \<open>task_idle\<close>.\<close>

definition task_idle :: tid where
  "task_idle = 0"

text \<open>A task structure after \<open>memset(0)\<close>; the two list headers are set by \<open>list_init\<close>.\<close>

definition zero_task :: os_task where
  "zero_task = \<lparr>ctx_sp = 0, ctx_kont = K_Start 0 0, prio_base = 0, prio_current = 0,
     state = TASKSTATE_RUNNING, task_queue = None, block_type = OS_TASKBLOCK_INVALID,
     timer = None, join_sem = None, ret_block = 0, stack_end = 0, stack_size = 0\<rparr>"

text \<open>The memory before \<open>os_init\<close>: static data is zero. (The links of timers have no NULL;
  their value before \<open>list_init\<close> is never read.)\<close>

definition boot :: kstate where
  "boot = \<lparr>task_current = 0, isr_nesting = 0, sched_lock = 0, waitqueue_current = None,
     ticks_cnt = 0, timer_tick_unsynch = 0, sreg = 0, isr_saved = [], qmask = (\<lambda>_. 0),
     tqh = \<lparr>lnext = (\<lambda>_. TqNull), lprev = (\<lambda>_. TqNull)\<rparr>,
     mxh = \<lparr>lnext = (\<lambda>_. MtxNull), lprev = (\<lambda>_. MtxNull)\<rparr>,
     tmh = \<lparr>lnext = (\<lambda>n. n), lprev = (\<lambda>n. n)\<rparr>,
     task = (\<lambda>_. zero_task), mtx = (\<lambda>_. \<lparr>owner = None, recur = 0\<rparr>),
     sem = (\<lambda>_. \<lparr>sem_value = 0\<rparr>),
     tmr = (\<lambda>_. \<lparr>ticks_rem = 0, ticks_reload = 0, clbck = UserTimerProc 0,
        param = UserParam 0, magic = 0\<rparr>),
     mem = (\<lambda>_. 0), task_start_pc = 0\<rparr>"

definition upd_task :: "tid \<Rightarrow> (os_task \<Rightarrow> os_task) \<Rightarrow> kstate \<Rightarrow> kstate" where
  "upd_task t f s = s\<lparr>task := (task s)(t := f (task s t))\<rparr>"

definition upd_mtx :: "mtxid \<Rightarrow> (os_mtx \<Rightarrow> os_mtx) \<Rightarrow> kstate \<Rightarrow> kstate" where
  "upd_mtx m f s = s\<lparr>mtx := (mtx s)(m := f (mtx s m))\<rparr>"

definition upd_tmr :: "timerid \<Rightarrow> (os_timer \<Rightarrow> os_timer) \<Rightarrow> kstate \<Rightarrow> kstate" where
  "upd_tmr t f s = s\<lparr>tmr := (tmr s)(t := f (tmr s t))\<rparr>"

definition block_code :: "os_task \<Rightarrow> os_retcode" where
  "block_code t = retcode_of (ret_block t)"

definition set_block_code :: "os_retcode \<Rightarrow> os_task \<Rightarrow> os_task" where
  "set_block_code c t = t\<lparr>ret_block := retcode_value c\<rparr>"

section \<open>Results\<close>

datatype kerror = Halted kstate | Null_deref

type_synonym 'a kres = "(kerror + 'a) option"

abbreviation ok :: "'a \<Rightarrow> 'a kres" where
  "ok x \<equiv> Some (Inr x)"

abbreviation fail :: "kerror \<Rightarrow> 'a kres" where
  "fail e \<equiv> Some (Inl e)"

definition kbind :: "'a kres \<Rightarrow> ('a \<Rightarrow> 'b kres) \<Rightarrow> 'b kres" where
  "kbind m f = Option.bind m (\<lambda>r. case r of Inl e \<Rightarrow> Some (Inl e) | Inr x \<Rightarrow> f x)"

text \<open>\<open>os_halt\<close>: interrupts off, scheduler locked, \<open>arch_halt\<close> spins for ever.\<close>

definition os_halt :: "kstate \<Rightarrow> 'a kres" where
  "os_halt s = fail (Halted (s\<lparr>sreg := arch_dint (sreg s), sched_lock := 1\<rparr>))"

text \<open>\<open>OS_ASSERT\<close> and \<open>OS_SELFCHECK_ASSERT\<close>, both enabled by the configuration.\<close>

definition os_assert :: "bool \<Rightarrow> kstate \<Rightarrow> 'a kres \<Rightarrow> 'a kres" where
  "os_assert cond s k = (if \<not> cond then os_halt s else k)"

text \<open>How a kernel function leaves: it returns to its caller, or it switched the context and
  the CPU is at the continuation of the new current task.\<close>

datatype 'v outcome = Return 'v | Switched

text \<open>What an API call, or the continuation of a task, hands to the task's own code.\<close>

datatype apival = Void | Code os_retcode | Value int | Entered u16 u16 | Resumed

section \<open>Macros of os\_private.h\<close>

definition os_min :: "'a::linorder \<Rightarrow> 'a \<Rightarrow> 'a" where
  "os_min x y = (if x < y then x else y)"

definition os_max :: "'a::linorder \<Rightarrow> 'a \<Rightarrow> 'a" where
  "os_max x y = (if x > y then x else y)"

definition os_power_of_2 :: "'w::len word \<Rightarrow> bool" where
  "os_power_of_2 x \<longleftrightarrow> (x - 1) AND x = 0"

definition os_critical_enter :: "kstate \<Rightarrow> u8 \<times> kstate" where
  "os_critical_enter s =
     (let (cristate, r) = arch_critical_enter (sreg s) in (cristate, s\<lparr>sreg := r\<rparr>))"

definition os_critical_exit :: "u8 \<Rightarrow> kstate \<Rightarrow> kstate" where
  "os_critical_exit cristate s = s\<lparr>sreg := arch_critical_exit cristate (sreg s)\<rparr>"

section \<open>Laws of the result type\<close>

lemma static_asserts_hold: "os_static_asserts"
  by (simp add: os_static_asserts_def ARCH_BITFIELD_MAX_def OS_TICKS_MAX_def OS_CONFIG_PRIOCNT_def word_size)

lemma kbind_simps [simp]:
  "kbind (ok x) f = f x"
  "kbind (fail e) f = fail e"
  "kbind None f = None"
  by (simp_all add: kbind_def)

lemma kbind_ok: "kbind m f = ok y \<longleftrightarrow> (\<exists>x. m = ok x \<and> f x = ok y)"
  by (cases m) (auto simp: kbind_def split: sum.splits)

lemma kbind_mono [partial_function_mono]:
  assumes "mono_option m" and "\<And>y. mono_option (\<lambda>f. k y f)"
  shows "mono_option (\<lambda>f. kbind (m f) (\<lambda>y. k y f))"
  unfolding kbind_def
proof (rule bind_mono [OF assms(1)])
  fix r
  show "mono_option (\<lambda>f. case r of Inl e \<Rightarrow> Some (Inl e) | Inr x \<Rightarrow> k x f)"
    using assms(2) by (cases r) (auto intro: option.const_mono)
qed

lemma os_assert_simps [simp]:
  "c \<Longrightarrow> os_assert c s k = k"
  "\<not> c \<Longrightarrow> os_assert c s k = os_halt s"
  by (simp_all add: os_assert_def)

lemma os_assert_ok: "os_assert c s k = ok r \<longleftrightarrow> c \<and> k = ok r"
  by (simp add: os_assert_def os_halt_def)

lemma os_critical_simps [simp]:
  "os_critical_enter s = (sreg s, s\<lparr>sreg := arch_dint (sreg s)\<rparr>)"
  "os_critical_exit c s = s\<lparr>sreg := c\<rparr>"
  by (simp_all add: os_critical_enter_def os_critical_exit_def arch_critical_enter_def
      arch_critical_exit_def)

lemma retcode_of_value [simp]: "retcode_of (retcode_value c) = c"
  by (cases c) (simp_all add: retcode_of_def)

lemma block_code_set [simp]: "block_code (set_block_code c t) = c"
  by (simp add: block_code_def set_block_code_def)

lemma set_block_code_fields [simp]:
  "prio_base (set_block_code c t) = prio_base t"
  "prio_current (set_block_code c t) = prio_current t"
  "state (set_block_code c t) = state t"
  "task_queue (set_block_code c t) = task_queue t"
  "block_type (set_block_code c t) = block_type t"
  "timer (set_block_code c t) = timer t"
  "join_sem (set_block_code c t) = join_sem t"
  "ctx_kont (set_block_code c t) = ctx_kont t"
  by (simp_all add: set_block_code_def)

lemma os_max_eq [simp]: "os_max x y = max x y"
  by (auto simp: os_max_def max_def)

lemma task_upd_task: "task (upd_task t f s) = (task s)(t := f (task s t))"
  by (simp add: upd_task_def)

lemma upd_task_frame [simp, frame_simps]:
  "task_current (upd_task t f s) = task_current s"
  "isr_nesting (upd_task t f s) = isr_nesting s"
  "sched_lock (upd_task t f s) = sched_lock s"
  "waitqueue_current (upd_task t f s) = waitqueue_current s"
  "sreg (upd_task t f s) = sreg s"
  "qmask (upd_task t f s) = qmask s"
  "tqh (upd_task t f s) = tqh s"
  "mxh (upd_task t f s) = mxh s"
  "tmh (upd_task t f s) = tmh s"
  "mtx (upd_task t f s) = mtx s"
  "sem (upd_task t f s) = sem s"
  "tmr (upd_task t f s) = tmr s"
  "timer_tick_unsynch (upd_task t f s) = timer_tick_unsynch s"
  "ticks_cnt (upd_task t f s) = ticks_cnt s"
  "isr_saved (upd_task t f s) = isr_saved s"
  "mem (upd_task t f s) = mem s"
  "task_start_pc (upd_task t f s) = task_start_pc s"
  by (simp_all add: upd_task_def)

end
