(* ===== verification/Taskqueue.thy ===== *)
theory Taskqueue
  imports Kernel_State
begin

text \<open>
  The task queues of \<^verbatim>\<open>os_sched.c\<close>: one list of tasks per priority and a mask of the
  priorities in use. \<open>tq_rel L Q s\<close> relates the links and masks of the state \<open>s\<close> to the
  contents \<open>Q q p\<close> of every bucket of the initialised queues \<open>L\<close>; the lemmas show that
  each operation acts on these contents as the corresponding operation on lists, and that a
  dequeue takes the oldest task of the highest priority.
\<close>

section \<open>Model\<close>

definition os_taskqueue_enqueue :: "qid \<Rightarrow> tid \<Rightarrow> kstate \<Rightarrow> kstate" where
  "os_taskqueue_enqueue q t s =
     (let s = s\<lparr>tqh := list_append (Bucket q (unat (prio_current (task s t)))) (TaskLink t) (tqh s)\<rparr>;
          s = upd_task t (\<lambda>k. k\<lparr>task_queue := Some q\<rparr>) s
      in s\<lparr>qmask := (qmask s)(q := arch_bitmask_set (qmask s q) (prio_current (task s t)))\<rparr>)"

definition os_taskqueue_unlink :: "tid \<Rightarrow> kstate \<Rightarrow> kstate kres" where
  "os_taskqueue_unlink t s =
     (let s = s\<lparr>tqh := list_unlink (TaskLink t) (tqh s)\<rparr>
      in case task_queue (task s t) of
           None \<Rightarrow> fail Null_deref
         | Some q \<Rightarrow>
             let prio = prio_current (task s t);
                 s = (if list_is_empty (Bucket q (unat prio)) (tqh s)
                      then s\<lparr>qmask := (qmask s)(q := arch_bitmask_clear (qmask s q) prio)\<rparr>
                      else s)
             in ok (upd_task t (\<lambda>k. k\<lparr>task_queue := None\<rparr>) s))"

definition os_taskqueue_reprio :: "tid \<Rightarrow> u8 \<Rightarrow> kstate \<Rightarrow> kstate kres" where
  "os_taskqueue_reprio t new_prio s =
     (if prio_current (task s t) \<noteq> new_prio
      then (let tq = task_queue (task s t)
            in kbind (case tq of None \<Rightarrow> ok s | Some _ \<Rightarrow> os_taskqueue_unlink t s)
                 (\<lambda>s. let s = upd_task t (\<lambda>k. k\<lparr>prio_current := new_prio\<rparr>) s
                      in case tq of None \<Rightarrow> ok s | Some q \<Rightarrow> ok (os_taskqueue_enqueue q t s)))
      else ok s)"

text \<open>\<open>os_container_of\<close> of the NULL that \<open>list_detachfirst\<close> returns for an empty bucket, or
  of a node that is no task link, is no task.\<close>

definition container_of_task :: "tqnode option \<Rightarrow> tid option" where
  "container_of_task n = (case n of Some (TaskLink t) \<Rightarrow> Some t | _ \<Rightarrow> None)"

definition os_taskqueue_intdequeue :: "qid \<Rightarrow> u8 \<Rightarrow> kstate \<Rightarrow> (tid \<times> kstate) kres" where
  "os_taskqueue_intdequeue q maxprio s =
     (let (n, h) = list_detachfirst (Bucket q (unat maxprio)) (tqh s);
          s = s\<lparr>tqh := h\<rparr>
      in case container_of_task n of
           None \<Rightarrow> fail Null_deref
         | Some t \<Rightarrow>
             let s = (if list_is_empty (Bucket q (unat maxprio)) (tqh s)
                      then s\<lparr>qmask := (qmask s)(q := arch_bitmask_clear (qmask s q) maxprio)\<rparr>
                      else s)
             in ok (t, upd_task t (\<lambda>k. k\<lparr>task_queue := None\<rparr>) s))"

definition os_taskqueue_dequeue :: "qid \<Rightarrow> kstate \<Rightarrow> (tid option \<times> kstate) kres" where
  "os_taskqueue_dequeue q s =
     (let maxprio = arch_bitmask_fls (qmask s q)
      in if 0 = maxprio then ok (None, s)
         else kbind (os_taskqueue_intdequeue q (maxprio - 1) s) (\<lambda>(t, s). ok (Some t, s)))"

definition os_taskqueue_dequeue_prio :: "qid \<Rightarrow> u8 \<Rightarrow> kstate \<Rightarrow> (tid option \<times> kstate) kres" where
  "os_taskqueue_dequeue_prio q prio s =
     (let maxprio = arch_bitmask_fls (qmask s q)
      in if 0 = maxprio then ok (None, s)
         else let maxprio = maxprio - 1
              in if maxprio < prio then ok (None, s)
                 else kbind (os_taskqueue_intdequeue q maxprio s) (\<lambda>(t, s). ok (Some t, s)))"

definition os_taskqueue_peek :: "qid \<Rightarrow> kstate \<Rightarrow> tid option kres" where
  "os_taskqueue_peek q s =
     (let maxprio = arch_bitmask_fls (qmask s q)
      in if 0 = maxprio then ok None
         else let maxprio = maxprio - 1
              in case container_of_task (list_peekfirst (Bucket q (unat maxprio)) (tqh s)) of
                   None \<Rightarrow> fail Null_deref
                 | Some t \<Rightarrow> ok (Some t))"

definition os_taskqueue_init :: "qid \<Rightarrow> kstate \<Rightarrow> kstate" where
  "os_taskqueue_init q s =
     (let s = s\<lparr>tqh := fold (\<lambda>i. list_init (Bucket q i)) [0..<OS_CONFIG_PRIOCNT] (tqh s)\<rparr>
      in s\<lparr>qmask := (qmask s)(q := 0)\<rparr>)"

text \<open>\<open>memset(0)\<close> over a struct that holds the queue: the links become NULL.\<close>

definition memset_taskqueue :: "qid \<Rightarrow> kstate \<Rightarrow> kstate" where
  "memset_taskqueue q s =
     s\<lparr>tqh := fold (\<lambda>i h. set_prev (Bucket q i) TqNull (set_next (Bucket q i) TqNull h))
                [0..<OS_CONFIG_PRIOCNT] (tqh s),
       qmask := (qmask s)(q := 0)\<rparr>"

definition os_task_makeready :: "tid \<Rightarrow> kstate \<Rightarrow> kstate" where
  "os_task_makeready t s =
     (let s = upd_task t (\<lambda>k. k\<lparr>state := TASKSTATE_READY\<rparr>) s
      in os_taskqueue_enqueue ReadyQ t s)"

definition os_task_makewait :: "qid \<Rightarrow> os_taskblock \<Rightarrow> kstate \<Rightarrow> kstate" where
  "os_task_makewait q bt s =
     (let s = upd_task (task_current s) (\<lambda>k. k\<lparr>state := TASKSTATE_WAIT\<rparr>) s;
          s = upd_task (task_current s) (\<lambda>k. k\<lparr>block_type := bt\<rparr>) s
      in os_taskqueue_enqueue q (task_current s) s)"

section \<open>Abstraction\<close>

type_synonym buckets = "nat \<Rightarrow> tid list"
type_synonym queues = "qid \<Rightarrow> buckets"

definition bucket_upd :: "qid \<Rightarrow> nat \<Rightarrow> (tid list \<Rightarrow> tid list) \<Rightarrow> queues \<Rightarrow> queues" where
  "bucket_upd q p f Q = Q(q := (Q q)(p := f (Q q p)))"

definition tq_rel :: "qid set \<Rightarrow> queues \<Rightarrow> kstate \<Rightarrow> bool" where
  "tq_rel L Q s \<longleftrightarrow>
     (\<forall>q \<in> L. \<forall>p < OS_CONFIG_PRIOCNT. dlist (tqh s) (Bucket q p) (map TaskLink (Q q p))) \<and>
     (\<forall>q \<in> L. \<forall>p. bit (qmask s q) p \<longleftrightarrow> p < OS_CONFIG_PRIOCNT \<and> Q q p \<noteq> []) \<and>
     (\<forall>q p t. t \<in> set (Q q p) \<longrightarrow>
        q \<in> L \<and> p < OS_CONFIG_PRIOCNT \<and> task_queue (task s t) = Some q \<and>
        unat (prio_current (task s t)) = p) \<and>
     (\<forall>t q. task_queue (task s t) = Some q \<longrightarrow> t \<in> set (Q q (unat (prio_current (task s t)))))"

text \<open>The highest priority in use.\<close>

definition top_bucket :: "buckets \<Rightarrow> nat option" where
  "top_bucket B = find (\<lambda>p. B p \<noteq> []) (rev [0..<OS_CONFIG_PRIOCNT])"

text \<open>Only links, masks and tasks differ.\<close>

definition tq_frame :: "kstate \<Rightarrow> kstate \<Rightarrow> bool" where
  "tq_frame s s' \<longleftrightarrow> s' = s\<lparr>tqh := tqh s', qmask := qmask s', task := task s'\<rparr>"

section \<open>Lemmas on the relation\<close>

lemma tq_relD:
  assumes "tq_rel L Q s"
  shows "\<lbrakk>q \<in> L; p < OS_CONFIG_PRIOCNT\<rbrakk> \<Longrightarrow> dlist (tqh s) (Bucket q p) (map TaskLink (Q q p))"
    and "q \<in> L \<Longrightarrow> bit (qmask s q) p \<longleftrightarrow> p < OS_CONFIG_PRIOCNT \<and> Q q p \<noteq> []"
    and "t \<in> set (Q q p) \<Longrightarrow> q \<in> L \<and> p < OS_CONFIG_PRIOCNT \<and> task_queue (task s t) = Some q \<and>
        unat (prio_current (task s t)) = p"
    and "task_queue (task s t) = Some q \<Longrightarrow> t \<in> set (Q q (unat (prio_current (task s t))))"
  using assms unfolding tq_rel_def by blast+

lemma tq_relI:
  assumes "\<And>q p. \<lbrakk>q \<in> L; p < OS_CONFIG_PRIOCNT\<rbrakk> \<Longrightarrow> dlist (tqh s) (Bucket q p) (map TaskLink (Q q p))"
    and "\<And>q p. q \<in> L \<Longrightarrow> bit (qmask s q) p \<longleftrightarrow> p < OS_CONFIG_PRIOCNT \<and> Q q p \<noteq> []"
    and "\<And>t q p. t \<in> set (Q q p) \<Longrightarrow> q \<in> L \<and> p < OS_CONFIG_PRIOCNT \<and>
        task_queue (task s t) = Some q \<and> unat (prio_current (task s t)) = p"
    and "\<And>t q. task_queue (task s t) = Some q \<Longrightarrow> t \<in> set (Q q (unat (prio_current (task s t))))"
  shows "tq_rel L Q s"
  using assms unfolding tq_rel_def by blast

lemma tq_frame_iff:
  "tq_frame s s' \<longleftrightarrow>
     task_current s' = task_current s \<and> isr_nesting s' = isr_nesting s \<and>
     sched_lock s' = sched_lock s \<and> waitqueue_current s' = waitqueue_current s \<and>
     ticks_cnt s' = ticks_cnt s \<and> timer_tick_unsynch s' = timer_tick_unsynch s \<and>
     sreg s' = sreg s \<and> isr_saved s' = isr_saved s \<and> mxh s' = mxh s \<and> tmh s' = tmh s \<and>
     mtx s' = mtx s \<and> sem s' = sem s \<and> tmr s' = tmr s \<and> mem s' = mem s \<and>
     task_start_pc s' = task_start_pc s"
  by (cases s; cases s') (auto simp: tq_frame_def)

lemma tq_frame_trans [trans]: "tq_frame s s' \<Longrightarrow> tq_frame s' s'' \<Longrightarrow> tq_frame s s''"
  by (simp add: tq_frame_iff)

lemma tq_frame_upd_task: "tq_frame s (upd_task t f s)"
  by (simp add: tq_frame_iff)

lemma tq_rel_distinct: "tq_rel L Q s \<Longrightarrow> q \<in> L \<Longrightarrow> p < OS_CONFIG_PRIOCNT \<Longrightarrow> distinct (Q q p)"
  using tq_relD(1) [of L Q s q p] dlist_distinct by (fastforce simp: distinct_map)

text \<open>Changes to tasks that keep queue and priority keep the relation.\<close>

lemma tq_rel_cong:
  assumes "tqh s' = tqh s" and "qmask s' = qmask s"
    and "\<And>t. task_queue (task s' t) = task_queue (task s t)"
    and "\<And>t. prio_current (task s' t) = prio_current (task s t)"
  shows "tq_rel L Q s' = tq_rel L Q s"
  by (simp add: tq_rel_def assms)

lemma tq_rel_upd_task:
  assumes "task_queue (f (task s t)) = task_queue (task s t)"
    and "prio_current (f (task s t)) = prio_current (task s t)"
  shows "tq_rel L Q (upd_task t f s) = tq_rel L Q s"
  by (rule tq_rel_cong) (use assms in \<open>auto simp: upd_task_def\<close>)

text \<open>A task in no queue may change its priority.\<close>

lemma tq_rel_upd_free:
  assumes rel: "tq_rel L Q s" and free: "task_queue (task s t) = None" "task_queue (f (task s t)) = None"
  shows "tq_rel L Q (upd_task t f s)"
proof (rule tq_relI)
  fix t' q p
  show "q \<in> L \<and> p < OS_CONFIG_PRIOCNT \<and> task_queue (task (upd_task t f s) t') = Some q \<and>
      unat (prio_current (task (upd_task t f s) t')) = p" if "t' \<in> set (Q q p)"
    using tq_relD(3) [OF rel that] free by (auto simp: upd_task_def)
  show "t' \<in> set (Q q (unat (prio_current (task (upd_task t f s) t'))))"
    if "task_queue (task (upd_task t f s) t') = Some q"
    using that tq_relD(4) [OF rel, of t' q] free by (auto simp: upd_task_def split: if_splits)
qed (use tq_relD(1,2) [OF rel] in auto)

text \<open>A list operation on one bucket leaves the other buckets alone.\<close>

lemma bucket_unique:
  assumes "tq_rel L Q s" and "t \<in> set (Q q p)" and "t \<in> set (Q q' p')"
  shows "q' = q \<and> p' = p"
  using tq_relD(3) [OF assms(1,2)] tq_relD(3) [OF assms(1,3)] by simp

lemma other_bucket_nodes:
  assumes "tq_rel L Q s" and "n \<in> set (Bucket q' p' # map TaskLink (Q q' p'))" and "(q', p') \<noteq> (q, p)"
  shows "n \<notin> set (Bucket q p # map TaskLink (Q q p))"
  using assms(2,3) bucket_unique [OF assms(1)] by auto

section \<open>Enqueue\<close>

lemma enqueue_fields:
  "task (os_taskqueue_enqueue q t s) = (task s)(t := (task s t)\<lparr>task_queue := Some q\<rparr>)"
  "tq_frame s (os_taskqueue_enqueue q t s)"
  by (simp_all add: os_taskqueue_enqueue_def upd_task_def Let_def tq_frame_def)

lemma enqueue_rel:
  assumes rel: "tq_rel L Q s" and q: "q \<in> L" and free: "task_queue (task s t) = None"
    and p: "p = unat (prio_current (task s t))" "p < OS_CONFIG_PRIOCNT"
  shows "tq_rel L (bucket_upd q p (\<lambda>ts. ts @ [t]) Q) (os_taskqueue_enqueue q t s)"
proof -
  let ?Q = "bucket_upd q p (\<lambda>ts. ts @ [t]) Q" and ?s = "os_taskqueue_enqueue q t s"
  have notin: "t \<notin> set (Q q' p')" for q' p'
    using tq_relD(3) [OF rel, of t q' p'] free by auto
  have h: "tqh ?s = list_append (Bucket q p) (TaskLink t) (tqh s)"
    by (simp add: os_taskqueue_enqueue_def upd_task_def Let_def p)
  have old: "dlist (tqh s) (Bucket q p) (map TaskLink (Q q p))"
    using tq_relD(1) [OF rel q p(2)] .
  have lists: "dlist (tqh ?s) (Bucket q' p') (map TaskLink (?Q q' p'))"
    if "q' \<in> L" "p' < OS_CONFIG_PRIOCNT" for q' p'
  proof (cases "(q', p') = (q, p)")
    case True
    then show ?thesis
      using dlist_append [OF old] notin unfolding h by (auto simp: bucket_upd_def)
  next
    case False
    have "dlist (tqh ?s) (Bucket q' p') (map TaskLink (Q q' p')) =
      dlist (tqh s) (Bucket q' p') (map TaskLink (Q q' p'))"
      unfolding h
    proof (intro dlist_cong ballI append_frame [OF old])
      fix n assume n: "n \<in> set (Bucket q' p' # map TaskLink (Q q' p'))"
      have "n \<noteq> TaskLink t" using n notin [of q' p'] by auto
      then show "n \<notin> set (TaskLink t # Bucket q p # map TaskLink (Q q p))"
        using other_bucket_nodes [OF rel n False] by simp
    qed
    then show ?thesis
      using tq_relD(1) [OF rel that] False by (auto simp: bucket_upd_def)
  qed
  have mask: "bit (qmask ?s q') p' \<longleftrightarrow> p' < OS_CONFIG_PRIOCNT \<and> ?Q q' p' \<noteq> []"
    if "q' \<in> L" for q' p'
    using tq_relD(2) [OF rel that, of p'] p
    by (auto simp: os_taskqueue_enqueue_def upd_task_def Let_def bucket_upd_def
        bit_arch_bitmask_set OS_CONFIG_PRIOCNT_def)
  show ?thesis
  proof (rule tq_relI)
    show "q' \<in> L \<and> p' < OS_CONFIG_PRIOCNT \<and> task_queue (task ?s t') = Some q' \<and>
        unat (prio_current (task ?s t')) = p'" if "t' \<in> set (?Q q' p')" for t' q' p'
      using that tq_relD(3) [OF rel, of t' q' p'] notin [of q' p'] q p
      by (auto simp: enqueue_fields bucket_upd_def split: if_splits)
    show "t' \<in> set (?Q q' (unat (prio_current (task ?s t'))))"
      if "task_queue (task ?s t') = Some q'" for t' q'
      using that tq_relD(4) [OF rel, of t' q'] p
      by (auto simp: enqueue_fields bucket_upd_def split: if_splits)
  qed (fact lists mask)+
qed

section \<open>Unlink\<close>

lemma unlink_result:
  assumes rel: "tq_rel L Q s" and tq: "task_queue (task s t) = Some q"
    and p: "p = unat (prio_current (task s t))"
  shows "\<exists>s'. os_taskqueue_unlink t s = ok s' \<and> tq_frame s s' \<and>
    task s' = (task s)(t := (task s t)\<lparr>task_queue := None\<rparr>) \<and>
    tq_rel L (bucket_upd q p (remove1 t) Q) s'"
proof -
  let ?h = "list_unlink (TaskLink t) (tqh s)" and ?Q = "bucket_upd q p (remove1 t) Q"
  let ?b = "Bucket q p"
  define s' where "s' = upd_task t (\<lambda>k. k\<lparr>task_queue := None\<rparr>)
     ((s\<lparr>tqh := ?h\<rparr>)\<lparr>qmask := (qmask s)(q := if list_is_empty ?b ?h
        then arch_bitmask_clear (qmask s q) (prio_current (task s t)) else qmask s q)\<rparr>)"
  have run: "os_taskqueue_unlink t s = ok s'"
    using tq p by (simp add: os_taskqueue_unlink_def s'_def Let_def)
  have t: "t \<in> set (Q q p)" and qp: "q \<in> L" "p < OS_CONFIG_PRIOCNT"
    using tq_relD(4) [OF rel tq] p tq_relD(3) [OF rel, of t q p] by auto
  have fields: "task s' = (task s)(t := (task s t)\<lparr>task_queue := None\<rparr>)" "tq_frame s s'" "tqh s' = ?h"
    by (simp_all add: s'_def upd_task_def tq_frame_def)
  have old: "dlist (tqh s) ?b (map TaskLink (Q q p))"
    using tq_relD(1) [OF rel qp] .
  have dist: "distinct (Q q p)" using tq_rel_distinct [OF rel qp] .
  have new: "dlist ?h ?b (map TaskLink (remove1 t (Q q p)))"
    using dlist_unlink [OF old, of "TaskLink t"] t by (simp add: map_remove1_inj inj_def)
  have lists: "dlist ?h (Bucket q' p') (map TaskLink (?Q q' p'))"
    if "q' \<in> L" "p' < OS_CONFIG_PRIOCNT" for q' p'
  proof (cases "(q', p') = (q, p)")
    case True
    then show ?thesis using new by (simp add: bucket_upd_def)
  next
    case False
    have "dlist ?h (Bucket q' p') (map TaskLink (Q q' p')) =
      dlist (tqh s) (Bucket q' p') (map TaskLink (Q q' p'))"
      using other_bucket_nodes [OF rel _ False] t
      by (intro dlist_cong ballI unlink_frame [OF old]) auto
    then show ?thesis
      using tq_relD(1) [OF rel that] False by (auto simp: bucket_upd_def)
  qed
  have mask: "bit (qmask s' q') p' \<longleftrightarrow> p' < OS_CONFIG_PRIOCNT \<and> ?Q q' p' \<noteq> []"
    if "q' \<in> L" for q' p'
    using tq_relD(2) [OF rel that, of p'] tq_relD(2) [OF rel qp(1), of p] p t dlist_is_empty [OF new]
    by (auto simp: s'_def bucket_upd_def bit_arch_bitmask_clear split: if_splits)
  have "tq_rel L ?Q s'"
  proof (rule tq_relI)
    show "q' \<in> L \<and> p' < OS_CONFIG_PRIOCNT \<and> task_queue (task s' t') = Some q' \<and>
        unat (prio_current (task s' t')) = p'" if "t' \<in> set (?Q q' p')" for t' q' p'
    proof -
      have "t' \<in> set (Q q' p')" "t' \<noteq> t"
        using that dist bucket_unique [OF rel t, of q' p'] notin_set_remove1 [of t' "Q q p" t]
        by (auto simp: bucket_upd_def split: if_splits)
      then show ?thesis using tq_relD(3) [OF rel, of t' q' p'] by (simp add: fields)
    qed
    show "t' \<in> set (?Q q' (unat (prio_current (task s' t'))))"
      if "task_queue (task s' t') = Some q'" for t' q'
      using that tq_relD(4) [OF rel, of t' q'] by (auto simp: fields bucket_upd_def split: if_splits)
  qed (use lists mask fields in auto)
  with run fields show ?thesis by blast
qed

section \<open>The highest priority\<close>

lemma find_rev_upt:
  "find (\<lambda>p. P p \<noteq> []) (rev [0..<n]) = Some p \<longleftrightarrow> p < n \<and> P p \<noteq> [] \<and> (\<forall>p' < n. p < p' \<longrightarrow> P p' = [])"
  by (induction n) (auto simp: less_Suc_eq)

lemma top_bucket_None: "top_bucket B = None \<longleftrightarrow> (\<forall>p < OS_CONFIG_PRIOCNT. B p = [])"
  by (auto simp: top_bucket_def find_None_iff)

lemma top_bucket_Some:
  "top_bucket B = Some p \<longleftrightarrow>
     p < OS_CONFIG_PRIOCNT \<and> B p \<noteq> [] \<and> (\<forall>p' < OS_CONFIG_PRIOCNT. p < p' \<longrightarrow> B p' = [])"
  unfolding top_bucket_def by (rule find_rev_upt)

lemma fls_top_bucket:
  assumes "tq_rel L Q s" and "q \<in> L"
  shows "unat (arch_bitmask_fls (qmask s q)) =
    (case top_bucket (Q q) of None \<Rightarrow> 0 | Some p \<Rightarrow> Suc p)"
proof -
  let ?r = "unat (arch_bitmask_fls (qmask s q))"
  have spec: "fls_spec (qmask s q) ?r"
    by (rule fls_check_spec [OF avr_fls_check])
  note bits = tq_relD(2) [OF assms]
  show ?thesis
  proof (cases "top_bucket (Q q)")
    case None
    then have "\<not> bit (qmask s q) i" for i using bits by (auto simp: top_bucket_None)
    then show ?thesis using spec None by (auto simp: fls_spec_def)
  next
    case (Some p)
    then have "bit (qmask s q) p" "\<forall>i. bit (qmask s q) i \<longrightarrow> i \<le> p"
      using bits by (auto simp: top_bucket_Some not_less [symmetric])
    moreover have "p < 8" using Some by (simp add: top_bucket_Some OS_CONFIG_PRIOCNT_def)
    ultimately have "p < ?r" "?r \<noteq> 0" "?r - 1 \<le> p"
      using spec by (force simp: fls_spec_def not_less [symmetric])+
    then show ?thesis using Some by simp
  qed
qed

lemma fls_empty:
  assumes "tq_rel L Q s" and "q \<in> L" and "top_bucket (Q q) = None"
  shows "arch_bitmask_fls (qmask s q) = 0"
  using fls_top_bucket [OF assms(1,2)] assms(3) by (simp add: u8_eq_iff_unat)

lemma fls_nonempty:
  assumes "tq_rel L Q s" and "q \<in> L" and "top_bucket (Q q) = Some p"
  shows "arch_bitmask_fls (qmask s q) \<noteq> 0" and "unat (arch_bitmask_fls (qmask s q) - 1) = p"
    and "p < OS_CONFIG_PRIOCNT" and "Q q p = hd (Q q p) # tl (Q q p)"
proof -
  have fls: "unat (arch_bitmask_fls (qmask s q)) = Suc p"
    using fls_top_bucket [OF assms(1,2)] assms(3) by simp
  then show nz: "arch_bitmask_fls (qmask s q) \<noteq> 0" by auto
  then show "unat (arch_bitmask_fls (qmask s q) - 1) = p"
    using fls by (subst unat_minus_one) auto
qed (use assms(3) in \<open>auto simp: top_bucket_Some\<close>)

section \<open>Dequeue and peek\<close>

text \<open>Taking the first task of a bucket is unlinking it.\<close>

lemma intdequeue_unlink:
  assumes rel: "tq_rel L Q s" and q: "q \<in> L" and p: "unat prio = p" "p < OS_CONFIG_PRIOCNT"
    and ts: "Q q p = t # ts"
  shows "os_taskqueue_intdequeue q prio s = kbind (os_taskqueue_unlink t s) (\<lambda>s. ok (t, s))"
proof -
  have d: "dlist (tqh s) (Bucket q p) (TaskLink t # map TaskLink ts)"
    using tq_relD(1) [OF rel q p(2)] ts by simp
  have "task_queue (task s t) = Some q" "prio_current (task s t) = prio"
    using tq_relD(3) [OF rel, of t q p] ts p(1) by (auto simp: u8_eq_iff_unat)
  then show ?thesis
    using detachfirst_Cons [OF d] p(1)
    by (simp add: os_taskqueue_intdequeue_def os_taskqueue_unlink_def container_of_task_def Let_def)
qed

text \<open>The state after the first task of bucket \<open>p\<close> is taken out.\<close>

definition tq_taken :: "qid set \<Rightarrow> queues \<Rightarrow> qid \<Rightarrow> nat \<Rightarrow> tid \<Rightarrow> kstate \<Rightarrow> kstate \<Rightarrow> bool" where
  "tq_taken L Q q p t s s' \<longleftrightarrow>
     tq_frame s s' \<and> task s' = (task s)(t := (task s t)\<lparr>task_queue := None\<rparr>) \<and>
     tq_rel L (bucket_upd q p tl Q) s'"

lemma intdequeue_result:
  assumes rel: "tq_rel L Q s" and q: "q \<in> L" and p: "unat prio = p" "p < OS_CONFIG_PRIOCNT"
    and ts: "Q q p = t # ts"
  shows "\<exists>s'. os_taskqueue_intdequeue q prio s = ok (t, s') \<and> tq_taken L Q q p t s s'"
proof -
  have t: "task_queue (task s t) = Some q" "p = unat (prio_current (task s t))"
    using tq_relD(3) [OF rel, of t q p] ts by auto
  have "bucket_upd q p (remove1 t) Q = bucket_upd q p tl Q"
    using ts by (simp add: bucket_upd_def)
  then show ?thesis
    using unlink_result [OF rel t] intdequeue_unlink [OF rel q p ts]
    by (auto simp: tq_taken_def)
qed

lemma dequeue_result:
  assumes rel: "tq_rel L Q s" and q: "q \<in> L"
  shows "case top_bucket (Q q) of
      None \<Rightarrow> os_taskqueue_dequeue q s = ok (None, s)
    | Some p \<Rightarrow> \<exists>s'. os_taskqueue_dequeue q s = ok (Some (hd (Q q p)), s') \<and>
        tq_taken L Q q p (hd (Q q p)) s s'"
proof (cases "top_bucket (Q q)")
  case None
  then show ?thesis
    using fls_empty [OF assms] by (simp add: os_taskqueue_dequeue_def)
next
  case (Some p)
  note fls = fls_nonempty [OF assms Some]
  obtain s' where "os_taskqueue_intdequeue q (arch_bitmask_fls (qmask s q) - 1) s = ok (hd (Q q p), s')"
    and "tq_taken L Q q p (hd (Q q p)) s s'"
    using intdequeue_result [OF rel q fls(2,3,4)] by blast
  then show ?thesis
    using Some fls(1) by (simp add: os_taskqueue_dequeue_def)
qed

lemma dequeue_prio_result:
  assumes rel: "tq_rel L Q s" and q: "q \<in> L"
  shows "case top_bucket (Q q) of
      None \<Rightarrow> os_taskqueue_dequeue_prio q prio s = ok (None, s)
    | Some p \<Rightarrow>
        if p < unat prio then os_taskqueue_dequeue_prio q prio s = ok (None, s)
        else \<exists>s'. os_taskqueue_dequeue_prio q prio s = ok (Some (hd (Q q p)), s') \<and>
          tq_taken L Q q p (hd (Q q p)) s s'"
proof (cases "top_bucket (Q q)")
  case None
  then show ?thesis
    using fls_empty [OF assms] by (simp add: os_taskqueue_dequeue_prio_def)
next
  case (Some p)
  note fls = fls_nonempty [OF assms Some]
  obtain s' where "os_taskqueue_intdequeue q (arch_bitmask_fls (qmask s q) - 1) s = ok (hd (Q q p), s')"
    and "tq_taken L Q q p (hd (Q q p)) s s'"
    using intdequeue_result [OF rel q fls(2,3,4)] by blast
  then show ?thesis
    using Some fls(1,2) by (simp add: os_taskqueue_dequeue_prio_def word_less_nat_alt Let_def)
qed

lemma peek_result:
  assumes rel: "tq_rel L Q s" and q: "q \<in> L"
  shows "os_taskqueue_peek q s = ok (map_option (\<lambda>p. hd (Q q p)) (top_bucket (Q q)))"
proof (cases "top_bucket (Q q)")
  case None
  then show ?thesis
    using fls_empty [OF assms] by (simp add: os_taskqueue_peek_def)
next
  case (Some p)
  note fls = fls_nonempty [OF assms Some]
  have "list_peekfirst (Bucket q p) (tqh s) = Some (TaskLink (hd (Q q p)))"
    using dlist_peekfirst [OF tq_relD(1) [OF rel q fls(3)]] fls(4) by (cases "Q q p") auto
  then show ?thesis
    using Some fls(1,2) by (simp add: os_taskqueue_peek_def container_of_task_def Let_def)
qed

section \<open>Change of priority and initialisation\<close>

lemma reprio_result:
  assumes rel: "tq_rel L Q s" and np: "unat np < OS_CONFIG_PRIOCNT"
  shows "\<exists>s'. os_taskqueue_reprio t np s = ok s' \<and> tq_frame s s' \<and>
    task s' = (task s)(t := (task s t)\<lparr>prio_current := np\<rparr>) \<and>
    tq_rel L (if prio_current (task s t) = np then Q
      else case task_queue (task s t) of
        None \<Rightarrow> Q
      | Some q \<Rightarrow> bucket_upd q (unat np) (\<lambda>ts. ts @ [t])
          (bucket_upd q (unat (prio_current (task s t))) (remove1 t) Q)) s'"
proof (cases "prio_current (task s t) = np")
  case True
  then have eq: "(task s t)\<lparr>prio_current := np\<rparr> = task s t" by auto
  show ?thesis using True rel by (simp add: os_taskqueue_reprio_def tq_frame_def eq)
next
  case False
  show ?thesis
  proof (cases "task_queue (task s t)")
    case None
    let ?s = "upd_task t (\<lambda>k. k\<lparr>prio_current := np\<rparr>) s"
    have "tq_rel L Q ?s" using rel None by (intro tq_rel_upd_free) auto
    then show ?thesis
      using False None by (simp add: os_taskqueue_reprio_def upd_task_def tq_frame_def)
  next
    case (Some q)
    let ?Q = "bucket_upd q (unat (prio_current (task s t))) (remove1 t) Q"
    have q: "q \<in> L" using tq_relD(3) [OF rel tq_relD(4) [OF rel Some]] by simp
    obtain s1 where s1: "os_taskqueue_unlink t s = ok s1" "tq_frame s s1"
      "task s1 = (task s)(t := (task s t)\<lparr>task_queue := None\<rparr>)" "tq_rel L ?Q s1"
      using unlink_result [OF rel Some refl] by blast
    let ?s2 = "upd_task t (\<lambda>k. k\<lparr>prio_current := np\<rparr>) s1"
    let ?s3 = "os_taskqueue_enqueue q t ?s2"
    have "tq_rel L ?Q ?s2" using s1(3,4) by (intro tq_rel_upd_free) auto
    then have "tq_rel L (bucket_upd q (unat np) (\<lambda>ts. ts @ [t]) ?Q) ?s3"
      using q np s1(3) by (intro enqueue_rel) (auto simp: upd_task_def)
    moreover have "task ?s3 = (task s)(t := (task s t)\<lparr>prio_current := np\<rparr>)"
      using s1(3) Some by (auto simp: enqueue_fields upd_task_def fun_eq_iff)
    moreover have "tq_frame s ?s3"
      using s1(2) enqueue_fields(2) [of ?s2 q t] by (simp add: tq_frame_iff)
    ultimately show ?thesis
      using False Some s1(1) by (simp add: os_taskqueue_reprio_def)
  qed
qed

lemma fold_init_links:
  "lnext (fold (\<lambda>i. list_init (f i)) is h) n = (if n \<in> f ` set is then n else lnext h n)"
  "lprev (fold (\<lambda>i. list_init (f i)) is h) n = (if n \<in> f ` set is then n else lprev h n)"
  by (induction "is" arbitrary: h) (auto simp: list_h_defs)

lemma init_rel:
  assumes rel: "tq_rel L Q s" and free: "\<forall>p. Q q p = []"
  shows "tq_rel (insert q L) Q (os_taskqueue_init q s)"
proof -
  let ?s = "os_taskqueue_init q s"
  have h: "lnext (tqh ?s) n = (if n \<in> Bucket q ` {0..<OS_CONFIG_PRIOCNT} then n else lnext (tqh s) n)"
    "lprev (tqh ?s) n = (if n \<in> Bucket q ` {0..<OS_CONFIG_PRIOCNT} then n else lprev (tqh s) n)" for n
    by (simp_all add: os_taskqueue_init_def Let_def fold_init_links)
  have "dlist (tqh ?s) (Bucket q' p) (map TaskLink (Q q' p))"
    if "q' \<in> insert q L" "p < OS_CONFIG_PRIOCNT" for q' p
  proof (cases "q' = q")
    case True
    then show ?thesis using free that by (simp add: dlist_Nil h)
  next
    case False
    have "dlist (tqh ?s) (Bucket q' p) (map TaskLink (Q q' p)) =
      dlist (tqh s) (Bucket q' p) (map TaskLink (Q q' p))"
      by (rule dlist_cong) (use False in \<open>auto simp: same_links_def h\<close>)
    then show ?thesis using tq_relD(1) [OF rel] that False by auto
  qed
  moreover have "task ?s = task s" "qmask ?s = (qmask s)(q := 0)"
    by (simp_all add: os_taskqueue_init_def Let_def)
  ultimately show ?thesis
    using tq_relD(2,3,4) [OF rel] free by (intro tq_relI) auto
qed

text \<open>A queue that is never used again may lose its links.\<close>

lemma memset_links:
  "n \<notin> f ` set is \<Longrightarrow>
   same_links h (fold (\<lambda>i h. set_prev (f i) z (set_next (f i) z h)) is h) n"
proof (induction "is" arbitrary: h)
  case (Cons i "is")
  have "same_links h (set_prev (f i) z (set_next (f i) z h)) n"
    using Cons.prems by (auto simp: same_links_def list_h_defs)
  moreover have "same_links (set_prev (f i) z (set_next (f i) z h))
      (fold (\<lambda>i h. set_prev (f i) z (set_next (f i) z h)) is (set_prev (f i) z (set_next (f i) z h))) n"
    using Cons by auto
  ultimately show ?case by (simp add: same_links_def)
qed (simp add: same_links_def)

lemma memset_rel:
  assumes rel: "tq_rel L Q s" and free: "\<forall>p. Q q p = []"
  shows "tq_rel (L - {q}) Q (memset_taskqueue q s)"
proof -
  let ?s = "memset_taskqueue q s"
  have "dlist (tqh ?s) (Bucket q' p) (map TaskLink (Q q' p))"
    if "q' \<in> L - {q}" "p < OS_CONFIG_PRIOCNT" for q' p
  proof -
    have "dlist (tqh ?s) (Bucket q' p) (map TaskLink (Q q' p)) =
      dlist (tqh s) (Bucket q' p) (map TaskLink (Q q' p))"
      using that(1) unfolding memset_taskqueue_def
      by (intro dlist_cong ballI) (auto intro!: memset_links)
    then show ?thesis using tq_relD(1) [OF rel] that by auto
  qed
  moreover have "task ?s = task s" "qmask ?s = (qmask s)(q := 0)"
    by (simp_all add: memset_taskqueue_def)
  moreover have "q' \<in> L - {q}" if "t \<in> set (Q q' p)" for q' p t
    using tq_relD(3) [OF rel that] that free by auto
  ultimately show ?thesis
    using tq_relD(2,3,4) [OF rel] by (intro tq_relI) auto
qed

lemma init_frame_tq: "tq_frame s (os_taskqueue_init q s)" "tq_frame s (memset_taskqueue q s)"
  by (simp_all add: os_taskqueue_init_def memset_taskqueue_def tq_frame_def Let_def)

section \<open>Ready and waiting tasks\<close>

lemma makeready_fields:
  "task (os_task_makeready t s) =
     (task s)(t := (task s t)\<lparr>state := TASKSTATE_READY, task_queue := Some ReadyQ\<rparr>)"
  "tq_frame s (os_task_makeready t s)"
  by (simp_all add: os_task_makeready_def os_taskqueue_enqueue_def upd_task_def Let_def tq_frame_def)

lemma makeready_rel:
  assumes rel: "tq_rel L Q s" and "ReadyQ \<in> L" and "task_queue (task s t) = None"
    and "p = unat (prio_current (task s t))" "p < OS_CONFIG_PRIOCNT"
  shows "tq_rel L (bucket_upd ReadyQ p (\<lambda>ts. ts @ [t]) Q) (os_task_makeready t s)"
  unfolding os_task_makeready_def Let_def using assms
  by (intro enqueue_rel) (auto simp: tq_rel_upd_task task_upd_task)

section \<open>The task queues are stable queues\<close>

text \<open>The tasks of a queue in the order in which they leave it.\<close>

definition flat_upto :: "nat \<Rightarrow> buckets \<Rightarrow> tid list" where
  "flat_upto n B = concat (map B (rev [0..<n]))"

abbreviation flat :: "buckets \<Rightarrow> tid list" where
  "flat \<equiv> flat_upto OS_CONFIG_PRIOCNT"

lemma flat_upto_simps [simp]:
  "flat_upto 0 B = []"
  "flat_upto (Suc n) B = B n @ flat_upto n B"
  by (simp_all add: flat_upto_def)

lemma set_flat_upto: "set (flat_upto n B) = (\<Union>p < n. set (B p))"
  by (auto simp: flat_upto_def)

lemma flat_upto_cong: "(\<And>p. p < n \<Longrightarrow> B p = C p) \<Longrightarrow> flat_upto n B = flat_upto n C"
  by (induction n) auto

lemma flat_upto_insert:
  fixes pr :: "tid \<Rightarrow> u8"
  assumes "\<forall>p < n. \<forall>t \<in> set (B p). unat (pr t) = p" and "unat (pr t) = p" and "p < n"
  shows "flat_upto n (B(p := B p @ [t])) = prio_insert pr t (flat_upto n B)"
  using assms(1,3)
proof (induction n)
  case (Suc n)
  have "\<forall>x \<in> set (B n). pr t \<le> pr x"
    using Suc.prems assms(2) by (auto simp: word_le_nat_alt)
  then have ins: "prio_insert pr t (B n @ flat_upto n B) = B n @ prio_insert pr t (flat_upto n B)"
    by (rule prio_insert_above)
  show ?case
  proof (cases "p = n")
    case True
    have "\<forall>x \<in> set (flat_upto n B). pr x < pr t"
    proof
      fix x assume "x \<in> set (flat_upto n B)"
      then obtain p' where "p' < n" "x \<in> set (B p')" by (auto simp: set_flat_upto)
      then have "unat (pr x) = p'" using Suc.prems(1) by simp
      then show "pr x < pr t" using \<open>p' < n\<close> assms(2) True by (simp add: word_less_nat_alt)
    qed
    moreover have "flat_upto n (B(p := B p @ [t])) = flat_upto n B"
      using True by (intro flat_upto_cong) auto
    ultimately show ?thesis using ins True by (simp add: prio_insert_below fun_upd_def)
  next
    case False
    then show ?thesis using Suc ins by simp
  qed
qed simp

lemma flat_upto_top:
  "find (\<lambda>p. B p \<noteq> []) (rev [0..<n]) = Some p \<Longrightarrow>
   flat_upto n B = hd (B p) # flat_upto n (B(p := tl (B p)))"
proof (induction n)
  case (Suc n)
  show ?case
  proof (cases "B n = []")
    case True
    then have "p \<noteq> n" "p < n" using Suc.prems find_rev_upt [of B n p] by auto
    then show ?thesis using Suc True by simp
  next
    case False
    then have "p = n" using Suc.prems by simp
    moreover have "flat_upto n (B(n := tl (B n))) = flat_upto n B" by (rule flat_upto_cong) auto
    ultimately show ?thesis using False by (simp add: fun_upd_def)
  qed
qed simp

lemma flat_None: "top_bucket B = None \<longleftrightarrow> flat B = []"
  by (auto simp: top_bucket_None flat_upto_def)

lemma flat_top: "top_bucket B = Some p \<Longrightarrow> flat B = hd (B p) # flat (B(p := tl (B p)))"
  unfolding top_bucket_def by (rule flat_upto_top)

text \<open>Queue \<open>q\<close> of the state holds the tasks \<open>xs\<close>, where \<open>pr\<close> gives the priorities of all
  tasks; a task that may be put in is in no queue.\<close>

definition tq_holds :: "qid \<Rightarrow> (tid \<Rightarrow> u8) \<Rightarrow> tid list \<Rightarrow> kstate \<Rightarrow> bool" where
  "tq_holds q pr xs s \<longleftrightarrow>
     (\<exists>L Q. tq_rel L Q s \<and> q \<in> L \<and> (\<forall>t. prio_current (task s t) = pr t) \<and> flat (Q q) = xs)"

definition tq_free :: "tid \<Rightarrow> kstate \<Rightarrow> bool" where
  "tq_free t s \<longleftrightarrow> task_queue (task s t) = None \<and> unat (prio_current (task s t)) < OS_CONFIG_PRIOCNT"

text \<open>The value of a result, if the function returns.\<close>

definition result_of :: "'a kres \<Rightarrow> 'a option" where
  "result_of r = (case r of Some (Inr x) \<Rightarrow> Some x | _ \<Rightarrow> None)"

lemma result_of_ok [simp]: "result_of (ok x) = Some x"
  by (simp add: result_of_def)

lemma enqueue_holds:
  assumes "tq_holds q pr xs s" and "tq_free t s"
  shows "tq_holds q pr (prio_insert pr t xs) (os_taskqueue_enqueue q t s)"
proof -
  obtain L Q where rel: "tq_rel L Q s" and q: "q \<in> L" and xs: "flat (Q q) = xs"
    and pr: "\<And>t. prio_current (task s t) = pr t"
    using assms(1) by (auto simp: tq_holds_def)
  let ?p = "unat (pr t)" and ?s = "os_taskqueue_enqueue q t s"
  let ?Q = "bucket_upd q ?p (\<lambda>ts. ts @ [t]) Q"
  have "tq_rel L ?Q ?s"
    using assms(2) by (intro enqueue_rel [OF rel q]) (auto simp: tq_free_def pr)
  moreover have "flat (?Q q) = prio_insert pr t xs"
    using flat_upto_insert [of OS_CONFIG_PRIOCNT "Q q" pr t ?p] tq_relD(3) [OF rel, of _ q] assms(2)
    by (auto simp: bucket_upd_def pr xs tq_free_def)
  ultimately show ?thesis
    using q pr by (auto simp: tq_holds_def enqueue_fields)
qed

lemma dequeue_holds:
  assumes "tq_holds q pr (t # xs) s"
  shows "\<exists>s'. os_taskqueue_dequeue q s = ok (Some t, s') \<and> tq_holds q pr xs s'"
proof -
  obtain L Q where rel: "tq_rel L Q s" and q: "q \<in> L" and xs: "flat (Q q) = t # xs"
    and pr: "\<And>t. prio_current (task s t) = pr t"
    using assms(1) by (auto simp: tq_holds_def)
  obtain p where p: "top_bucket (Q q) = Some p"
    using xs flat_None [of "Q q"] by (cases "top_bucket (Q q)") auto
  then have t: "hd (Q q p) = t" "flat ((Q q)(p := tl (Q q p))) = xs"
    using flat_top [OF p] xs by auto
  obtain s' where "os_taskqueue_dequeue q s = ok (Some t, s')" "tq_taken L Q q p t s s'"
    using dequeue_result [OF rel q] p t(1) by auto
  moreover from this(2) have "tq_holds q pr xs s'"
    unfolding tq_holds_def using q pr t(2)
    by (intro exI [of _ L] exI [of _ "bucket_upd q p tl Q"]) (auto simp: tq_taken_def bucket_upd_def)
  ultimately show ?thesis by blast
qed

lemma dequeue_empty: "tq_holds q pr [] s \<Longrightarrow> os_taskqueue_dequeue q s = ok (None, s)"
  using dequeue_result by (fastforce simp: tq_holds_def flat_None [symmetric])

interpretation tq: stable_queue "tq_holds q pr" pr tq_free
  "\<lambda>t s. Some (os_taskqueue_enqueue q t s)" "\<lambda>s. result_of (os_taskqueue_dequeue q s)"
  for q pr
proof unfold_locales
  fix xs t d s s'
  show "tq_holds q pr xs s \<Longrightarrow> tq_free t s \<Longrightarrow>
      \<exists>s'. Some (os_taskqueue_enqueue q t s) = Some s' \<and> tq_holds q pr (prio_insert pr t xs) s'"
    using enqueue_holds by simp
  show "Some (os_taskqueue_enqueue q t s) = Some s' \<Longrightarrow> tq_free d s \<Longrightarrow> d \<noteq> t \<Longrightarrow> tq_free d s'"
    by (auto simp: tq_free_def enqueue_fields)
  show "tq_holds q pr [] s \<Longrightarrow> result_of (os_taskqueue_dequeue q s) = Some (None, s)"
    by (simp add: dequeue_empty)
  show "tq_holds q pr (t # xs) s \<Longrightarrow>
      \<exists>s'. result_of (os_taskqueue_dequeue q s) = Some (Some t, s') \<and> tq_holds q pr xs s'"
    using dequeue_holds by fastforce
qed

section \<open>Properties\<close>

lemma boot_rel: "tq_rel {} (\<lambda>_ _. []) boot"
  by (rule tq_relI) (auto simp: boot_def zero_task_def)

lemma boot_ready_rel: "tq_rel {ReadyQ} (\<lambda>_ _. []) (os_taskqueue_init ReadyQ boot)"
  using init_rel [OF boot_rel, of ReadyQ] by simp

text \<open>C16. A freshly initialised task queue is a stable priority queue: after enqueuing
  distinct tasks that are in no queue, dequeuing returns them by descending current priority,
  tasks of the same priority in the order of arrival, and then NULL.\<close>

theorem taskqueue_drain_sorted:
  assumes "tq_rel L Q s" and "\<forall>p. Q q p = []" and "distinct ts" and "\<forall>t \<in> set ts. tq_free t s"
  shows "\<exists>s' s''.
    put_all (\<lambda>t s. Some (os_taskqueue_enqueue q t s)) ts (os_taskqueue_init q s) = Some s' \<and>
    take_n (\<lambda>s. result_of (os_taskqueue_dequeue q s)) (length ts) s' =
      Some (map Some (prio_sort (\<lambda>t. prio_current (task s t)) ts), s'') \<and>
    os_taskqueue_dequeue q s'' = ok (None, s'')"
proof -
  let ?s = "os_taskqueue_init q s" and ?pr = "\<lambda>t. prio_current (task s t)"
  have "task ?s = task s" by (simp add: os_taskqueue_init_def Let_def)
  then have "tq_holds q ?pr [] ?s" and "\<forall>t \<in> set ts. tq_free t ?s"
    using init_rel [OF assms(1,2)] assms(2,4)
    by (auto simp: tq_holds_def tq_free_def flat_upto_def intro!: exI [of _ "insert q L"] exI [of _ Q])
  from tq.put_take [OF this(1) assms(3) this(2)] show ?thesis
    using dequeue_empty by blast
qed

theorem taskqueue_drain_sorted_witness:
  "\<exists>s' s''. put_all (\<lambda>t s. Some (os_taskqueue_enqueue ReadyQ t s)) [1, 2, 3]
      (os_taskqueue_init ReadyQ (upd_task 2 (\<lambda>k. k\<lparr>prio_current := 3\<rparr>) boot)) = Some s' \<and>
    take_n (\<lambda>s. result_of (os_taskqueue_dequeue ReadyQ s)) 3 s' = Some ([Some 2, Some 1, Some 3], s'')"
proof -
  let ?s = "upd_task 2 (\<lambda>k. k\<lparr>prio_current := 3\<rparr>) boot"
  have task: "task ?s = (\<lambda>t. if t = 2 then zero_task\<lparr>prio_current := 3\<rparr> else zero_task)"
    by (auto simp: upd_task_def boot_def)
  have "tq_rel {} (\<lambda>_ _. []) ?s"
    by (rule tq_rel_upd_free [OF boot_rel]) (simp_all add: boot_def zero_task_def)
  moreover have "\<forall>t \<in> set [1, 2, 3]. tq_free t ?s"
    by (simp add: tq_free_def task zero_task_def OS_CONFIG_PRIOCNT_def)
  ultimately show ?thesis
    using taskqueue_drain_sorted [of "{}" "\<lambda>_ _. []" ?s ReadyQ "[1, 2, 3]"]
    by (auto simp: task zero_task_def prio_sort_def numeral_3_eq_3)
qed

text \<open>\<open>os_taskqueue_peek\<close> returns the task that \<open>os_taskqueue_dequeue\<close> would take, and
  changes nothing; \<open>os_taskqueue_dequeue_prio\<close> takes that same task if its priority is at least
  the given one, and otherwise returns NULL and leaves the queue alone. None of them fails.\<close>

theorem taskqueue_peek_dequeue:
  assumes "tq_rel L Q s" and "q \<in> L"
  shows "\<exists>r s'. os_taskqueue_dequeue q s = ok (r, s') \<and> os_taskqueue_peek q s = ok r \<and>
    (case r of
       None \<Rightarrow> flat (Q q) = [] \<and> s' = s \<and> os_taskqueue_dequeue_prio q prio s = ok (None, s)
     | Some t \<Rightarrow> flat (Q q) = t # tl (flat (Q q)) \<and>
         os_taskqueue_dequeue_prio q prio s =
           (if prio \<le> prio_current (task s t) then ok (Some t, s') else ok (None, s)))"
proof (cases "top_bucket (Q q)")
  case None
  then show ?thesis
    using dequeue_result [OF assms] dequeue_prio_result [OF assms, of prio] peek_result [OF assms]
      flat_None [of "Q q", THEN iffD1] by simp
next
  case (Some p)
  note fls = fls_nonempty [OF assms Some]
  have "hd (Q q p) \<in> set (Q q p)" using fls(4) by (metis list.set_intros(1))
  then have pr: "unat (prio_current (task s (hd (Q q p)))) = p" using tq_relD(3) [OF assms(1)] by blast
  obtain s' where s': "os_taskqueue_dequeue q s = ok (Some (hd (Q q p)), s')"
    using dequeue_result [OF assms] Some by auto
  then have "os_taskqueue_dequeue_prio q prio s =
      (if prio \<le> prio_current (task s (hd (Q q p))) then ok (Some (hd (Q q p)), s') else ok (None, s))"
    using fls(1,2) pr
    by (auto simp: os_taskqueue_dequeue_def os_taskqueue_dequeue_prio_def word_less_nat_alt
        word_le_nat_alt Let_def)
  then show ?thesis
    using s' peek_result [OF assms] Some flat_top [OF Some] by simp
qed

theorem taskqueue_peek_dequeue_witness:
  "os_taskqueue_peek ReadyQ (os_taskqueue_enqueue ReadyQ 1 (os_taskqueue_init ReadyQ boot)) =
     ok (Some 1)"
proof -
  let ?s = "os_taskqueue_enqueue ReadyQ 1 (os_taskqueue_init ReadyQ boot)"
  let ?Q = "bucket_upd ReadyQ 0 (\<lambda>ts. ts @ [1]) (\<lambda>_ _. [])"
  have "tq_rel {ReadyQ} ?Q ?s"
    by (rule enqueue_rel [OF boot_ready_rel])
      (simp_all add: os_taskqueue_init_def boot_def zero_task_def OS_CONFIG_PRIOCNT_def Let_def)
  from taskqueue_peek_dequeue [OF this, of ReadyQ 0] show ?thesis
    by (auto simp: bucket_upd_def flat_upto_def OS_CONFIG_PRIOCNT_def upt_rec split: option.splits)
qed

lemma flat_upto_remove1:
  "p < n \<Longrightarrow> \<forall>p' < n. p' \<noteq> p \<longrightarrow> t \<notin> set (B p') \<Longrightarrow>
   flat_upto n (B(p := remove1 t (B p))) = remove1 t (flat_upto n B)"
proof (induction n)
  case (Suc n)
  show ?case
  proof (cases "p = n")
    case True
    then have "flat_upto n (B(p := remove1 t (B p))) = flat_upto n B" and "t \<notin> set (flat_upto n B)"
      using Suc.prems(2) by (auto simp: set_flat_upto intro: flat_upto_cong)
    then show ?thesis using True by (simp add: fun_upd_def remove1_append remove1_idem)
  next
    case False
    then show ?thesis using Suc by (simp add: remove1_append)
  qed
qed simp

text \<open>\<open>os_taskqueue_reprio\<close> of a queued task gives it the new priority and moves it, in the
  same queue, behind all tasks of at least that priority; the order of the other tasks, the
  other queues and the other tasks' fields stay as they are.\<close>

theorem taskqueue_reprio_moves:
  assumes rel: "tq_rel L Q s" and np: "unat np < OS_CONFIG_PRIOCNT" and tq: "task_queue (task s t) = Some q"
    and diff: "prio_current (task s t) \<noteq> np"
  shows "\<exists>s' Q'. os_taskqueue_reprio t np s = ok s' \<and> tq_rel L Q' s' \<and>
    task s' = (task s)(t := (task s t)\<lparr>prio_current := np\<rparr>) \<and>
    flat (Q' q) = prio_insert (\<lambda>t. prio_current (task s' t)) t (remove1 t (flat (Q q))) \<and>
    (\<forall>q'. q' \<noteq> q \<longrightarrow> Q' q' = Q q')"
proof -
  let ?p = "unat (prio_current (task s t))"
  let ?B = "(Q q)(?p := remove1 t (Q q ?p))"
  let ?Q = "bucket_upd q (unat np) (\<lambda>ts. ts @ [t]) (bucket_upd q ?p (remove1 t) Q)"
  obtain s' where s': "os_taskqueue_reprio t np s = ok s'"
    "task s' = (task s)(t := (task s t)\<lparr>prio_current := np\<rparr>)"
    "tq_rel L ?Q s'"
    using reprio_result [OF rel np, of t] tq diff by auto
  let ?pr = "\<lambda>t. prio_current (task s' t)"
  have q: "q \<in> L" and p: "?p < OS_CONFIG_PRIOCNT" and uniq: "t \<in> set (Q q p') \<Longrightarrow> p' = ?p" for p'
    using tq_relD(3) [OF rel tq_relD(4) [OF rel tq]] tq_relD(3) [OF rel, of t q p'] by auto
  have "distinct (Q q ?p)" by (rule tq_rel_distinct [OF rel q p])
  then have "\<forall>p < OS_CONFIG_PRIOCNT. \<forall>d \<in> set (?B p). unat (?pr d) = p"
    using tq_relD(3) [OF rel] uniq by (auto simp: s'(2))
  then have "flat (?B(unat np := ?B (unat np) @ [t])) = prio_insert ?pr t (flat ?B)"
    by (rule flat_upto_insert) (use np s'(2) in simp_all)
  moreover have "flat ?B = remove1 t (flat (Q q))"
    using uniq p by (intro flat_upto_remove1) auto
  ultimately have "flat (?Q q) = prio_insert ?pr t (remove1 t (flat (Q q)))"
    by (simp add: bucket_upd_def)
  moreover have "\<forall>q'. q' \<noteq> q \<longrightarrow> ?Q q' = Q q'" by (simp add: bucket_upd_def)
  ultimately show ?thesis using s' by blast
qed

theorem taskqueue_reprio_moves_witness:
  "\<exists>s'. os_taskqueue_reprio 1 2 (os_taskqueue_enqueue ReadyQ 1 (os_taskqueue_init ReadyQ boot)) =
      ok s' \<and> prio_current (task s' 1) = 2"
proof -
  let ?s = "os_taskqueue_enqueue ReadyQ 1 (os_taskqueue_init ReadyQ boot)"
  have rel: "tq_rel {ReadyQ} (bucket_upd ReadyQ 0 (\<lambda>ts. ts @ [1]) (\<lambda>_ _. [])) ?s"
    by (rule enqueue_rel [OF boot_ready_rel])
      (simp_all add: os_taskqueue_init_def boot_def zero_task_def OS_CONFIG_PRIOCNT_def Let_def)
  have "task_queue (task ?s 1) = Some ReadyQ" "prio_current (task ?s 1) \<noteq> 2"
    by (simp_all add: enqueue_fields os_taskqueue_init_def boot_def zero_task_def Let_def)
  from taskqueue_reprio_moves [OF rel _ this] show ?thesis
    by (auto simp: OS_CONFIG_PRIOCNT_def)
qed

end
