(* ===== verification/Sched.thy ===== *)
theory Sched
  imports Taskqueue
begin

text \<open>
  The scheduler of \<^verbatim>\<open>os_sched.c\<close>: scheduler lock, initialisation, task creation, yield,
  \<open>os_schedule\<close> and \<open>os_task_block_switch\<close>, with the AVR context switch at the level of
  continuations and the stack frame that \<open>arch_task_init\<close> builds.
\<close>

section \<open>Context switch\<close>

text \<open>The SREG that the restored context carries: interrupts on for a new task, the saved
  value for an interrupted one, 0 (interrupts off) for one that left from inside the kernel.\<close>

fun kont_sreg :: "kont \<Rightarrow> u8" where
  "kont_sreg (K_Start _ _) = push_bit SREG_I 1"
| "kont_sreg (K_Isr r) = r"
| "kont_sreg _ = 0"

definition arch_context_switch :: "kont \<Rightarrow> tid \<Rightarrow> kstate \<Rightarrow> kstate" where
  "arch_context_switch k new_task s =
     (let s = upd_task (task_current s) (\<lambda>t. t\<lparr>ctx_kont := k\<rparr>) s;
          s = s\<lparr>task_current := new_task\<rparr>
      in s\<lparr>sreg := kont_sreg (ctx_kont (task s new_task))\<rparr>)"

section \<open>Scheduling\<close>

definition os_schedule :: "kont \<Rightarrow> u8 \<Rightarrow> kstate \<Rightarrow> (unit outcome \<times> kstate) kres" where
  "os_schedule k higher_prio s =
     os_assert (arch_is_dint (sreg s)) s
       (if isr_nesting s \<le> 1 \<and> 0 = sched_lock s
        then kbind (os_taskqueue_dequeue_prio ReadyQ
                      (prio_current (task s (task_current s)) + higher_prio) s)
               (\<lambda>(new_task, s). case new_task of
                  None \<Rightarrow> ok (Return (), s)
                | Some new_task \<Rightarrow>
                    let s = os_task_makeready (task_current s) s
                    in if 0 = isr_nesting s
                       then ok (Switched, arch_context_switch k new_task s)
                       else let s = s\<lparr>task_current := new_task\<rparr>
                            in ok (Return (), upd_task (task_current s)
                                     (\<lambda>t. t\<lparr>state := TASKSTATE_RUNNING\<rparr>) s))
        else ok (Return (), s))"

definition os_task_block_switch :: "kont \<Rightarrow> qid \<Rightarrow> os_taskblock \<Rightarrow> kstate \<Rightarrow> kstate kres" where
  "os_task_block_switch k q bt s =
     (let s = os_task_makewait q bt s
      in kbind (os_taskqueue_dequeue ReadyQ s)
           (\<lambda>(new_task, s). case new_task of
              None \<Rightarrow> fail Null_deref
            | Some new_task \<Rightarrow> ok (arch_context_switch k new_task s)))"

text \<open>The end of the API functions that schedule last: leave the critical section and return,
  unless the context was switched.\<close>

definition sched_exit :: "u8 \<Rightarrow> 'v \<Rightarrow> unit outcome \<times> kstate \<Rightarrow> ('v outcome \<times> kstate) kres" where
  "sched_exit cristate v = (\<lambda>(r, s). case r of
     Return _ \<Rightarrow> ok (Return v, os_critical_exit cristate s)
   | Switched \<Rightarrow> ok (Switched, s))"

definition os_scheduler_lock :: "kstate \<Rightarrow> kstate kres" where
  "os_scheduler_lock s =
     os_assert (0 = isr_nesting s) s
     (os_assert (waitqueue_current s = None) s
       (let (l, r) = os_atomic_inc (sreg s) (sched_lock s)
        in ok (s\<lparr>sched_lock := l, sreg := r\<rparr>)))"

definition os_scheduler_unlock :: "bool \<Rightarrow> kstate \<Rightarrow> (apival outcome \<times> kstate) kres" where
  "os_scheduler_unlock sync s =
     os_assert (0 = isr_nesting s) s
     (os_assert (waitqueue_current s = None) s
       (let (lock_curr, l, r) = os_atomic_dec_load (sreg s) (sched_lock s);
            s = s\<lparr>sched_lock := l, sreg := r\<rparr>
        in if \<not> sync \<and> 0 = lock_curr
           then let (cristate, s) = os_critical_enter s
                in kbind (os_schedule (K_Schedule cristate) 1 s) (sched_exit cristate Void)
           else ok (Return Void, s)))"

section \<open>Tasks\<close>

definition os_task_init :: "tid \<Rightarrow> u8 \<Rightarrow> kstate \<Rightarrow> kstate" where
  "os_task_init t prio s =
     (let s = upd_task t (\<lambda>_. zero_task) s;
          s = s\<lparr>tqh := list_init (TaskLink t) (tqh s)\<rparr>;
          s = upd_task t (\<lambda>k. k\<lparr>prio_base := prio, prio_current := prio,
                state := TASKSTATE_READY, block_type := OS_TASKBLOCK_INVALID\<rparr>) s
      in s\<lparr>mxh := list_init (MtxList t) (mxh s)\<rparr>)"

definition os_task_check_init :: "tid \<Rightarrow> u16 \<Rightarrow> u16 \<Rightarrow> kstate \<Rightarrow> kstate" where
  "os_task_check_init t stack sz s =
     (let s = s\<lparr>mem := (\<lambda>a. if unat (a - stack) < unat sz then OS_STACK_FILLPATERN else mem s a)\<rparr>;
          s = upd_task t (\<lambda>k. k\<lparr>stack_size := sz\<rparr>) s
      in upd_task t (\<lambda>k. k\<lparr>stack_end := stack\<rparr>) s)"

text \<open>The bytes \<open>arch_task_init\<close> of the AVR port stores, in the order of the stores.\<close>

definition lo_byte :: "u16 \<Rightarrow> u8" where
  "lo_byte w = ucast (w AND 0x00ff)"

definition hi_byte :: "u16 \<Rightarrow> u8" where
  "hi_byte w = ucast (drop_bit 8 (w AND 0xff00))"

definition avr_initial_frame :: "u16 \<Rightarrow> u16 \<Rightarrow> u16 \<Rightarrow> u16 \<Rightarrow> u16 \<Rightarrow> u8 list" where
  "avr_initial_frame start stack_param sz proc prm =
     [ucast (start AND 0xFF), ucast (drop_bit 8 start), 0, push_bit SREG_I 1,
      lo_byte (stack_param + sz - 3), hi_byte (stack_param + sz - 3)] @
     replicate 16 0 @
     [0, 0, 0, 0, 0, lo_byte prm, hi_byte prm, lo_byte proc, hi_byte proc, 0, 0, 0, 0]"

text \<open>\<open>*(stack--) = b\<close> for each byte: the memory and the final pointer.\<close>

fun store_desc :: "u8 list \<Rightarrow> u16 \<Rightarrow> (u16 \<Rightarrow> u8) \<Rightarrow> u16 \<times> (u16 \<Rightarrow> u8)" where
  "store_desc [] sp m = (sp, m)"
| "store_desc (b # bs) sp m = store_desc bs (sp - 1) (m(sp := b))"

definition arch_task_init :: "tid \<Rightarrow> u16 \<Rightarrow> u16 \<Rightarrow> u16 \<Rightarrow> u16 \<Rightarrow> kstate \<Rightarrow> kstate" where
  "arch_task_init t stack_param sz proc prm s =
     (let (sp, m) = store_desc (avr_initial_frame (task_start_pc s) stack_param sz proc prm)
                      (stack_param + sz - 1) (mem s);
          s = s\<lparr>mem := m\<rparr>
      in upd_task t (\<lambda>k. k\<lparr>ctx_sp := sp, ctx_kont := K_Start proc prm\<rparr>) s)"

definition os_task_create ::
  "tid \<Rightarrow> u8 \<Rightarrow> u16 \<Rightarrow> u16 \<Rightarrow> u16 \<Rightarrow> u16 \<Rightarrow> kstate \<Rightarrow> (apival outcome \<times> kstate) kres" where
  "os_task_create t prio stack sz proc prm s =
     os_assert (0 = isr_nesting s) s
     (os_assert (waitqueue_current s = None) s
     (os_assert (unat prio < OS_CONFIG_PRIOCNT) s
     (os_assert (prio > 0) s
     (os_assert (stack \<noteq> 0) s
     (os_assert (sz \<ge> OS_STACK_MINSIZE) s
       (let s = os_task_init t prio s;
            s = os_task_check_init t stack sz s;
            s = arch_task_init t stack sz proc prm s;
            (cristate, s) = os_critical_enter s;
            s = os_taskqueue_enqueue ReadyQ t s
        in kbind (os_schedule (K_Schedule cristate) 1 s) (sched_exit cristate Void)))))))"

definition os_yield :: "kstate \<Rightarrow> (apival outcome \<times> kstate) kres" where
  "os_yield s =
     os_assert (0 = isr_nesting s) s
     (os_assert (task_current s \<noteq> task_idle) s
     (os_assert (waitqueue_current s = None) s
       (let (cristate, s) = os_critical_enter s
        in kbind (os_schedule (K_Schedule cristate) 0 s) (sched_exit cristate Void))))"

definition os_task_check :: "tid \<Rightarrow> kstate \<Rightarrow> kstate kres" where
  "os_task_check t s =
     (if OS_STACK_FILLPATERN \<noteq> mem s (stack_end (task s t)) then os_halt s else ok s)"

section \<open>Initialisation\<close>

definition os_timers_init :: "kstate \<Rightarrow> kstate" where
  "os_timers_init s = s\<lparr>tmh := list_init TimerList (tmh s)\<rparr>"

text \<open>\<open>arch_os_init\<close> of the AVR port does nothing.\<close>

definition os_init :: "kstate \<Rightarrow> kstate" where
  "os_init s =
     (let s = s\<lparr>sreg := arch_dint (sreg s)\<rparr>;
          s = os_taskqueue_init ReadyQ s;
          s = os_timers_init s;
          s = os_task_init task_idle 0 s;
          s = upd_task task_idle (\<lambda>k. k\<lparr>state := TASKSTATE_RUNNING\<rparr>) s;
          s = s\<lparr>task_current := task_idle\<rparr>
      in s\<lparr>sched_lock := 1\<rparr>)"

text \<open>\<open>os_start\<close> up to the idle loop, which only calls the user's idle function.\<close>

definition os_start :: "kstate \<Rightarrow> (apival outcome \<times> kstate) kres" where
  "os_start s =
     os_assert (task_current s = task_idle) s
     (os_assert (arch_is_dint (sreg s)) s
       (let s = s\<lparr>sched_lock := 0\<rparr>;
            s = s\<lparr>sreg := arch_eint (sreg s)\<rparr>;
            (cristate, s) = os_critical_enter s
        in kbind (os_schedule (K_Schedule cristate) 0 s) (sched_exit cristate Void)))"

section \<open>Interrupt entry and exit (arch\_contextstore\_i, arch\_contextrestore\_i)\<close>

text \<open>The hardware clears the interrupt flag on entry; the saved SREG has it set again. The
  outermost interrupt saves the context of the current task.\<close>

definition arch_contextstore_i :: "kstate \<Rightarrow> kstate" where
  "arch_contextstore_i s =
     (let saved = sreg s OR 0x80;
          s = s\<lparr>sreg := arch_dint (sreg s)\<rparr>;
          s = s\<lparr>isr_saved := saved # isr_saved s\<rparr>;
          s = s\<lparr>isr_nesting := isr_nesting s + 1\<rparr>
      in if isr_nesting s = 1
         then upd_task (task_current s) (\<lambda>k. k\<lparr>ctx_kont := K_Isr saved\<rparr>) s
         else s)"

text \<open>The outermost interrupt leaves to the context of \<open>task_current\<close>, which may be another
  task by then; a nested one pops its own registers.\<close>

definition arch_contextrestore_i :: "kstate \<Rightarrow> unit outcome \<times> kstate" where
  "arch_contextrestore_i s =
     (let s = s\<lparr>sreg := arch_dint (sreg s)\<rparr>;
          s = s\<lparr>isr_nesting := isr_nesting s - 1\<rparr>
      in if isr_nesting s = 0
         then (Switched, s\<lparr>sreg := kont_sreg (ctx_kont (task s (task_current s))),
                 isr_saved := tl (isr_saved s)\<rparr>)
         else (Return (), s\<lparr>sreg := hd (isr_saved s), isr_saved := tl (isr_saved s)\<rparr>))"

section \<open>The scheduler invariant\<close>

text \<open>The block code that goes with a queue.\<close>

fun queue_block :: "qid \<Rightarrow> os_taskblock" where
  "queue_block ReadyQ = OS_TASKBLOCK_INVALID"
| "queue_block (MtxQ _) = OS_TASKBLOCK_MTX"
| "queue_block (SemQ _) = OS_TASKBLOCK_SEM"
| "queue_block (WaitQ _) = OS_TASKBLOCK_WAITQUEUE"

text \<open>What a task record has to say about the queue it is in.\<close>

definition task_ok :: "os_task \<Rightarrow> bool" where
  "task_ok k \<longleftrightarrow> unat (prio_current k) < OS_CONFIG_PRIOCNT \<and> unat (prio_base k) < OS_CONFIG_PRIOCNT \<and>
     (\<forall>q. task_queue k = Some q \<longrightarrow>
        (if q = ReadyQ then state k = TASKSTATE_READY
         else state k = TASKSTATE_WAIT \<and> block_type k = queue_block q))"

definition sched_inv :: "qid set \<Rightarrow> queues \<Rightarrow> kstate \<Rightarrow> bool" where
  "sched_inv L Q s \<longleftrightarrow> tq_rel L Q s \<and> ReadyQ \<in> L \<and> (\<forall>t. task_ok (task s t)) \<and>
     task_queue (task s (task_current s)) = None \<and>
     state (task s (task_current s)) \<noteq> TASKSTATE_WAIT \<and>
     (task_current s \<noteq> task_idle \<longrightarrow> task_queue (task s task_idle) = Some ReadyQ)"

text \<open>The tasks that wait but are in no queue: between a dequeue and the wake-up.\<close>

definition floating :: "kstate \<Rightarrow> tid set" where
  "floating s = {t. state (task s t) = TASKSTATE_WAIT \<and> task_queue (task s t) = None}"

lemma task_ok_upd [simp, intro]:
  "task_ok k \<Longrightarrow> task_ok (k\<lparr>task_queue := None\<rparr>)"
  "task_ok k \<Longrightarrow> task_ok (k\<lparr>state := TASKSTATE_READY, task_queue := Some ReadyQ\<rparr>)"
  "task_ok k \<Longrightarrow> task_queue k = None \<Longrightarrow> task_ok (k\<lparr>state := st\<rparr>)"
  "task_ok (k\<lparr>ctx_kont := kt\<rparr>) = task_ok k"
  "task_ok (k\<lparr>timer := tm\<rparr>) = task_ok k"
  "task_ok (k\<lparr>join_sem := m\<rparr>) = task_ok k"
  "task_ok (k\<lparr>ret_block := r\<rparr>) = task_ok k"
  "task_ok (set_block_code c k) = task_ok k"
  by (auto simp: task_ok_def set_block_code_def)

lemma sched_invD:
  assumes "sched_inv L Q s"
  shows "tq_rel L Q s" and "ReadyQ \<in> L" and "task_ok (task s t)"
    and "task_queue (task s (task_current s)) = None"
    and "state (task s (task_current s)) \<noteq> TASKSTATE_WAIT"
    and "task_current s \<noteq> task_idle \<Longrightarrow> task_queue (task s task_idle) = Some ReadyQ"
  using assms by (auto simp: sched_inv_def)

lemma sched_inv_prio: "sched_inv L Q s \<Longrightarrow> unat (prio_current (task s t)) < OS_CONFIG_PRIOCNT"
  using sched_invD(3) by (auto simp: task_ok_def)

lemma sched_inv_cong:
  assumes "tqh s' = tqh s" and "qmask s' = qmask s" and "task s' = task s" and "task_current s' = task_current s"
  shows "sched_inv L Q s' = sched_inv L Q s" and "floating s' = floating s"
  using tq_rel_cong [of s' s L Q] assms by (auto simp: sched_inv_def floating_def)

lemma sched_inv_same:
  assumes "sched_inv L Q s"
    and "tqh s' = tqh s" and "qmask s' = qmask s" and "task s' = task s" and "task_current s' = task_current s"
  shows "sched_inv L Q s'"
  using sched_inv_cong(1) [OF assms(2-5)] assms(1) by simp

lemma sched_inv_upd_task:
  assumes inv: "sched_inv L Q s"
    and "task_queue (f (task s t)) = task_queue (task s t)"
    and "prio_current (f (task s t)) = prio_current (task s t)"
    and "prio_base (f (task s t)) = prio_base (task s t)"
    and "block_type (f (task s t)) = block_type (task s t)"
    and "state (f (task s t)) = state (task s t)"
  shows "sched_inv L Q (upd_task t f s)" and "floating (upd_task t f s) = floating s"
proof -
  have "task_ok (f (task s t))"
    using sched_invD(3) [OF inv, of t] assms(2-6) by (simp add: task_ok_def)
  then show "sched_inv L Q (upd_task t f s)" and "floating (upd_task t f s) = floating s"
    using inv tq_rel_upd_task [of f s t L Q] assms(2-6)
    by (auto simp: sched_inv_def floating_def task_upd_task)
qed

text \<open>A task in no queue may change its state, as long as it does not wait.\<close>

lemma sched_inv_upd_free:
  assumes inv: "sched_inv L Q s" and "task_queue (task s t) = None" and "task_queue (f (task s t)) = None"
    and "state (f (task s t)) \<noteq> TASKSTATE_WAIT" and "task_ok (f (task s t))"
  shows "sched_inv L Q (upd_task t f s)" and "floating (upd_task t f s) = floating s - {t}"
  using inv tq_rel_upd_free [of L Q s t f] assms(2-5)
  by (auto simp: sched_inv_def floating_def task_upd_task)

text \<open>Taking the first task of a queue.\<close>

lemma take_first:
  assumes rel: "tq_rel L Q s" and q: "q \<in> L" and fl: "flat (Q q) = t # ts"
    and p: "p = unat (prio_current (task s t))"
  shows "\<exists>s'. os_taskqueue_dequeue q s = ok (Some t, s') \<and> tq_frame s s' \<and>
      task s' = (task s)(t := (task s t)\<lparr>task_queue := None\<rparr>) \<and>
      tq_rel L (bucket_upd q p tl Q) s'"
    and "flat (bucket_upd q p tl Q q) = ts" and "task_queue (task s t) = Some q"
proof -
  obtain p' where p': "top_bucket (Q q) = Some p'"
    using fl flat_None [of "Q q"] by (cases "top_bucket (Q q)") auto
  have t: "hd (Q q p') = t" "flat ((Q q)(p' := tl (Q q p'))) = ts"
    using flat_top [OF p'] fl by auto
  have "t \<in> set (Q q p')" using p' t(1) by (auto simp: top_bucket_Some)
  then show "task_queue (task s t) = Some q" and "flat (bucket_upd q p tl Q q) = ts"
    and "\<exists>s'. os_taskqueue_dequeue q s = ok (Some t, s') \<and> tq_frame s s' \<and>
      task s' = (task s)(t := (task s t)\<lparr>task_queue := None\<rparr>) \<and>
      tq_rel L (bucket_upd q p tl Q) s'"
    using tq_relD(3) [OF rel] p dequeue_result [OF rel q] p' t by (auto simp: tq_taken_def bucket_upd_def)
qed

lemma dequeue_inv:
  assumes inv: "sched_inv L Q s" and q: "q \<in> L" "q \<noteq> ReadyQ" and fl: "flat (Q q) = t # ts"
    and p: "p = unat (prio_current (task s t))"
  shows "\<exists>s'. os_taskqueue_dequeue q s = ok (Some t, s') \<and>
    sched_inv L (bucket_upd q p tl Q) s' \<and> flat (bucket_upd q p tl Q q) = ts \<and>
    floating s' = insert t (floating s) \<and> tq_frame s s' \<and>
    task s' = (task s)(t := (task s t)\<lparr>task_queue := None\<rparr>) \<and>
    state (task s t) = TASKSTATE_WAIT \<and> t \<noteq> task_current s"
proof -
  note first = take_first [OF sched_invD(1) [OF inv] q(1) fl p]
  obtain s' where s': "os_taskqueue_dequeue q s = ok (Some t, s')" "tq_frame s s'"
    "task s' = (task s)(t := (task s t)\<lparr>task_queue := None\<rparr>)" "tq_rel L (bucket_upd q p tl Q) s'"
    using first(1) by blast
  have w: "state (task s t) = TASKSTATE_WAIT"
    using sched_invD(3) [OF inv, of t] first(3) q(2) by (auto simp: task_ok_def)
  then have t: "t \<noteq> task_current s" "task_idle \<noteq> t \<or> task_current s = task_idle"
    using sched_invD(5,6) [OF inv] first(3) q(2) by (cases "task_current s = task_idle"; auto)+
  have "sched_inv L (bucket_upd q p tl Q) s'"
    using inv s'(2-4) t by (auto simp: sched_inv_def tq_frame_iff)
  moreover have "floating s' = insert t (floating s)"
    using s'(3) w by (auto simp: floating_def)
  ultimately show ?thesis using s' first(2) w t(1) by blast
qed

lemma dequeue_inv_empty:
  "sched_inv L Q s \<Longrightarrow> q \<in> L \<Longrightarrow> flat (Q q) = [] \<Longrightarrow> os_taskqueue_dequeue q s = ok (None, s)"
  using dequeue_result [of L Q s q] flat_None [of "Q q"] by (auto simp: sched_inv_def)

text \<open>Waking up a task that was taken from its queue.\<close>

lemma makeready_inv:
  assumes inv: "sched_inv L Q s" and t: "task_queue (task s t) = None" "t \<noteq> task_current s"
  shows "sched_inv L (bucket_upd ReadyQ (unat (prio_current (task s t))) (\<lambda>ts. ts @ [t]) Q)
      (os_task_makeready t s)"
    and "floating (os_task_makeready t s) = floating s - {t}"
proof -
  have rel: "tq_rel L (bucket_upd ReadyQ (unat (prio_current (task s t))) (\<lambda>ts. ts @ [t]) Q)
      (os_task_makeready t s)"
    by (rule makeready_rel [OF sched_invD(1,2) [OF inv] t(1) refl sched_inv_prio [OF inv]])
  show "sched_inv L (bucket_upd ReadyQ (unat (prio_current (task s t))) (\<lambda>ts. ts @ [t]) Q)
      (os_task_makeready t s)"
    using inv rel t makeready_fields
    by (auto simp: sched_inv_def tq_frame_iff task_ok_def)
  show "floating (os_task_makeready t s) = floating s - {t}"
    by (auto simp: floating_def makeready_fields)
qed

section \<open>Choice of the next task\<close>

text \<open>The ready tasks in the order in which the scheduler would take them.\<close>

abbreviation ready :: "queues \<Rightarrow> tid list" where
  "ready Q \<equiv> flat (Q ReadyQ)"

text \<open>Everything but queues, tasks, the current task and SREG is as before.\<close>

definition sched_frame :: "kstate \<Rightarrow> kstate \<Rightarrow> bool" where
  "sched_frame s s' \<longleftrightarrow>
     s' = s\<lparr>tqh := tqh s', qmask := qmask s', task := task s', task_current := task_current s', sreg := sreg s'\<rparr>"

lemma sched_frame_iff:
  "sched_frame s s' \<longleftrightarrow>
     isr_nesting s' = isr_nesting s \<and> sched_lock s' = sched_lock s \<and>
     waitqueue_current s' = waitqueue_current s \<and> ticks_cnt s' = ticks_cnt s \<and>
     timer_tick_unsynch s' = timer_tick_unsynch s \<and> isr_saved s' = isr_saved s \<and>
     mxh s' = mxh s \<and> tmh s' = tmh s \<and> mtx s' = mtx s \<and> sem s' = sem s \<and> tmr s' = tmr s \<and>
     mem s' = mem s \<and> task_start_pc s' = task_start_pc s"
  by (cases s; cases s') (auto simp: sched_frame_def)

lemma sched_frame_trans [trans]: "sched_frame s s' \<Longrightarrow> sched_frame s' s'' \<Longrightarrow> sched_frame s s''"
  by (simp add: sched_frame_iff)

lemma tq_sched_frame: "tq_frame s s' \<Longrightarrow> sched_frame s s'"
  by (simp add: tq_frame_iff sched_frame_iff)

text \<open>The first ready task, and what taking it leaves.\<close>

lemma take_ready:
  assumes inv: "sched_inv L Q s" and rd: "ready Q = t # ts"
  shows "task_queue (task s t) = Some ReadyQ" and "t \<noteq> task_current s"
    and "state (task s t) = TASKSTATE_READY"
proof -
  show tq: "task_queue (task s t) = Some ReadyQ"
    by (rule take_first(3) [OF sched_invD(1,2) [OF inv] rd refl])
  then show "t \<noteq> task_current s" using sched_invD(4) [OF inv] by auto
  show "state (task s t) = TASKSTATE_READY"
    using sched_invD(3) [OF inv, of t] tq by (simp add: task_ok_def)
qed

lemma dequeue_prio_dequeue:
  assumes inv: "sched_inv L Q s" and rd: "ready Q = t # ts"
  shows "os_taskqueue_dequeue_prio ReadyQ prio s =
    (if prio \<le> prio_current (task s t) then os_taskqueue_dequeue ReadyQ s else ok (None, s))"
proof -
  note rel = sched_invD(1,2) [OF inv]
  obtain p where p: "top_bucket (Q ReadyQ) = Some p"
    using rd flat_None [of "Q ReadyQ"] by (cases "top_bucket (Q ReadyQ)") auto
  note fls = fls_nonempty [OF rel p]
  have "hd (Q ReadyQ p) = t" using flat_top [OF p] rd by auto
  then have "t \<in> set (Q ReadyQ p)" using fls(4) by (metis list.set_intros(1))
  then have "unat (prio_current (task s t)) = p" using tq_relD(3) [OF rel(1)] by blast
  then show ?thesis
    using fls(1,2)
    by (auto simp: os_taskqueue_dequeue_def os_taskqueue_dequeue_prio_def word_less_nat_alt
        word_le_nat_alt Let_def)
qed

lemma ready_append:
  assumes rel: "tq_rel L Q s" and t: "unat (prio_current (task s t)) < OS_CONFIG_PRIOCNT"
  shows "flat (bucket_upd q (unat (prio_current (task s t))) (\<lambda>ts. ts @ [t]) Q q) =
    prio_insert (\<lambda>t. prio_current (task s t)) t (flat (Q q))"
  using flat_upto_insert [of OS_CONFIG_PRIOCNT "Q q" "\<lambda>t. prio_current (task s t)" t] t
    tq_relD(3) [OF rel, of _ q]
  by (simp add: bucket_upd_def)

text \<open>Does \<open>os_schedule\<close> give up the CPU?\<close>

definition preempts :: "u8 \<Rightarrow> kstate \<Rightarrow> tid list \<Rightarrow> bool" where
  "preempts higher_prio s ts \<longleftrightarrow> isr_nesting s \<le> 1 \<and> sched_lock s = 0 \<and>
     (case ts of [] \<Rightarrow> False
      | t # _ \<Rightarrow> prio_current (task s (task_current s)) + higher_prio \<le> prio_current (task s t))"

lemma schedule_stays:
  assumes inv: "sched_inv L Q s" and "arch_is_dint (sreg s)" and "\<not> preempts higher_prio s (ready Q)"
  shows "os_schedule k higher_prio s = ok (Return (), s)"
proof (cases "ready Q")
  case Nil
  then have "os_taskqueue_dequeue_prio ReadyQ (prio_current (task s (task_current s)) + higher_prio) s =
      ok (None, s)"
    using dequeue_prio_result [OF sched_invD(1,2) [OF inv]] flat_None [of "Q ReadyQ"] by simp
  then show ?thesis using assms(2) by (auto simp: os_schedule_def)
next
  case (Cons t ts)
  then show ?thesis
    using assms(2,3) dequeue_prio_dequeue [OF inv Cons] by (auto simp: os_schedule_def preempts_def)
qed

text \<open>The queues and the tasks after the current task was replaced by the first ready task.\<close>

definition switch_queues :: "kstate \<Rightarrow> tid \<Rightarrow> queues \<Rightarrow> queues" where
  "switch_queues s t Q = bucket_upd ReadyQ (unat (prio_current (task s (task_current s)))) (\<lambda>ts. ts @ [task_current s])
     (bucket_upd ReadyQ (unat (prio_current (task s t))) tl Q)"

definition switch_tasks :: "kstate \<Rightarrow> tid \<Rightarrow> (tid \<Rightarrow> os_task)" where
  "switch_tasks s t = (task s)(t := (task s t)\<lparr>task_queue := None\<rparr>,
     task_current s := (task s (task_current s))\<lparr>state := TASKSTATE_READY, task_queue := Some ReadyQ\<rparr>)"

lemma switch_inv:
  assumes inv: "sched_inv L Q s" and rd: "ready Q = t # ts"
  shows "\<exists>s1. os_taskqueue_dequeue ReadyQ s = ok (Some t, s1) \<and> tq_frame s (os_task_makeready (task_current s1) s1) \<and>
      task (os_task_makeready (task_current s1) s1) = switch_tasks s t \<and>
      tq_rel L (switch_queues s t Q) (os_task_makeready (task_current s1) s1)"
    and "ready (switch_queues s t Q) = prio_insert (\<lambda>t. prio_current (task s t)) (task_current s) ts"
proof -
  let ?c = "task_current s" and ?p = "unat (prio_current (task s t))"
  obtain s1 where s1: "os_taskqueue_dequeue ReadyQ s = ok (Some t, s1)" "tq_frame s s1"
    "task s1 = (task s)(t := (task s t)\<lparr>task_queue := None\<rparr>)" "tq_rel L (bucket_upd ReadyQ ?p tl Q) s1"
    using take_first(1) [OF sched_invD(1,2) [OF inv] rd refl] by blast
  note t = take_first(2) [OF sched_invD(1,2) [OF inv] rd refl] take_ready [OF inv rd]
  have c: "task_current s1 = ?c" "task s1 ?c = task s ?c"
    using s1(2,3) t(3) by (auto simp: tq_frame_iff)
  have rel: "tq_rel L (switch_queues s t Q) (os_task_makeready ?c s1)"
    unfolding switch_queues_def
    by (rule makeready_rel [OF s1(4) sched_invD(2) [OF inv]])
      (use c sched_invD(4) [OF inv] sched_inv_prio [OF inv, of ?c] in auto)
  have "task (os_task_makeready ?c s1) = switch_tasks s t"
    using s1(3) t(3) by (auto simp: makeready_fields switch_tasks_def fun_eq_iff)
  moreover have "tq_frame s (os_task_makeready ?c s1)"
    by (rule tq_frame_trans [OF s1(2) makeready_fields(2)])
  ultimately show "\<exists>s1. os_taskqueue_dequeue ReadyQ s = ok (Some t, s1) \<and> tq_frame s (os_task_makeready (task_current s1) s1) \<and>
      task (os_task_makeready (task_current s1) s1) = switch_tasks s t \<and>
      tq_rel L (switch_queues s t Q) (os_task_makeready (task_current s1) s1)"
    using s1(1) rel c(1) by (intro exI [of _ s1]) simp
  have "unat (prio_current (task s1 ?c)) < OS_CONFIG_PRIOCNT"
    using c(2) sched_inv_prio [OF inv, of ?c] by simp
  from ready_append [OF s1(4) this, of ReadyQ] t(1)
  have "ready (switch_queues s t Q) = prio_insert (\<lambda>t. prio_current (task s1 t)) ?c ts"
    unfolding switch_queues_def c(2) by simp
  moreover have "(\<lambda>t. prio_current (task s1 t)) = (\<lambda>t. prio_current (task s t))"
    using s1(3) by (auto simp: fun_eq_iff)
  ultimately show "ready (switch_queues s t Q) = prio_insert (\<lambda>t. prio_current (task s t)) ?c ts" by simp
qed

lemma schedule_preempts:
  assumes inv: "sched_inv L Q s" and dint: "arch_is_dint (sreg s)"
    and pre: "preempts higher_prio s (ready Q)" and rd: "ready Q = t # ts"
  shows "\<exists>s'. os_schedule k higher_prio s = ok (if isr_nesting s = 0 then Switched else Return (), s') \<and>
    sched_inv L (switch_queues s t Q) s' \<and> floating s' = floating s \<and> sched_frame s s' \<and> task_current s' = t \<and>
    sreg s' = (if isr_nesting s = 0 then kont_sreg (ctx_kont (task s t)) else sreg s) \<and>
    task s' = (if isr_nesting s = 0
      then (switch_tasks s t)(task_current s := (switch_tasks s t (task_current s))\<lparr>ctx_kont := k\<rparr>)
      else (switch_tasks s t)(t := (switch_tasks s t t)\<lparr>state := TASKSTATE_RUNNING\<rparr>))"
proof -
  let ?c = "task_current s"
  obtain s1 where s1: "os_taskqueue_dequeue ReadyQ s = ok (Some t, s1)"
    "tq_frame s (os_task_makeready (task_current s1) s1)"
    "task (os_task_makeready (task_current s1) s1) = switch_tasks s t"
    "tq_rel L (switch_queues s t Q) (os_task_makeready (task_current s1) s1)"
    using switch_inv(1) [OF inv rd] by blast
  let ?s2 = "os_task_makeready (task_current s1) s1"
  let ?s' = "if isr_nesting s = 0 then arch_context_switch k t ?s2
    else upd_task t (\<lambda>t. t\<lparr>state := TASKSTATE_RUNNING\<rparr>) (?s2\<lparr>task_current := t\<rparr>)"
  note t = take_ready [OF inv rd]
  have run: "os_schedule k higher_prio s = ok (if isr_nesting s = 0 then Switched else Return (), ?s')"
    using dint pre rd dequeue_prio_dequeue [OF inv rd] s1(1,2)
    by (auto simp: os_schedule_def preempts_def tq_frame_iff Let_def)
  have task: "task ?s' = (if isr_nesting s = 0
      then (switch_tasks s t)(?c := (switch_tasks s t ?c)\<lparr>ctx_kont := k\<rparr>)
      else (switch_tasks s t)(t := (switch_tasks s t t)\<lparr>state := TASKSTATE_RUNNING\<rparr>))"
    using s1(2,3) by (auto simp: arch_context_switch_def upd_task_def Let_def tq_frame_iff)
  have fr: "sched_frame s ?s'" "task_current ?s' = t"
    "sreg ?s' = (if isr_nesting s = 0 then kont_sreg (ctx_kont (task s t)) else sreg s)"
    using s1(2,3) t(2)
    by (auto simp: sched_frame_iff tq_frame_iff arch_context_switch_def upd_task_def Let_def switch_tasks_def)
  have "tq_rel L (switch_queues s t Q) ?s'"
    using s1(4) by (subst tq_rel_cong [of _ ?s2]) (auto simp: arch_context_switch_def upd_task_def Let_def)
  moreover have "task_ok (task ?s' x)" for x
    using sched_invD(3) [OF inv] t(2) unfolding task by (auto simp: switch_tasks_def)
  ultimately have "sched_inv L (switch_queues s t Q) ?s'"
    using inv t fr(2) unfolding sched_inv_def by (simp add: task) (auto simp: switch_tasks_def)
  moreover have "floating ?s' = floating s"
    using t sched_invD(5) [OF inv] unfolding floating_def task by (auto simp: switch_tasks_def)
  ultimately show ?thesis using run task fr by blast
qed

text \<open>At least the idle task is ready when another task runs.\<close>

lemma ready_nonempty:
  assumes inv: "sched_inv L Q s" and "task_current s \<noteq> task_idle"
  shows "task_idle \<in> set (ready Q)" and "\<exists>t ts. ready Q = t # ts"
proof -
  have "task_queue (task s task_idle) = Some ReadyQ" using sched_invD(6) [OF assms] .
  then have "task_idle \<in> set (Q ReadyQ (unat (prio_current (task s task_idle))))"
    using tq_relD(4) [OF sched_invD(1) [OF inv]] by blast
  then show idle: "task_idle \<in> set (ready Q)"
    using sched_inv_prio [OF inv, of task_idle] by (auto simp: set_flat_upto)
  then show "\<exists>t ts. ready Q = t # ts" by (cases "ready Q") auto
qed

text \<open>Leaving the CPU for the first ready task, with the current task in a state of its own.\<close>

lemma switch_away:
  assumes rel: "tq_rel L Q s" "ReadyQ \<in> L" and rd: "ready Q = t # ts" and ok: "\<forall>t. task_ok (task s t)"
    and t: "t \<noteq> task_current s"
  shows "\<exists>s1. os_taskqueue_dequeue ReadyQ s = ok (Some t, s1) \<and>
    task_current (arch_context_switch k t s1) = t \<and> sched_frame s (arch_context_switch k t s1) \<and>
    sreg (arch_context_switch k t s1) = kont_sreg (ctx_kont (task s t)) \<and>
    task (arch_context_switch k t s1) = (task s)(t := (task s t)\<lparr>task_queue := None\<rparr>,
      task_current s := (task s (task_current s))\<lparr>ctx_kont := k\<rparr>) \<and>
    tq_rel L (bucket_upd ReadyQ (unat (prio_current (task s t))) tl Q) (arch_context_switch k t s1)"
proof -
  obtain s1 where s1: "os_taskqueue_dequeue ReadyQ s = ok (Some t, s1)" "tq_frame s s1"
    "task s1 = (task s)(t := (task s t)\<lparr>task_queue := None\<rparr>)"
    "tq_rel L (bucket_upd ReadyQ (unat (prio_current (task s t))) tl Q) s1"
    using take_first(1) [OF rel rd refl] by blast
  moreover have "tq_rel L (bucket_upd ReadyQ (unat (prio_current (task s t))) tl Q) (arch_context_switch k t s1)"
    using s1(4) by (subst tq_rel_cong [of _ s1]) (auto simp: arch_context_switch_def upd_task_def Let_def)
  ultimately show ?thesis
    using t by (intro exI [of _ s1])
      (auto simp: arch_context_switch_def upd_task_def Let_def sched_frame_iff tq_frame_iff)
qed

lemma makewait_result:
  assumes inv: "sched_inv L Q s" and q: "q \<in> L" "q \<noteq> ReadyQ"
    and s': "s' = os_task_makewait q (queue_block q) s"
    and Q': "Q' = bucket_upd q (unat (prio_current (task s (task_current s)))) (\<lambda>ts. ts @ [task_current s]) Q"
  shows "tq_frame s s'" and "tq_rel L Q' s'" and "\<forall>t. task_ok (task s' t)"
    and "task s' = (task s)(task_current s := (task s (task_current s))
      \<lparr>state := TASKSTATE_WAIT, block_type := queue_block q, task_queue := Some q\<rparr>)"
    and "flat (Q' q) = prio_insert (\<lambda>t. prio_current (task s t)) (task_current s) (flat (Q q))"
    and "ready Q' = ready Q"
proof -
  let ?c = "task_current s"
  let ?s1 = "upd_task ?c (\<lambda>k. k\<lparr>state := TASKSTATE_WAIT, block_type := queue_block q\<rparr>) s"
  have eq: "s' = os_taskqueue_enqueue q ?c ?s1"
    by (simp add: s' os_task_makewait_def upd_task_def Let_def)
  show "tq_frame s s'"
    unfolding eq by (rule tq_frame_trans [OF tq_frame_upd_task enqueue_fields(2)])
  show "tq_rel L Q' s'"
    unfolding eq Q' by (rule enqueue_rel [OF _ q(1)])
      (use sched_invD(1,4) [OF inv] sched_inv_prio [OF inv] in \<open>auto simp: tq_rel_upd_task task_upd_task\<close>)
  show task: "task s' = (task s)(?c := (task s ?c)
      \<lparr>state := TASKSTATE_WAIT, block_type := queue_block q, task_queue := Some q\<rparr>)"
    by (simp add: eq enqueue_fields task_upd_task)
  show "\<forall>t. task_ok (task s' t)"
    using sched_invD(3) [OF inv] q(2) by (auto simp: task task_ok_def)
  show "flat (Q' q) = prio_insert (\<lambda>t. prio_current (task s t)) ?c (flat (Q q))"
    unfolding Q' by (rule ready_append [OF sched_invD(1) [OF inv] sched_inv_prio [OF inv]])
  show "ready Q' = ready Q" using q(2) by (simp add: Q' bucket_upd_def)
qed

lemma block_switch_result:
  assumes inv: "sched_inv L Q s" and q: "q \<in> L" "q \<noteq> ReadyQ" and c: "task_current s \<noteq> task_idle"
    and rd: "ready Q = t # ts"
  shows "\<exists>s' Q'. os_task_block_switch k q (queue_block q) s = ok s' \<and> sched_inv L Q' s' \<and>
    floating s' = floating s \<and> sched_frame s s' \<and> task_current s' = t \<and>
    sreg s' = kont_sreg (ctx_kont (task s t)) \<and>
    task s' = (task s)(t := (task s t)\<lparr>task_queue := None\<rparr>,
      task_current s := (task s (task_current s))\<lparr>state := TASKSTATE_WAIT, block_type := queue_block q,
        task_queue := Some q, ctx_kont := k\<rparr>) \<and>
    flat (Q' q) = prio_insert (\<lambda>t. prio_current (task s t)) (task_current s) (flat (Q q)) \<and>
    ready Q' = ts \<and> (\<forall>q'. q' \<notin> {q, ReadyQ} \<longrightarrow> Q' q' = Q q')"
proof -
  let ?c = "task_current s" and ?s1 = "os_task_makewait q (queue_block q) s"
  let ?Q1 = "bucket_upd q (unat (prio_current (task s ?c))) (\<lambda>ts. ts @ [?c]) Q"
  let ?Q' = "bucket_upd ReadyQ (unat (prio_current (task s t))) tl ?Q1"
  note w = makewait_result [OF inv q refl refl]
  note t = take_ready [OF inv rd]
  have c1: "task_current ?s1 = ?c" using w(1) by (simp add: tq_frame_iff)
  have rd1: "ready ?Q1 = t # ts" using w(6) rd by simp
  have pr: "prio_current (task ?s1 t) = prio_current (task s t)" "task ?s1 t = task s t"
    using w(4) t(2) by auto
  obtain s2 where s2: "os_taskqueue_dequeue ReadyQ ?s1 = ok (Some t, s2)"
    "task_current (arch_context_switch k t s2) = t" "sched_frame ?s1 (arch_context_switch k t s2)"
    "sreg (arch_context_switch k t s2) = kont_sreg (ctx_kont (task s t))"
    "task (arch_context_switch k t s2) = (task ?s1)(t := (task ?s1 t)\<lparr>task_queue := None\<rparr>,
      ?c := (task ?s1 ?c)\<lparr>ctx_kont := k\<rparr>)" "tq_rel L ?Q' (arch_context_switch k t s2)"
    using switch_away [OF w(2) sched_invD(2) [OF inv] rd1 w(3), of k] t(2) pr c1 by auto
  let ?s' = "arch_context_switch k t s2"
  have task: "task ?s' = (task s)(t := (task s t)\<lparr>task_queue := None\<rparr>,
      ?c := (task s ?c)\<lparr>state := TASKSTATE_WAIT, block_type := queue_block q,
        task_queue := Some q, ctx_kont := k\<rparr>)"
    using s2(5) w(4) t(2) by auto
  have "task_ok (task ?s' x)" for x
    using sched_invD(3) [OF inv, of x] q(2) by (auto simp: task task_ok_def)
  then have "sched_inv L ?Q' ?s'"
    using s2(2,6) t sched_invD(2,6) [OF inv] c by (auto simp: sched_inv_def task)
  moreover have "floating ?s' = floating s"
    using t sched_invD(5) [OF inv] by (auto simp: floating_def task)
  moreover have "ready ?Q' = ts"
    using take_first(2) [OF w(2) sched_invD(2) [OF inv] rd1 refl] pr(1) by simp
  moreover have "sched_frame s ?s'"
    using tq_sched_frame [OF w(1)] s2(3) by (rule sched_frame_trans)
  moreover have "os_task_block_switch k q (queue_block q) s = ok ?s'"
    using s2(1) by (simp add: os_task_block_switch_def Let_def)
  ultimately show ?thesis
    using s2(2,4) task w(5) q(2) by (intro exI [of _ ?s'] exI [of _ ?Q']) (auto simp: bucket_upd_def)
qed

section \<open>Creation of tasks\<close>

lemma task_init_fields:
  "task (os_task_init t prio s) = (task s)(t := zero_task\<lparr>prio_base := prio, prio_current := prio,
     state := TASKSTATE_READY, block_type := OS_TASKBLOCK_INVALID\<rparr>)"
  "qmask (os_task_init t prio s) = qmask s"
  "tqh (os_task_init t prio s) = list_init (TaskLink t) (tqh s)"
  "mxh (os_task_init t prio s) = list_init (MtxList t) (mxh s)"
  "task_current (os_task_init t prio s) = task_current s"
  "isr_nesting (os_task_init t prio s) = isr_nesting s"
  "sched_lock (os_task_init t prio s) = sched_lock s"
  "sreg (os_task_init t prio s) = sreg s"
  by (simp_all add: os_task_init_def upd_task_def Let_def)

lemma task_init_rel:
  assumes rel: "tq_rel L Q s" and free: "task_queue (task s t) = None"
  shows "tq_rel L Q (os_task_init t prio s)"
proof -
  have notin: "t \<notin> set (Q q p)" for q p using tq_relD(3) [OF rel, of t q p] free by auto
  have "dlist (list_init (TaskLink t) (tqh s)) (Bucket q p) (map TaskLink (Q q p))"
    if "q \<in> L" "p < OS_CONFIG_PRIOCNT" for q p
    using tq_relD(1) [OF rel that]
    by (subst dlist_cong [of _ _ "tqh s"]) (use notin in \<open>auto intro!: init_frame\<close>)
  then have "tq_rel L Q (s\<lparr>tqh := list_init (TaskLink t) (tqh s)\<rparr>)"
    using tq_relD(2-4) [OF rel] by (intro tq_relI) auto
  then have "tq_rel L Q (upd_task t (\<lambda>_. task (os_task_init t prio s) t)
      (s\<lparr>tqh := list_init (TaskLink t) (tqh s)\<rparr>))"
    by (rule tq_rel_upd_free) (simp_all add: free task_init_fields zero_task_def)
  then show ?thesis
    by (rule tq_rel_cong [THEN iffD1, rotated -1]) (simp_all add: upd_task_def task_init_fields)
qed

lemma task_init_inv:
  assumes inv: "sched_inv L Q s" and t: "task_queue (task s t) = None" "t \<noteq> task_current s"
    and prio: "unat prio < OS_CONFIG_PRIOCNT"
  shows "sched_inv L Q (os_task_init t prio s)" and "floating (os_task_init t prio s) = floating s - {t}"
  using inv task_init_rel [OF sched_invD(1) [OF inv] t(1)] t prio
  by (auto simp: sched_inv_def task_init_fields zero_task_def task_ok_def floating_def)

lemma enqueue_ready_inv:
  assumes inv: "sched_inv L Q s" and t: "task_queue (task s t) = None" "t \<noteq> task_current s"
    "state (task s t) = TASKSTATE_READY"
  shows "sched_inv L (bucket_upd ReadyQ (unat (prio_current (task s t))) (\<lambda>ts. ts @ [t]) Q)
      (os_taskqueue_enqueue ReadyQ t s)"
    and "floating (os_taskqueue_enqueue ReadyQ t s) = floating s"
proof -
  have "(task s t)\<lparr>state := TASKSTATE_READY\<rparr> = task s t" using t(3) by (metis os_task.surjective os_task.update_convs(5))
  then have eq: "os_task_makeready t s = os_taskqueue_enqueue ReadyQ t s"
    by (simp add: os_task_makeready_def upd_task_def)
  show "sched_inv L (bucket_upd ReadyQ (unat (prio_current (task s t))) (\<lambda>ts. ts @ [t]) Q)
      (os_taskqueue_enqueue ReadyQ t s)"
    using makeready_inv(1) [OF inv t(1,2)] unfolding eq .
  show "floating (os_taskqueue_enqueue ReadyQ t s) = floating s"
    using t(3) by (auto simp: floating_def enqueue_fields)
qed

text \<open>The stores of \<open>arch_task_init\<close>: byte \<open>i\<close> of the frame is \<open>i\<close> below the start.\<close>

lemma store_desc_result:
  assumes "length bs \<le> 2 ^ 16"
  shows "fst (store_desc bs sp m) = sp - word_of_nat (length bs)"
    and "i < length bs \<Longrightarrow> snd (store_desc bs sp m) (sp - word_of_nat i) = bs ! i"
    and "unat (sp - a) \<ge> length bs \<Longrightarrow> snd (store_desc bs sp m) a = m a"
  using assms
proof (induction bs arbitrary: sp m i a)
  case (Cons b bs)
  { case 1 then show ?case using Cons.IH(1) [of "sp - 1"] by simp }
  { case 2
    show ?case
    proof (cases i)
      case 0
      have "snd (store_desc bs (sp - 1) (m(sp := b))) sp = (m(sp := b)) sp"
      proof (rule Cons.IH(3))
        have "sp - 1 - sp = - 1" by simp
        then show "length bs \<le> unat (sp - 1 - sp)" using 2 by (simp add: unsigned_minus_1_eq_mask mask_eq_exp_minus_1)
      qed (use 2 in simp)
      then show ?thesis using 0 by simp
    next
      case (Suc j)
      then show ?thesis using Cons.IH(2) [of j "sp - 1"] 2 by (simp add: diff_diff_eq)
    qed }
  { case 3
    then have ne: "a \<noteq> sp" by auto
    have "unat (sp - 1 - a) = unat (sp - a) - 1"
      using ne unat_minus_one [of "sp - a"] by (simp add: diff_right_commute)
    then show ?case using Cons.IH(3) [of "sp - 1" a] 3 ne by simp }
qed simp_all

lemma frame_length: "length (avr_initial_frame start stack sz proc prm) = 35"
  by (simp add: avr_initial_frame_def)

text \<open>The task record and the memory that \<open>os_task_create\<close> builds before it enqueues the task.\<close>

definition created :: "tid \<Rightarrow> u8 \<Rightarrow> u16 \<Rightarrow> u16 \<Rightarrow> u16 \<Rightarrow> u16 \<Rightarrow> kstate \<Rightarrow> kstate" where
  "created t prio stack sz proc prm s =
     arch_task_init t stack sz proc prm (os_task_check_init t stack sz (os_task_init t prio s))"

lemma created_task:
  "task (created t prio stack sz proc prm s) = (task s)(t := zero_task\<lparr>prio_base := prio,
     prio_current := prio, state := TASKSTATE_READY, stack_size := sz, stack_end := stack,
     ctx_sp := stack + sz - 36, ctx_kont := K_Start proc prm\<rparr>)"
  using store_desc_result(1) [of "avr_initial_frame _ stack sz proc prm" "stack + sz - 1"]
  by (auto simp: created_def arch_task_init_def os_task_check_init_def task_init_fields upd_task_def
      frame_length zero_task_def Let_def case_prod_beta)

lemma created_mem:
  assumes "35 \<le> unat sz"
  shows "i < 35 \<Longrightarrow> mem (created t prio stack sz proc prm s) (stack + sz - 1 - word_of_nat i) =
      avr_initial_frame (task_start_pc s) stack sz proc prm ! i"
    and "35 < unat sz \<Longrightarrow> mem (created t prio stack sz proc prm s) stack = OS_STACK_FILLPATERN"
    and "unat sz \<le> unat (a - stack) \<Longrightarrow> mem (created t prio stack sz proc prm s) a = mem s a"
proof -
  let ?f = "avr_initial_frame (task_start_pc s) stack sz proc prm" and ?sp = "stack + sz - 1"
  let ?m = "\<lambda>a. if unat (a - stack) < unat sz then OS_STACK_FILLPATERN else mem s a"
  have m: "mem (created t prio stack sz proc prm s) = snd (store_desc ?f ?sp ?m)"
    by (simp add: created_def arch_task_init_def os_task_check_init_def os_task_init_def upd_task_def
        Let_def case_prod_beta cong: if_cong)
  note st = store_desc_result [of ?f, unfolded frame_length]
  show "i < 35 \<Longrightarrow> mem (created t prio stack sz proc prm s) (?sp - word_of_nat i) = ?f ! i"
    using st(2) [of i ?sp ?m] by (simp add: m)
  have sz: "unat (sz - 1) = unat sz - 1" using assms unat_minus_one [of sz] by (cases "sz = 0") auto
  show "mem (created t prio stack sz proc prm s) stack = OS_STACK_FILLPATERN" if "35 < unat sz"
    using st(3) [of ?sp stack ?m] sz that by (simp add: m)
  show "mem (created t prio stack sz proc prm s) a = mem s a" if a: "unat sz \<le> unat (a - stack)"
  proof -
    have e: "?sp - a = sz + (- 1 - (a - stack))" by simp
    have n: "unat (- 1 - (a - stack)) = 65535 - unat (a - stack)"
      by (subst unat_sub) (simp_all add: unsigned_minus_1_eq_mask mask_eq_exp_minus_1)
    have u: "unat (sz + (- 1 - (a - stack))) = unat sz + (65535 - unat (a - stack))"
      using a n unat_u16_less [of "a - stack"] by (subst unat_add_lem [THEN iffD1]) simp_all
    have "35 \<le> unat (?sp - a)" unfolding e u using assms by simp
    then show ?thesis using st(3) [of ?sp a ?m] a by (simp add: m)
  qed
qed

lemma created_frame:
  "tqh (created t prio stack sz proc prm s) = list_init (TaskLink t) (tqh s)"
  "qmask (created t prio stack sz proc prm s) = qmask s"
  "mxh (created t prio stack sz proc prm s) = list_init (MtxList t) (mxh s)"
  "task_current (created t prio stack sz proc prm s) = task_current s"
  "isr_nesting (created t prio stack sz proc prm s) = isr_nesting s"
  "sched_lock (created t prio stack sz proc prm s) = sched_lock s"
  "waitqueue_current (created t prio stack sz proc prm s) = waitqueue_current s"
  "sreg (created t prio stack sz proc prm s) = sreg s"
  "tmh (created t prio stack sz proc prm s) = tmh s"
  "tmr (created t prio stack sz proc prm s) = tmr s"
  "mtx (created t prio stack sz proc prm s) = mtx s"
  "sem (created t prio stack sz proc prm s) = sem s"
  "ticks_cnt (created t prio stack sz proc prm s) = ticks_cnt s"
  "isr_saved (created t prio stack sz proc prm s) = isr_saved s"
  "timer_tick_unsynch (created t prio stack sz proc prm s) = timer_tick_unsynch s"
  "task_start_pc (created t prio stack sz proc prm s) = task_start_pc s"
  by (simp_all add: created_def arch_task_init_def os_task_check_init_def os_task_init_def
      upd_task_def Let_def case_prod_beta)

lemma created_inv:
  assumes inv: "sched_inv L Q s" and t: "task_queue (task s t) = None" "t \<noteq> task_current s"
    and prio: "unat prio < OS_CONFIG_PRIOCNT"
  shows "sched_inv L Q (created t prio stack sz proc prm s)"
    and "floating (created t prio stack sz proc prm s) = floating s - {t}"
proof -
  let ?s = "created t prio stack sz proc prm s"
  have "tq_rel L Q ?s"
    using task_init_rel [OF sched_invD(1) [OF inv] t(1), of prio]
    by (rule tq_rel_cong [THEN iffD2, rotated -1])
      (auto simp: created_frame created_task task_init_fields zero_task_def)
  then show "sched_inv L Q ?s" and "floating ?s = floating s - {t}"
    using inv t prio
    by (auto simp: sched_inv_def created_task created_frame zero_task_def task_ok_def floating_def)
qed

section \<open>Scheduling at the end of a call\<close>

text \<open>What the scheduler leaves of the task records.\<close>

definition same_tcb :: "os_task \<Rightarrow> os_task \<Rightarrow> bool" where
  "same_tcb k k' \<longleftrightarrow> prio_base k' = prio_base k \<and> prio_current k' = prio_current k \<and>
     block_type k' = block_type k \<and> timer k' = timer k \<and> join_sem k' = join_sem k \<and>
     ret_block k' = ret_block k \<and> ctx_sp k' = ctx_sp k \<and> stack_end k' = stack_end k \<and>
     (state k' = TASKSTATE_WAIT \<longleftrightarrow> state k = TASKSTATE_WAIT) \<and> state k' \<in> {state k, TASKSTATE_READY, TASKSTATE_RUNNING}"

definition same_tasks :: "kstate \<Rightarrow> kstate \<Rightarrow> bool" where
  "same_tasks s s' \<longleftrightarrow> (\<forall>t. same_tcb (task s t) (task s' t))"

lemma same_tasks_refl [simp]: "same_tasks s s"
  by (simp add: same_tasks_def same_tcb_def)

lemma same_tasks_eq: "task s' = task s \<Longrightarrow> same_tasks s s'"
  by (simp add: same_tasks_def same_tcb_def)

lemma same_tcb_trans: "same_tcb k k' \<Longrightarrow> same_tcb k' k'' \<Longrightarrow> same_tcb k k''"
  by (auto simp: same_tcb_def)

lemma same_tasks_trans [trans]: "same_tasks s s' \<Longrightarrow> same_tasks s' s'' \<Longrightarrow> same_tasks s s''"
  unfolding same_tasks_def using same_tcb_trans by blast

lemma schedule_exit_result:
  assumes inv: "sched_inv L Q s" and dint: "arch_is_dint (sreg s)"
  shows "\<exists>r s' Q'. kbind (os_schedule k higher s) (sched_exit c v) = ok (r, s') \<and>
    sched_inv L Q' s' \<and> floating s' = floating s \<and> sched_frame s s' \<and> same_tasks s s' \<and>
    (\<forall>q. q \<noteq> ReadyQ \<longrightarrow> Q' q = Q q) \<and>
    (\<forall>t. t \<noteq> task_current s \<longrightarrow> ctx_kont (task s' t) = ctx_kont (task s t)) \<and>
    (\<forall>t. t \<notin> {task_current s, task_current s'} \<longrightarrow> task s' t = task s t) \<and>
    (if r = Switched
     then ctx_kont (task s' (task_current s)) = k \<and> sreg s' = kont_sreg (ctx_kont (task s (task_current s')))
     else ctx_kont (task s' (task_current s)) = ctx_kont (task s (task_current s)) \<and> sreg s' = c) \<and>
    (if preempts higher s (ready Q)
     then task_current s' = hd (ready Q) \<and> (r = Switched \<longleftrightarrow> isr_nesting s = 0) \<and>
       ready Q' = prio_insert (\<lambda>t. prio_current (task s t)) (task_current s) (tl (ready Q))
     else r = Return v \<and> s' = s\<lparr>sreg := c\<rparr> \<and> Q' = Q)"
proof (cases "preempts higher s (ready Q)")
  case False
  have "sched_inv L Q (s\<lparr>sreg := c\<rparr>)" "floating (s\<lparr>sreg := c\<rparr>) = floating s"
    using inv sched_inv_cong [of "s\<lparr>sreg := c\<rparr>" s] by auto
  then show ?thesis
    using schedule_stays [OF inv dint False] False
    by (intro exI [of _ "Return v"] exI [of _ "s\<lparr>sreg := c\<rparr>"] exI [of _ Q])
      (auto simp: sched_exit_def sched_frame_iff same_tasks_eq)
next
  case True
  then obtain t ts where rd: "ready Q = t # ts" by (cases "ready Q") (auto simp: preempts_def)
  obtain s1 where s1: "os_schedule k higher s = ok (if isr_nesting s = 0 then Switched else Return (), s1)"
    "sched_inv L (switch_queues s t Q) s1" "floating s1 = floating s" "sched_frame s s1" "task_current s1 = t"
    "sreg s1 = (if isr_nesting s = 0 then kont_sreg (ctx_kont (task s t)) else sreg s)"
    "task s1 = (if isr_nesting s = 0
      then (switch_tasks s t)(task_current s := (switch_tasks s t (task_current s))\<lparr>ctx_kont := k\<rparr>)
      else (switch_tasks s t)(t := (switch_tasks s t t)\<lparr>state := TASKSTATE_RUNNING\<rparr>))"
    using schedule_preempts [OF inv dint True rd, of k] by blast
  let ?s' = "if isr_nesting s = 0 then s1 else s1\<lparr>sreg := c\<rparr>"
  have "sched_inv L (switch_queues s t Q) ?s'" "floating ?s' = floating s"
    using s1(2,3) sched_inv_cong [of "s1\<lparr>sreg := c\<rparr>" s1] by auto
  moreover have "same_tasks s ?s'"
    using s1(7) take_ready [OF inv rd] sched_invD(5) [OF inv]
    by (auto simp: same_tasks_def same_tcb_def switch_tasks_def)
  moreover have "\<forall>t. t \<noteq> task_current s \<longrightarrow> ctx_kont (task ?s' t) = ctx_kont (task s t)"
    using s1(7) by (auto simp: switch_tasks_def)
  moreover have "kbind (os_schedule k higher s) (sched_exit c v) =
      ok (if isr_nesting s = 0 then Switched else Return v, ?s')"
    using s1(1) by (simp add: sched_exit_def)
  moreover have "\<forall>q. q \<noteq> ReadyQ \<longrightarrow> switch_queues s t Q q = Q q"
    by (simp add: switch_queues_def bucket_upd_def)
  moreover have "\<forall>u. u \<notin> {task_current s, t} \<longrightarrow> task ?s' u = task s u"
    using s1(7) by (auto simp: switch_tasks_def)
  moreover have "if isr_nesting s = 0 then ctx_kont (task ?s' (task_current s)) = k \<and> sreg ?s' = kont_sreg (ctx_kont (task s t))
      else ctx_kont (task ?s' (task_current s)) = ctx_kont (task s (task_current s)) \<and> sreg ?s' = c"
    using s1(6,7) take_ready(2) [OF inv rd] by (auto simp: switch_tasks_def)
  ultimately show ?thesis
    using True rd s1(4,5) switch_inv(2) [OF inv rd]
    by (intro exI [of _ "if isr_nesting s = 0 then Switched else Return v"] exI [of _ ?s']
        exI [of _ "switch_queues s t Q"]) (auto simp: sched_frame_iff)
qed

lemma flat_upto_empty [simp]: "flat_upto n (\<lambda>_. []) = []"
  by (induction n) simp_all

lemma flat_upto_sorted:
  "\<forall>p < n. \<forall>t \<in> set (B p). unat (pr t) = p \<Longrightarrow> prio_sorted (pr :: tid \<Rightarrow> u8) (flat_upto n B)"
proof (induction n)
  case (Suc n)
  have eqn: "\<forall>x \<in> set (B n). unat (pr x) = n" using Suc.prems by simp
  have "\<forall>x \<in> set (B n). \<forall>y \<in> set (flat_upto n B). pr y \<le> pr x"
  proof (intro ballI)
    fix x y assume x: "x \<in> set (B n)" and "y \<in> set (flat_upto n B)"
    then obtain p where "p < n" "y \<in> set (B p)" by (auto simp: set_flat_upto)
    then have "unat (pr y) = p" "unat (pr x) = n" using Suc.prems x by auto
    then show "pr y \<le> pr x" using \<open>p < n\<close> by (simp add: word_le_nat_alt)
  qed
  moreover have "sorted_wrt (\<lambda>x y. pr y \<le> pr x) (B n)"
    by (rule sorted_wrt_mono_rel [of _ "\<lambda>_ _. True"])
      (use eqn in \<open>simp_all add: word_le_nat_alt sorted_wrt_true\<close>)
  moreover have "prio_sorted pr (flat_upto n B)" using Suc by simp
  ultimately show ?case by (simp add: prio_sorted_def sorted_wrt_append)
qed (simp add: prio_sorted_def)

lemma flat_sorted: "tq_rel L Q s \<Longrightarrow> prio_sorted (\<lambda>t. prio_current (task s t)) (flat (Q q))"
  using tq_relD(3) [of L Q s _ q] by (intro flat_upto_sorted) blast

lemma ready_le_head:
  assumes "tq_rel L Q s" and "ready Q = t # ts" and "x \<in> set (ready Q)"
  shows "prio_current (task s x) \<le> prio_current (task s t)"
  using flat_sorted [OF assms(1), of ReadyQ] assms(2,3) by (auto simp: prio_sorted_def)

section \<open>Properties\<close>

text \<open>C8. \<open>os_schedule\<close> keeps the scheduler invariant, loses no task, and when it may switch (not
  in a nested interrupt, scheduler not locked) it leaves a current task that no ready task
  exceeds in priority; with the scheduler locked or in a nested interrupt it changes nothing.
  It switches the context only outside of interrupts.\<close>

theorem schedule_highest:
  assumes inv: "sched_inv L Q s" and dint: "arch_is_dint (sreg s)" and h: "higher_prio \<le> 1"
  shows "\<exists>r s' Q'. os_schedule k higher_prio s = ok (r, s') \<and> sched_inv L Q' s' \<and>
    insert (task_current s') (set (ready Q')) = insert (task_current s) (set (ready Q)) \<and>
    (r = Switched \<longrightarrow> isr_nesting s = 0) \<and>
    (\<forall>t. prio_current (task s' t) = prio_current (task s t)) \<and>
    (if isr_nesting s \<le> 1 \<and> sched_lock s = 0
     then \<forall>t \<in> set (ready Q'). prio_current (task s' t) \<le> prio_current (task s' (task_current s'))
     else r = Return () \<and> s' = s)"
proof (cases "preempts higher_prio s (ready Q)")
  case False
  have "prio_current (task s t) \<le> prio_current (task s (task_current s))"
    if t: "t \<in> set (ready Q)" and c: "isr_nesting s \<le> 1 \<and> sched_lock s = 0" for t
  proof -
    obtain u us where rd: "ready Q = u # us" using t by (cases "ready Q") auto
    have "prio_current (task s u) < prio_current (task s (task_current s)) + higher_prio"
      using False c rd by (simp add: preempts_def not_le)
    moreover have "higher_prio = 0 \<or> higher_prio = 1"
      using h by (simp add: word_le_nat_alt u8_eq_iff_unat) linarith
    ultimately have "prio_current (task s u) \<le> prio_current (task s (task_current s))"
      using sched_inv_prio [OF inv, of "task_current s"]
      by (auto simp: OS_CONFIG_PRIOCNT_def word_less_nat_alt word_le_nat_alt unat_word_ariths)
    then show ?thesis using ready_le_head [OF sched_invD(1) [OF inv] rd t] by simp
  qed
  then show ?thesis using schedule_stays [OF inv dint False, of k] inv by auto
next
  case True
  then obtain t ts where rd: "ready Q = t # ts" by (cases "ready Q") (auto simp: preempts_def)
  obtain s' where s': "os_schedule k higher_prio s = ok (if isr_nesting s = 0 then Switched else Return (), s')"
    "sched_inv L (switch_queues s t Q) s'" "task_current s' = t"
    "task s' = (if isr_nesting s = 0
      then (switch_tasks s t)(task_current s := (switch_tasks s t (task_current s))\<lparr>ctx_kont := k\<rparr>)
      else (switch_tasks s t)(t := (switch_tasks s t t)\<lparr>state := TASKSTATE_RUNNING\<rparr>))"
    using schedule_preempts [OF inv dint True rd, of k] by blast
  have set: "set (ready (switch_queues s t Q)) = insert (task_current s) (set ts)"
    using switch_inv(2) [OF inv rd] by (simp add: set_prio_insert)
  have pr: "prio_current (task s' x) = prio_current (task s x)" for x
    using s'(4) by (auto simp: switch_tasks_def)
  have "prio_current (task s (task_current s)) \<le> prio_current (task s t)"
    using True h rd sched_inv_prio [OF inv, of "task_current s"] sched_inv_prio [OF inv, of t]
    by (auto simp: preempts_def OS_CONFIG_PRIOCNT_def word_le_nat_alt unat_word_ariths)
  then have "\<forall>x \<in> set (ready (switch_queues s t Q)). prio_current (task s' x) \<le> prio_current (task s' t)"
    using ready_le_head [OF sched_invD(1) [OF inv] rd] rd set pr by auto
  moreover have "isr_nesting s \<le> 1 \<and> sched_lock s = 0" using True by (simp add: preempts_def)
  moreover have "insert t (set (ready (switch_queues s t Q))) = insert (task_current s) (set (ready Q))"
    using set rd by auto
  ultimately show ?thesis using s'(1-3) pr
    by (intro exI [of _ "if isr_nesting s = 0 then Switched else Return ()"] exI [of _ s']
        exI [of _ "switch_queues s t Q"]) simp
qed

text \<open>A task that blocks (\<open>os_task_block_switch\<close>) is always replaced: the ready queue is never
  empty since it holds at least the idle task, so no NULL is dereferenced; the new task is the
  oldest ready task of the highest priority, and the blocked one is queued in the object's
  queue behind all waiting tasks of at least its priority.\<close>

theorem block_switch_never_null:
  assumes inv: "sched_inv L Q s" and q: "q \<in> L" "q \<noteq> ReadyQ" and c: "task_current s \<noteq> task_idle"
  shows "task_idle \<in> set (ready Q) \<and>
    (\<exists>s' Q'. os_task_block_switch k q (queue_block q) s = ok s' \<and> sched_inv L Q' s' \<and>
      task_current s' = hd (ready Q) \<and> ready Q' = tl (ready Q) \<and>
      (\<forall>t \<in> set (ready Q). prio_current (task s t) \<le> prio_current (task s (hd (ready Q)))) \<and>
      flat (Q' q) = prio_insert (\<lambda>t. prio_current (task s t)) (task_current s) (flat (Q q)) \<and>
      state (task s' (task_current s)) = TASKSTATE_WAIT)"
proof -
  obtain t ts where rd: "ready Q = t # ts" using ready_nonempty(2) [OF inv c] by blast
  obtain s' Q' where s': "os_task_block_switch k q (queue_block q) s = ok s'" "sched_inv L Q' s'"
    "task_current s' = t" "ready Q' = ts"
    "flat (Q' q) = prio_insert (\<lambda>t. prio_current (task s t)) (task_current s) (flat (Q q))"
    "task s' = (task s)(t := (task s t)\<lparr>task_queue := None\<rparr>,
      task_current s := (task s (task_current s))\<lparr>state := TASKSTATE_WAIT, block_type := queue_block q,
        task_queue := Some q, ctx_kont := k\<rparr>)"
    using block_switch_result [OF inv q c rd, of k] by blast
  moreover have "state (task s' (task_current s)) = TASKSTATE_WAIT" by (simp add: s'(6))
  ultimately show ?thesis
    using ready_nonempty(1) [OF inv c] ready_le_head [OF sched_invD(1) [OF inv] rd] rd by auto
qed

text \<open>The state in which \<open>os_task_create\<close> calls the scheduler.\<close>

lemma create_enqueued:
  assumes inv: "sched_inv L Q s" and t: "task_queue (task s t) = None" "t \<noteq> task_current s"
    and prio: "unat prio < OS_CONFIG_PRIOCNT"
    and s2: "s2 = os_taskqueue_enqueue ReadyQ t
      ((created t prio stack sz proc prm s)\<lparr>sreg := arch_dint (sreg s)\<rparr>)"
  shows "sched_inv L (bucket_upd ReadyQ (unat prio) (\<lambda>ts. ts @ [t]) Q) s2"
    and "ready (bucket_upd ReadyQ (unat prio) (\<lambda>ts. ts @ [t]) Q) =
      prio_insert (\<lambda>x. prio_current (task s2 x)) t (ready Q)"
    and "tq_frame ((created t prio stack sz proc prm s)\<lparr>sreg := arch_dint (sreg s)\<rparr>) s2"
    and "task s2 = (task s)(t := zero_task\<lparr>prio_base := prio, prio_current := prio,
      state := TASKSTATE_READY, stack_size := sz, stack_end := stack, ctx_sp := stack + sz - 36,
      ctx_kont := K_Start proc prm, task_queue := Some ReadyQ\<rparr>)"
    and "floating s2 = floating s - {t}"
proof -
  let ?s1 = "(created t prio stack sz proc prm s)\<lparr>sreg := arch_dint (sreg s)\<rparr>"
  have inv1: "sched_inv L Q ?s1" "floating ?s1 = floating s - {t}"
    using created_inv [OF inv t prio] sched_inv_cong [of ?s1 "created t prio stack sz proc prm s"] by auto
  have t1: "task ?s1 t = zero_task\<lparr>prio_base := prio, prio_current := prio, state := TASKSTATE_READY,
      stack_size := sz, stack_end := stack, ctx_sp := stack + sz - 36, ctx_kont := K_Start proc prm\<rparr>"
    by (simp add: created_task)
  have p1: "prio_current (task ?s1 t) = prio" using t1 by simp
  have f1: "task_queue (task ?s1 t) = None" "t \<noteq> task_current ?s1" "state (task ?s1 t) = TASKSTATE_READY"
    using t(2) t1 by (auto simp: zero_task_def created_frame)
  show "sched_inv L (bucket_upd ReadyQ (unat prio) (\<lambda>ts. ts @ [t]) Q) s2" "floating s2 = floating s - {t}"
    using enqueue_ready_inv [OF inv1(1) f1] inv1(2) unfolding s2 p1 by simp_all
  have eq: "(\<lambda>x. prio_current (task ?s1 x)) = (\<lambda>x. prio_current (task s2 x))"
    by (auto simp: s2 enqueue_fields fun_eq_iff)
  show "ready (bucket_upd ReadyQ (unat prio) (\<lambda>ts. ts @ [t]) Q) =
      prio_insert (\<lambda>x. prio_current (task s2 x)) t (ready Q)"
    using ready_append [OF sched_invD(1) [OF inv1(1)] sched_inv_prio [OF inv1(1)], of ReadyQ t]
    unfolding eq p1 .
  show "tq_frame ?s1 s2" unfolding s2 by (rule enqueue_fields)
  show "task s2 = (task s)(t := zero_task\<lparr>prio_base := prio, prio_current := prio,
      state := TASKSTATE_READY, stack_size := sz, stack_end := stack, ctx_sp := stack + sz - 36,
      ctx_kont := K_Start proc prm, task_queue := Some ReadyQ\<rparr>)"
    by (simp add: s2 enqueue_fields created_task zero_task_def)
qed

lemma task_create_valid:
  assumes inv: "sched_inv L Q s" and t: "task_queue (task s t) = None" "t \<noteq> task_current s"
    and a: "isr_nesting s = 0" "waitqueue_current s = None" "0 < prio" "unat prio < OS_CONFIG_PRIOCNT"
    "stack \<noteq> 0" "OS_STACK_MINSIZE \<le> sz"
  shows "\<exists>r s' Q' rd. os_task_create t prio stack sz proc prm s = ok (r, s') \<and> sched_inv L Q' s' \<and>
    rd = prio_insert (\<lambda>x. prio_current (task s' x)) t (ready Q) \<and>
    (if sched_lock s = 0 \<and> prio_current (task s (task_current s)) < prio_current (task s' (hd rd))
     then r = Switched \<and> task_current s' = hd rd
     else r = Return Void \<and> task_current s' = task_current s \<and> ready Q' = rd) \<and>
    prio_current (task s' t) = prio \<and> (\<forall>x. x \<noteq> t \<longrightarrow> prio_current (task s' x) = prio_current (task s x)) \<and>
        ctx_kont (task s' t) = K_Start proc prm \<and>
    ctx_sp (task s' t) = stack + sz - 36 \<and>
    (\<forall>i < 35. mem s' (stack + sz - 1 - word_of_nat i) =
       avr_initial_frame (task_start_pc s) stack sz proc prm ! i) \<and>
    os_task_check t s' = ok s' \<and> (\<forall>a. unat sz \<le> unat (a - stack) \<longrightarrow> mem s' a = mem s a)"
proof -
  let ?s1 = "(created t prio stack sz proc prm s)\<lparr>sreg := arch_dint (sreg s)\<rparr>"
  let ?s2 = "os_taskqueue_enqueue ReadyQ t ?s1" and ?c = "task_current s"
  let ?Q = "bucket_upd ReadyQ (unat prio) (\<lambda>ts. ts @ [t]) Q" and ?rd = "ready (bucket_upd ReadyQ (unat prio) (\<lambda>ts. ts @ [t]) Q)"
  note e = create_enqueued [OF inv t a(4) refl, of stack sz proc prm]
  have sz: "35 < unat sz" using a(6) by (simp add: OS_STACK_MINSIZE_def word_le_nat_alt)
  have c: "task_current ?s2 = ?c" "task ?s2 ?c = task s ?c" "isr_nesting ?s2 = 0"
    "sched_lock ?s2 = sched_lock s" "arch_is_dint (sreg ?s2)"
    using e(3,4) t(2) a(1) by (auto simp: tq_frame_iff created_frame)
  have "?rd \<noteq> []" unfolding e(2) by (metis set_prio_insert empty_not_insert list.set(1))
  then have pre: "preempts 1 ?s2 ?rd \<longleftrightarrow>
      sched_lock s = 0 \<and> prio_current (task s ?c) < prio_current (task ?s2 (hd ?rd))"
    using c sched_inv_prio [OF inv, of ?c]
    by (cases ?rd) (auto simp: preempts_def word_le_nat_alt word_less_nat_alt unat_word_ariths OS_CONFIG_PRIOCNT_def)
  obtain r s' Q' where s': "kbind (os_schedule (K_Schedule (sreg s)) 1 ?s2) (sched_exit (sreg s) Void) = ok (r, s')"
    "sched_inv L Q' s'" "sched_frame ?s2 s'" "same_tasks ?s2 s'"
    "\<forall>t. t \<noteq> ?c \<longrightarrow> ctx_kont (task s' t) = ctx_kont (task ?s2 t)"
    "if preempts 1 ?s2 ?rd then task_current s' = hd ?rd \<and> (r = Switched \<longleftrightarrow> isr_nesting ?s2 = 0) \<and>
       ready Q' = prio_insert (\<lambda>t. prio_current (task ?s2 t)) ?c (tl ?rd)
     else r = Return Void \<and> s' = ?s2\<lparr>sreg := sreg s\<rparr> \<and> Q' = ?Q"
    using schedule_exit_result [OF e(1) c(5), of "K_Schedule (sreg s)" 1 "sreg s" Void, unfolded c(1)]
    by blast
  have run: "os_task_create t prio stack sz proc prm s = ok (r, s')"
    using a s'(1) by (simp add: os_task_create_def created_def created_frame [unfolded created_def])
  have pr: "prio_current (task s' x) = prio_current (task ?s2 x)" for x
    using s'(4) by (auto simp: same_tasks_def same_tcb_def)
  have mem: "mem s' = mem (created t prio stack sz proc prm s)"
    using s'(3) e(3) by (simp add: sched_frame_iff tq_frame_iff)
  have tt: "prio_current (task s' t) = prio" "\<forall>x. x \<noteq> t \<longrightarrow> prio_current (task s' x) = prio_current (task s x)"
    "ctx_kont (task s' t) = K_Start proc prm"
    "ctx_sp (task s' t) = stack + sz - 36" "stack_end (task s' t) = stack"
    using s'(4,5) t(2) e(4) by (auto simp: same_tasks_def same_tcb_def)
  have sw: "if sched_lock s = 0 \<and> prio_current (task s ?c) < prio_current (task s' (hd ?rd))
      then r = Switched \<and> task_current s' = hd ?rd
      else r = Return Void \<and> task_current s' = ?c \<and> ready Q' = ?rd"
    using s'(6) c(1,3) pre pr [of "hd ?rd"] by (auto split: if_splits)
  have m: "\<forall>i < 35. mem s' (stack + sz - 1 - word_of_nat i) =
      avr_initial_frame (task_start_pc s) stack sz proc prm ! i"
    "\<forall>a. unat sz \<le> unat (a - stack) \<longrightarrow> mem s' a = mem s a" "mem s' stack = OS_STACK_FILLPATERN"
    unfolding mem using created_mem(1-3) sz by auto
  have "os_task_check t s' = ok s'" by (simp add: os_task_check_def tt m(3))
  then show ?thesis
    using run s'(2) tt sw m(1,2) e(2) pr
    by (intro exI [of _ r] exI [of _ s'] exI [of _ Q'] exI [of _ ?rd]) simp
qed

text \<open>C18. \<open>os_task_create\<close>, called outside of interrupts for a task record that is not in use, with a
  priority between 1 and \<open>OS_CONFIG_PRIOCNT\<close> - 1 and a stack of at least the minimal size,
  inserts the task in the ready queue by its priority and switches to the first ready task exactly
  if its priority exceeds that of the caller and the scheduler is not locked. The initial context
  frame lies inside the stack, its guard byte is intact, so that \<open>os_task_check\<close> passes, and
  no other memory is written. Any other call halts the system.\<close>

theorem task_create_ready:
  assumes inv: "sched_inv L Q s" and t: "task_queue (task s t) = None" "t \<noteq> task_current s"
  shows "(isr_nesting s = 0 \<and> waitqueue_current s = None \<and> 0 < prio \<and> unat prio < OS_CONFIG_PRIOCNT \<and>
      stack \<noteq> 0 \<and> OS_STACK_MINSIZE \<le> sz \<longrightarrow>
      (\<exists>r s' Q' rd. os_task_create t prio stack sz proc prm s = ok (r, s') \<and> sched_inv L Q' s' \<and>
        rd = prio_insert (\<lambda>x. prio_current (task s' x)) t (ready Q) \<and>
        (if sched_lock s = 0 \<and> prio_current (task s (task_current s)) < prio_current (task s' (hd rd))
         then r = Switched \<and> task_current s' = hd rd
         else r = Return Void \<and> task_current s' = task_current s \<and> ready Q' = rd) \<and>
        prio_current (task s' t) = prio \<and> (\<forall>x. x \<noteq> t \<longrightarrow> prio_current (task s' x) = prio_current (task s x)) \<and>
        ctx_kont (task s' t) = K_Start proc prm \<and>
        ctx_sp (task s' t) = stack + sz - 36 \<and>
        (\<forall>i < 35. mem s' (stack + sz - 1 - word_of_nat i) =
           avr_initial_frame (task_start_pc s) stack sz proc prm ! i) \<and>
        os_task_check t s' = ok s' \<and> (\<forall>a. unat sz \<le> unat (a - stack) \<longrightarrow> mem s' a = mem s a))) \<and>
    (\<not> (isr_nesting s = 0 \<and> waitqueue_current s = None \<and> 0 < prio \<and> unat prio < OS_CONFIG_PRIOCNT \<and>
      stack \<noteq> 0 \<and> OS_STACK_MINSIZE \<le> sz) \<longrightarrow>
      os_task_create t prio stack sz proc prm s = os_halt s)"
proof (intro conjI impI, elim conjE, rule task_create_valid [OF assms])
qed (auto simp: os_task_create_def os_assert_def)

lemma not_dint_eint: "\<not> arch_is_dint (arch_eint r)"
  by (simp add: is_dint_bit arch_eint_def bit_simps SREG_I_def)

text \<open>C17. \<open>os_start\<close>, called from the idle task with interrupts disabled, unlocks the scheduler,
  enables the interrupts and gives the CPU to the oldest created task of the highest priority; if
  no task was created the idle task goes on.\<close>

theorem os_start_runs_first:
  assumes inv: "sched_inv L Q s" and c: "task_current s = task_idle" "prio_current (task s task_idle) = 0"
    and i: "isr_nesting s = 0" "arch_is_dint (sreg s)"
  shows "\<exists>r s' Q'. os_start s = ok (r, s') \<and> sched_inv L Q' s' \<and> sched_lock s' = 0 \<and>
    (if ready Q = [] then r = Return Void \<and> task_current s' = task_idle \<and> \<not> arch_is_dint (sreg s')
     else r = Switched \<and> task_current s' = hd (ready Q) \<and>
       (\<forall>t \<in> set (ready Q). prio_current (task s t) \<le> prio_current (task s (hd (ready Q)))))"
proof -
  let ?r = "arch_eint (sreg s)" and ?s1 = "s\<lparr>sched_lock := 0, sreg := arch_dint (arch_eint (sreg s))\<rparr>"
  have inv1: "sched_inv L Q ?s1" using inv by (subst sched_inv_cong) auto
  have pre: "preempts 0 ?s1 (ready Q) \<longleftrightarrow> ready Q \<noteq> []"
    using c i by (cases "ready Q") (auto simp: preempts_def)
  obtain r s' Q' where s': "kbind (os_schedule (K_Schedule ?r) 0 ?s1) (sched_exit ?r Void) = ok (r, s')"
    "sched_inv L Q' s'" "sched_frame ?s1 s'"
    "if preempts 0 ?s1 (ready Q) then task_current s' = hd (ready Q) \<and> (r = Switched \<longleftrightarrow> isr_nesting ?s1 = 0) \<and>
       ready Q' = prio_insert (\<lambda>t. prio_current (task ?s1 t)) (task_current ?s1) (tl (ready Q))
     else r = Return Void \<and> s' = ?s1\<lparr>sreg := ?r\<rparr> \<and> Q' = Q"
    using schedule_exit_result [OF inv1, of "K_Schedule ?r" 0 ?r Void] by (simp add: is_dint_dint) blast
  have "os_start s = ok (r, s')" using s'(1) c i by (simp add: os_start_def)
  moreover have "\<forall>t \<in> set (ready Q). prio_current (task s t) \<le> prio_current (task s (hd (ready Q)))"
    using ready_le_head [OF sched_invD(1) [OF inv]] by (cases "ready Q") auto
  ultimately show ?thesis
    using s'(2-4) pre c i by (intro exI [of _ r] exI [of _ s'] exI [of _ Q'])
      (auto simp: sched_frame_iff not_dint_eint split: if_splits)
qed

lemma init_rel_boot: "tq_rel {ReadyQ} (\<lambda>_ _. []) (os_init boot)"
proof -
  let ?s = "os_timers_init (os_taskqueue_init ReadyQ (boot\<lparr>sreg := arch_dint (sreg boot)\<rparr>))"
  have "tq_rel {} (\<lambda>_ _. []) (boot\<lparr>sreg := arch_dint (sreg boot)\<rparr>)"
    using boot_rel by (subst tq_rel_cong [of _ boot]) auto
  then have "tq_rel {ReadyQ} (\<lambda>_ _. []) (os_taskqueue_init ReadyQ (boot\<lparr>sreg := arch_dint (sreg boot)\<rparr>))"
    using init_rel by fastforce
  then have "tq_rel {ReadyQ} (\<lambda>_ _. []) ?s"
    by (subst tq_rel_cong) (auto simp: os_timers_init_def)
  then have "tq_rel {ReadyQ} (\<lambda>_ _. []) (os_task_init task_idle 0 ?s)"
    by (rule task_init_rel) (simp add: os_timers_init_def os_taskqueue_init_def boot_def zero_task_def Let_def)
  then show ?thesis
    by (rule tq_rel_cong [THEN iffD2, rotated -1]) (auto simp: os_init_def Let_def task_upd_task)
qed

lemma init_fields:
  "task (os_init boot) = (\<lambda>t. zero_task)" "task_current (os_init boot) = task_idle"
  "sched_lock (os_init boot) = 1" "isr_nesting (os_init boot) = 0" "waitqueue_current (os_init boot) = None"
  "arch_is_dint (sreg (os_init boot))"
  by (auto simp: os_init_def os_timers_init_def os_taskqueue_init_def boot_def task_init_fields
      task_upd_task zero_task_def os_task_init_def upd_task_def Let_def fun_eq_iff)

text \<open>\<open>os_init\<close> establishes the scheduler invariant from the initial memory: the idle task
  runs, the ready queue is empty, the scheduler is locked and interrupts are disabled, so that
  \<open>os_start\<close>, whose assertions then hold, is the first point at which a task can be switched to.\<close>

theorem os_init_establishes:
  "sched_inv {ReadyQ} (\<lambda>_ _. []) (os_init boot) \<and> floating (os_init boot) = {} \<and>
   task_current (os_init boot) = task_idle \<and> sched_lock (os_init boot) = 1 \<and>
   arch_is_dint (sreg (os_init boot)) \<and> (\<exists>r s. os_start (os_init boot) = ok (r, s))"
proof (intro conjI)
  let ?s = "os_init boot"
  show "sched_inv {ReadyQ} (\<lambda>_ _. []) ?s"
    using init_rel_boot by (simp add: sched_inv_def init_fields task_ok_def zero_task_def OS_CONFIG_PRIOCNT_def)
  then have inv: "sched_inv {ReadyQ} (\<lambda>_ _. []) (?s\<lparr>sched_lock := 0, sreg := arch_dint r\<rparr>)" for r
    by (subst sched_inv_cong) auto
  have "os_schedule k 0 (?s\<lparr>sched_lock := 0, sreg := arch_dint r\<rparr>) =
      ok (Return (), ?s\<lparr>sched_lock := 0, sreg := arch_dint r\<rparr>)" for k r
    by (rule schedule_stays [OF inv]) (simp_all add: preempts_def)
  then show "\<exists>r s. os_start ?s = ok (r, s)"
    by (simp add: os_start_def init_fields sched_exit_def)
qed (auto simp: init_fields floating_def zero_task_def)

lemma preempts_1:
  assumes inv: "sched_inv L Q s"
  shows "preempts 1 s (ready Q) \<longleftrightarrow> isr_nesting s \<le> 1 \<and> sched_lock s = 0 \<and>
    (\<exists>t \<in> set (ready Q). prio_current (task s (task_current s)) < prio_current (task s t))"
proof (cases "ready Q")
  case (Cons t ts)
  have "prio_current (task s (task_current s)) + 1 \<le> prio_current (task s t) \<longleftrightarrow>
      prio_current (task s (task_current s)) < prio_current (task s t)"
    using sched_inv_prio [OF inv, of "task_current s"]
    by (auto simp: OS_CONFIG_PRIOCNT_def word_less_nat_alt word_le_nat_alt unat_word_ariths)
  moreover have "\<forall>x \<in> set (ready Q). prio_current (task s x) \<le> prio_current (task s t)"
    using ready_le_head [OF sched_invD(1) [OF inv] Cons] by blast
  ultimately show ?thesis using Cons by (auto simp: preempts_def intro: less_le_trans)
qed (simp add: preempts_def)

text \<open>C19. \<open>os_yield\<close> gives way to tasks of the same or a higher priority only, in round robin
  order: if the first ready task has at least the caller's priority it runs next, and the
  caller is queued behind all ready tasks of its own priority; otherwise the caller goes on and
  nothing has changed.\<close>

theorem yield_round_robin:
  assumes inv: "sched_inv L Q s" and g: "isr_nesting s = 0" "task_current s \<noteq> task_idle"
    "waitqueue_current s = None" "sched_lock s = 0"
  shows "\<exists>r s' Q'. os_yield s = ok (r, s') \<and> sched_inv L Q' s' \<and>
    (if prio_current (task s (task_current s)) \<le> prio_current (task s (hd (ready Q)))
     then r = Switched \<and> task_current s' = hd (ready Q) \<and>
       ready Q' = prio_insert (\<lambda>t. prio_current (task s t)) (task_current s) (tl (ready Q))
     else r = Return Void \<and> s' = s)"
proof -
  let ?s1 = "s\<lparr>sreg := arch_dint (sreg s)\<rparr>"
  obtain t ts where rd: "ready Q = t # ts" using ready_nonempty(2) [OF inv g(2)] by blast
  have inv1: "sched_inv L Q ?s1" using inv by (subst sched_inv_cong) auto
  have pre: "preempts 0 ?s1 (ready Q) \<longleftrightarrow> prio_current (task s (task_current s)) \<le> prio_current (task s (hd (ready Q)))"
    using g rd by (simp add: preempts_def)
  obtain r s' Q' where s': "kbind (os_schedule (K_Schedule (sreg s)) 0 ?s1) (sched_exit (sreg s) Void) = ok (r, s')"
    "sched_inv L Q' s'"
    "if preempts 0 ?s1 (ready Q) then task_current s' = hd (ready Q) \<and> (r = Switched \<longleftrightarrow> isr_nesting ?s1 = 0) \<and>
       ready Q' = prio_insert (\<lambda>t. prio_current (task ?s1 t)) (task_current ?s1) (tl (ready Q))
     else r = Return Void \<and> s' = ?s1\<lparr>sreg := sreg s\<rparr> \<and> Q' = Q"
    using schedule_exit_result [OF inv1, of "K_Schedule (sreg s)" 0 "sreg s" Void]
    by (simp add: is_dint_dint) blast
  have "os_yield s = ok (r, s')" using s'(1) g by (simp add: os_yield_def)
  then show ?thesis using s'(2,3) pre g by (auto split: if_splits)
qed

text \<open>C20. The scheduler lock: after \<open>os_scheduler_lock\<close> no call of \<open>os_schedule\<close> switches the task;
  a synchronous unlock restores the state before the lock, and an asynchronous one switches
  exactly if it removes the last lock while a ready task of higher priority is waiting.\<close>

theorem lock_defers_preemption:
  assumes inv: "sched_inv L Q s" and g: "isr_nesting s = 0" "waitqueue_current s = None"
    and n: "unat (sched_lock s) < 255"
  shows "\<exists>s1. os_scheduler_lock s = ok s1 \<and> sched_lock s1 = sched_lock s + 1 \<and> sched_inv L Q s1 \<and>
    (\<forall>k h. os_schedule k h (s1\<lparr>sreg := arch_dint (sreg s1)\<rparr>) = ok (Return (), s1\<lparr>sreg := arch_dint (sreg s1)\<rparr>)) \<and>
    os_scheduler_unlock True s1 = ok (Return Void, s) \<and>
    (\<exists>r s' Q'. os_scheduler_unlock False s1 = ok (r, s') \<and> sched_inv L Q' s' \<and> sched_lock s' = sched_lock s \<and>
      (r = Switched \<longleftrightarrow> sched_lock s = 0 \<and>
        (\<exists>t \<in> set (ready Q). prio_current (task s (task_current s)) < prio_current (task s t))))"
proof -
  let ?s1 = "s\<lparr>sched_lock := sched_lock s + 1\<rparr>" and ?s2 = "s\<lparr>sreg := arch_dint (sreg s)\<rparr>"
  have inv1: "sched_inv L Q ?s1" "sched_inv L Q (?s1\<lparr>sreg := arch_dint (sreg s)\<rparr>)" "sched_inv L Q ?s2"
    by (rule sched_inv_same [OF inv]; simp)+
  have "sched_lock s + 1 \<noteq> 0" using n by (auto simp: u8_eq_iff_unat unat_word_ariths)
  then have stay: "os_schedule k h (?s1\<lparr>sreg := arch_dint (sreg s)\<rparr>) = ok (Return (), ?s1\<lparr>sreg := arch_dint (sreg s)\<rparr>)" for k h
    by (intro schedule_stays [OF inv1(2)]) (auto simp: preempts_def)
  have lock: "os_scheduler_lock s = ok ?s1"
    using g by (cases s) (simp add: os_scheduler_lock_def os_atomic_inc_def os_atomic_inc_load_def
        arch_critical_enter_def arch_critical_exit_def Let_def)
  note dec = os_scheduler_unlock_def os_atomic_dec_load_def arch_critical_enter_def arch_critical_exit_def
    Let_def
  have sync: "os_scheduler_unlock True ?s1 = ok (Return Void, s)"
    using g by (cases s) (simp add: dec)
  obtain r s' Q' where s': "kbind (os_schedule (K_Schedule (sreg s)) 1 ?s2) (sched_exit (sreg s) Void) = ok (r, s')"
    "sched_inv L Q' s'" "sched_frame ?s2 s'"
    "if preempts 1 ?s2 (ready Q) then task_current s' = hd (ready Q) \<and> (r = Switched \<longleftrightarrow> isr_nesting ?s2 = 0) \<and>
       ready Q' = prio_insert (\<lambda>t. prio_current (task ?s2 t)) (task_current ?s2) (tl (ready Q))
     else r = Return Void \<and> s' = ?s2\<lparr>sreg := sreg s\<rparr> \<and> Q' = Q"
    using schedule_exit_result [OF inv1(3), of "K_Schedule (sreg s)" 1 "sreg s" Void]
    by (simp add: is_dint_dint) blast
  have "os_scheduler_unlock False ?s1 = (if sched_lock s = 0 then ok (r, s') else ok (Return Void, s))"
    using s'(1) g by (cases s) (auto simp: dec)
  moreover have "r = Switched \<longleftrightarrow> preempts 1 ?s2 (ready Q)" using s'(4) g by (auto split: if_splits)
  ultimately have "\<exists>r s' Q'. os_scheduler_unlock False ?s1 = ok (r, s') \<and> sched_inv L Q' s' \<and> sched_lock s' = sched_lock s \<and>
      (r = Switched \<longleftrightarrow> sched_lock s = 0 \<and>
        (\<exists>t \<in> set (ready Q). prio_current (task s (task_current s)) < prio_current (task s t)))"
    using s'(2,3) inv g preempts_1 [OF inv1(3)] by (auto simp: sched_frame_iff)
  then show ?thesis using lock inv1(1) stay sync by (intro exI [of _ ?s1]) simp
qed

section \<open>Witnesses\<close>

text \<open>Task 2 of priority 2 is ready while the idle task runs, and the other way round, with a
  semaphore queue.\<close>

definition demo_ready :: kstate where
  "demo_ready = (os_task_makeready 2
     (upd_task 2 (\<lambda>k. k\<lparr>prio_base := 2, prio_current := 2\<rparr>) (os_init boot)))\<lparr>sched_lock := 0\<rparr>"

definition demo_running :: kstate where
  "demo_running = (os_taskqueue_init (SemQ (UserSem 0)) (os_task_makeready 0
     (upd_task 2 (\<lambda>k. k\<lparr>prio_base := 2, prio_current := 2\<rparr>) (os_init boot))))
     \<lparr>sched_lock := 0, task_current := 2\<rparr>"

lemma demo_upd_rel:
  "tq_rel {ReadyQ} (\<lambda>_ _. []) (upd_task 2 (\<lambda>k. k\<lparr>prio_base := 2, prio_current := 2\<rparr>) (os_init boot))"
  by (rule tq_rel_upd_free [OF init_rel_boot]) (simp_all add: init_fields zero_task_def)

lemmas demo_simps = makeready_fields task_upd_task init_fields zero_task_def OS_CONFIG_PRIOCNT_def

lemma demo_ready_inv: "sched_inv {ReadyQ} (bucket_upd ReadyQ 2 (\<lambda>ts. ts @ [2]) (\<lambda>_ _. [])) demo_ready"
proof -
  let ?s = "upd_task 2 (\<lambda>k. k\<lparr>prio_base := 2, prio_current := 2\<rparr>) (os_init boot)"
  have "sched_inv {ReadyQ} (\<lambda>_ _. []) ?s"
    using demo_upd_rel by (simp add: sched_inv_def task_ok_def demo_simps task_idle_def)
  from makeready_inv(1) [OF this, of 2]
  have "sched_inv {ReadyQ} (bucket_upd ReadyQ 2 (\<lambda>ts. ts @ [2]) (\<lambda>_ _. [])) (os_task_makeready 2 ?s)"
    by (simp add: demo_simps task_idle_def)
  then show ?thesis unfolding demo_ready_def by (subst sched_inv_cong) auto
qed

lemma demo_running_inv:
  "sched_inv {ReadyQ, SemQ (UserSem 0)} (bucket_upd ReadyQ 0 (\<lambda>ts. ts @ [0]) (\<lambda>_ _. [])) demo_running"
proof -
  let ?s = "upd_task 2 (\<lambda>k. k\<lparr>prio_base := 2, prio_current := 2\<rparr>) (os_init boot)"
  let ?Q = "bucket_upd ReadyQ 0 (\<lambda>ts. ts @ [0]) (\<lambda>_ _. [])"
  have "tq_rel {ReadyQ} ?Q (os_task_makeready 0 ?s)"
    by (rule makeready_rel [OF demo_upd_rel]) (simp_all add: demo_simps)
  from init_rel [OF this, of "SemQ (UserSem 0)"]
  have rel: "tq_rel {ReadyQ, SemQ (UserSem 0)} ?Q (os_taskqueue_init (SemQ (UserSem 0)) (os_task_makeready 0 ?s))"
    by (simp add: bucket_upd_def insert_commute)
  have task: "task demo_running = task (os_task_makeready 0 ?s)"
    by (simp add: demo_running_def os_taskqueue_init_def Let_def)
  have "tq_rel {ReadyQ, SemQ (UserSem 0)} ?Q demo_running"
    unfolding demo_running_def by (rule tq_rel_cong [THEN iffD2, OF _ _ _ _ rel]) simp_all
  then show ?thesis
    by (auto simp: sched_inv_def task demo_simps task_ok_def task_idle_def)
      (auto simp: demo_running_def zero_task_def)
qed

lemma demo_ready_fields:
  "arch_is_dint (sreg demo_ready)" "isr_nesting demo_ready = 0" "sched_lock demo_ready = 0"
  "waitqueue_current demo_ready = None" "task_current demo_ready = 0"
  "prio_current (task demo_ready 2) = 2" "prio_current (task demo_ready 0) = 0"
  "task_queue (task demo_ready 3) = None"
  "ready (bucket_upd ReadyQ 2 (\<lambda>ts. ts @ [2]) (\<lambda>_ _. [])) = [2]"
proof -
  let ?s = "upd_task 2 (\<lambda>k. k\<lparr>prio_base := 2, prio_current := 2\<rparr>) (os_init boot)"
  have fr: "tq_frame ?s (os_task_makeready 2 ?s)" by (rule makeready_fields)
  show "arch_is_dint (sreg demo_ready)" "isr_nesting demo_ready = 0" "sched_lock demo_ready = 0"
    "waitqueue_current demo_ready = None" "task_current demo_ready = 0"
    using fr by (simp_all add: demo_ready_def tq_frame_iff init_fields task_idle_def)
  show "prio_current (task demo_ready 2) = 2" "prio_current (task demo_ready 0) = 0"
    "task_queue (task demo_ready 3) = None"
    by (simp_all add: demo_ready_def demo_simps)
  show "ready (bucket_upd ReadyQ 2 (\<lambda>ts. ts @ [2]) (\<lambda>_ _. [])) = [2]"
    by (simp add: bucket_upd_def OS_CONFIG_PRIOCNT_def eval_nat_numeral)
qed

theorem schedule_highest_witness:
  "\<exists>r s'. os_schedule (K_Schedule 0) 1 demo_ready = ok (r, s') \<and> task_current s' = 2"
proof -
  obtain r s' Q' where s': "os_schedule (K_Schedule 0) 1 demo_ready = ok (r, s')"
    "insert (task_current s') (set (ready Q')) = {0, 2}"
    "\<forall>t \<in> set (ready Q'). prio_current (task demo_ready t) \<le> prio_current (task demo_ready (task_current s'))"
    using schedule_highest [OF demo_ready_inv demo_ready_fields(1), of 1 "K_Schedule 0"]
    by (auto simp: demo_ready_fields)
  have "task_current s' \<in> {0, 2}" using s'(2) by blast
  moreover have "task_current s' \<noteq> 0"
  proof
    assume c: "task_current s' = 0"
    then have "2 \<in> set (ready Q')" using s'(2) by (auto dest: equalityD2)
    then show False using s'(3) c demo_ready_fields(6,7) by auto
  qed
  ultimately show ?thesis using s'(1) by auto
qed

theorem os_start_runs_first_witness:
  "\<exists>s'. os_start demo_ready = ok (Switched, s') \<and> task_current s' = 2"
  using os_start_runs_first [OF demo_ready_inv] demo_ready_fields by (auto simp: task_idle_def)

theorem task_create_ready_witness:
  "\<exists>s'. os_task_create 3 3 0x200 200 0x40 7 demo_ready = ok (Switched, s') \<and> task_current s' = 3 \<and>
     os_task_check 3 s' = ok s'"
proof -
  have g: "isr_nesting demo_ready = 0 \<and> waitqueue_current demo_ready = None \<and> (0 :: u8) < 3 \<and>
      unat (3 :: u8) < OS_CONFIG_PRIOCNT \<and> (0x200 :: u16) \<noteq> 0 \<and> OS_STACK_MINSIZE \<le> 200"
    by (simp add: OS_CONFIG_PRIOCNT_def OS_STACK_MINSIZE_def demo_ready_fields)
  have "3 \<noteq> task_current demo_ready" by (simp add: demo_ready_fields)
  from task_create_ready [OF demo_ready_inv demo_ready_fields(8) this, THEN conjunct1, rule_format, OF g, of "0x40" 7]
  show ?thesis
    unfolding demo_ready_fields(3,5,9)
  proof (elim exE conjE)
    fix r s' and Q' :: queues and rd
    assume s': "os_task_create 3 3 0x200 200 0x40 7 demo_ready = ok (r, s')"
      "rd = prio_insert (\<lambda>x. prio_current (task s' x)) 3 [2]"
      "if 0 = (0 :: u8) \<and> prio_current (task demo_ready 0) < prio_current (task s' (hd rd))
       then r = Switched \<and> task_current s' = hd rd
       else r = Return Void \<and> task_current s' = 0 \<and> ready Q' = rd"
      "prio_current (task s' 3) = 3" "os_task_check 3 s' = ok s'"
      "\<forall>x. x \<noteq> 3 \<longrightarrow> prio_current (task s' x) = prio_current (task demo_ready x)"
    have "prio_current (task s' 2) = 2" using s'(6) demo_ready_fields(6) by simp
    then have "rd = [3, 2]" using s'(2,4) by simp
    then show "\<exists>s'. os_task_create 3 3 0x200 200 0x40 7 demo_ready = ok (Switched, s') \<and>
        task_current s' = 3 \<and> os_task_check 3 s' = ok s'"
      using s' by (auto simp: demo_ready_fields)
  qed
qed

theorem block_switch_never_null_witness:
  "\<exists>s'. os_task_block_switch (K_SemDown 0) (SemQ (UserSem 0)) OS_TASKBLOCK_SEM demo_running = ok s' \<and>
     task_current s' = task_idle"
proof -
  have "task_current demo_running \<noteq> task_idle" by (simp add: demo_running_def task_idle_def)
  from block_switch_never_null [OF demo_running_inv _ _ this, of "SemQ (UserSem 0)" "K_SemDown 0"]
  show ?thesis by (auto simp: bucket_upd_def OS_CONFIG_PRIOCNT_def eval_nat_numeral task_idle_def)
qed

theorem yield_round_robin_witness:
  "\<exists>s'. os_yield demo_running = ok (Return Void, s')"
proof -
  have "isr_nesting demo_running = 0" "task_current demo_running \<noteq> task_idle"
    "waitqueue_current demo_running = None" "sched_lock demo_running = 0"
    using makeready_fields(2) [of "upd_task 2 (\<lambda>k. k\<lparr>prio_base := 2, prio_current := 2\<rparr>) (os_init boot)" 0]
    by (simp_all add: demo_running_def task_idle_def os_taskqueue_init_def Let_def tq_frame_iff init_fields)
  from yield_round_robin [OF demo_running_inv this] show ?thesis
    by (auto simp: demo_running_def bucket_upd_def eval_nat_numeral OS_CONFIG_PRIOCNT_def
        makeready_fields task_upd_task init_fields zero_task_def os_taskqueue_init_def Let_def)
qed

theorem lock_defers_preemption_witness:
  "\<exists>s1. os_scheduler_lock demo_ready = ok s1 \<and> (\<exists>s'. os_scheduler_unlock False s1 = ok (Switched, s'))"
  using lock_defers_preemption [OF demo_ready_inv demo_ready_fields(2,4)] demo_ready_fields(3,5-7,9) by auto

end
