(* ===== verification/Timer.thy ===== *)
theory Timer
  imports Sched
begin

text \<open>
  The timers of \<^verbatim>\<open>os_timer.c\<close>: a list sorted by remaining ticks, ticks that are only counted
  in \<open>timer_tick_unsynch\<close> until the first timer expires or the counter passes its limit, and
  the synchronisation that subtracts them, runs the callbacks and re-arms periodic timers.
  A callback is called through the parameter \<open>run\<close>, which stands for the indirect call.
\<close>

section \<open>Model\<close>

definition OS_TIMER_UNSYNCH_MAX :: u16 where
  "OS_TIMER_UNSYNCH_MAX = 1024"

definition OS_TIMER_TICKSREM_MAX :: u16 where
  "OS_TIMER_TICKSREM_MAX = 65535 - OS_TIMER_UNSYNCH_MAX"

definition OS_TIMER_MAGIC1 :: u16 where
  "OS_TIMER_MAGIC1 = 0xAABB"

definition OS_TIMER_MAGIC2 :: u16 where
  "OS_TIMER_MAGIC2 = 0xCCDD"

text \<open>The loop of \<open>timer_add\<close>: the node before which the timer goes.\<close>

partial_function (option) timer_add_scan :: "kstate \<Rightarrow> u16 \<Rightarrow> timernode \<Rightarrow> timernode kres" where
  "timer_add_scan s rem itr =
     (if list_itr_end TimerList itr then ok itr
      else case itr of
        TimerLink t \<Rightarrow>
          if ticks_rem (tmr s t) > rem then ok itr
          else timer_add_scan s rem (lnext (tmh s) itr)
      | _ \<Rightarrow> fail Null_deref)"

definition timer_add :: "timerid \<Rightarrow> kstate \<Rightarrow> kstate kres" where
  "timer_add t s =
     kbind (timer_add_scan s (ticks_rem (tmr s t)) (list_itr_begin TimerList (tmh s)))
       (\<lambda>itr. ok (s\<lparr>tmh := list_put_before itr (TimerLink t) (tmh s)\<rparr>))"

partial_function (option) timer_trigger_loop ::
  "(timer_proc \<Rightarrow> timer_param \<Rightarrow> kstate \<Rightarrow> kstate kres) \<Rightarrow> timernode \<Rightarrow> kstate \<Rightarrow> kstate kres" where
  "timer_trigger_loop run itr s =
     (if list_itr_end TimerList itr then ok s
      else case itr of
        TimerLink t \<Rightarrow>
          let itr = lnext (tmh s) itr;
              s = upd_tmr t (\<lambda>k. k\<lparr>ticks_rem := ticks_rem k - timer_tick_unsynch s\<rparr>) s
          in if ticks_rem (tmr s t) > 0 then timer_trigger_loop run itr s
             else let s = s\<lparr>tmh := list_unlink (TimerLink t) (tmh s)\<rparr>
                  in kbind (run (clbck (tmr s t)) (param (tmr s t)) s)
                       (\<lambda>s. timer_trigger_loop run itr
                          (if ticks_reload (tmr s t) > 0
                           then s\<lparr>tmh := list_append ReloadList (TimerLink t) (tmh s)\<rparr>
                           else s))
      | _ \<Rightarrow> fail Null_deref)"

partial_function (option) timer_reload_loop :: "kstate \<Rightarrow> kstate kres" where
  "timer_reload_loop s =
     (case list_detachfirst ReloadList (tmh s) of
        (None, h) \<Rightarrow> ok (s\<lparr>tmh := h\<rparr>)
      | (Some (TimerLink t), h) \<Rightarrow>
          kbind (let s = s\<lparr>tmh := h\<rparr>;
                     s = upd_tmr t (\<lambda>k. k\<lparr>ticks_rem := ticks_reload k\<rparr>) s
                 in timer_add t s)
            (\<lambda>s. timer_reload_loop s)
      | (Some _, h) \<Rightarrow> fail Null_deref)"

definition timer_trigger ::
  "(timer_proc \<Rightarrow> timer_param \<Rightarrow> kstate \<Rightarrow> kstate kres) \<Rightarrow> kstate \<Rightarrow> kstate kres" where
  "timer_trigger run s =
     (let s = s\<lparr>tmh := list_init ReloadList (tmh s)\<rparr>;
          itr = list_itr_begin TimerList (tmh s)
      in kbind (timer_trigger_loop run itr s)
           (\<lambda>s. let s = s\<lparr>timer_tick_unsynch := 0\<rparr> in timer_reload_loop s))"

definition os_timer_create ::
  "timerid \<Rightarrow> timer_proc \<Rightarrow> timer_param \<Rightarrow> u16 \<Rightarrow> u16 \<Rightarrow> kstate \<Rightarrow> kstate kres" where
  "os_timer_create t cb prm timeout_ticks reload_ticks s =
     os_assert (timeout_ticks > 0) s
     (os_assert (timeout_ticks < OS_TIMER_TICKSREM_MAX) s
     (os_assert (magic (tmr s t) \<noteq> OS_TIMER_MAGIC1) s
       (let s = s\<lparr>tmh := list_init (TimerLink t) (tmh s)\<rparr>;
            s = upd_tmr t (\<lambda>k. k\<lparr>ticks_rem := timeout_ticks, ticks_reload := reload_ticks,
                  clbck := cb, param := prm, magic := OS_TIMER_MAGIC1\<rparr>) s;
            (cristate, s) = os_critical_enter s;
            s = upd_tmr t (\<lambda>k. k\<lparr>ticks_rem := ticks_rem k + timer_tick_unsynch s\<rparr>) s
        in kbind (timer_add t s) (\<lambda>s. ok (os_critical_exit cristate s)))))"

definition os_timer_destroy :: "timerid \<Rightarrow> kstate \<Rightarrow> kstate kres" where
  "os_timer_destroy t s =
     os_assert (magic (tmr s t) = OS_TIMER_MAGIC1 \<or> magic (tmr s t) = OS_TIMER_MAGIC2) s
       (let (cristate, s) = os_critical_enter s;
            s = (if ticks_rem (tmr s t) > 0
                 then let s = s\<lparr>tmh := list_unlink (TimerLink t) (tmh s)\<rparr>
                      in upd_tmr t (\<lambda>k. k\<lparr>ticks_rem := 0, ticks_reload := 0\<rparr>) s
                 else s);
            s = upd_tmr t (\<lambda>k. k\<lparr>magic := OS_TIMER_MAGIC2\<rparr>) s;
            s = (if list_is_empty TimerList (tmh s) then s\<lparr>timer_tick_unsynch := 0\<rparr> else s)
        in ok (os_critical_exit cristate s))"

text \<open>The part of \<open>os_tick\<close> that handles the timers.\<close>

definition os_tick_timers ::
  "(timer_proc \<Rightarrow> timer_param \<Rightarrow> kstate \<Rightarrow> kstate kres) \<Rightarrow> kstate \<Rightarrow> kstate kres" where
  "os_tick_timers run s =
     (if \<not> list_is_empty TimerList (tmh s)
      then let s = s\<lparr>timer_tick_unsynch := timer_tick_unsynch s + 1\<rparr>
           in case list_peekfirst TimerList (tmh s) of
                Some (TimerLink t) \<Rightarrow>
                  if timer_tick_unsynch s \<ge> ticks_rem (tmr s t) \<or>
                     timer_tick_unsynch s > OS_TIMER_UNSYNCH_MAX
                  then timer_trigger run s
                  else ok s
              | _ \<Rightarrow> fail Null_deref
      else ok s)"

definition os_tick ::
  "(timer_proc \<Rightarrow> timer_param \<Rightarrow> kstate \<Rightarrow> kstate kres) \<Rightarrow> kstate \<Rightarrow> (apival outcome \<times> kstate) kres" where
  "os_tick run s =
     os_assert (isr_nesting s > 0) s
       (let (cristate, s) = os_critical_enter s;
            s = s\<lparr>ticks_cnt := ticks_cnt s + 1\<rparr>
        in kbind (os_tick_timers run s)
             (\<lambda>s. kbind (os_schedule (K_Schedule cristate) 0 s) (sched_exit cristate Void)))"

definition os_ticks_now :: "kstate \<Rightarrow> u16 \<times> kstate" where
  "os_ticks_now s = (let (v, r) = os_atomic_load (sreg s) (ticks_cnt s) in (v, s\<lparr>sreg := r\<rparr>))"

definition os_ticks_diff :: "u16 \<Rightarrow> u16 \<Rightarrow> u16" where
  "os_ticks_diff ticks_start ticks_end =
     (if ticks_start > ticks_end
      then OS_TICKS_MAX - ticks_start + 1 + ticks_end
      else ticks_end - ticks_start)"

section \<open>Timeout guards (os\_private.h)\<close>

definition os_blocktimer_create :: "timerid \<Rightarrow> timer_proc \<Rightarrow> u16 \<Rightarrow> kstate \<Rightarrow> kstate kres" where
  "os_blocktimer_create t cb timeout_ticks s =
     os_assert (timer (task s (task_current s)) = None) s
       (kbind (os_timer_create t cb (TaskParam (task_current s)) timeout_ticks 0 s)
          (\<lambda>s. ok (upd_task (task_current s) (\<lambda>k. k\<lparr>timer := Some t\<rparr>) s)))"

definition os_blocktimer_destroy :: "tid \<Rightarrow> kstate \<Rightarrow> kstate kres" where
  "os_blocktimer_destroy t s =
     (case timer (task s t) of
        None \<Rightarrow> ok s
      | Some tm \<Rightarrow>
          kbind (os_timer_destroy tm s) (\<lambda>s. ok (upd_task t (\<lambda>k. k\<lparr>timer := None\<rparr>) s)))"

declare timer_add_scan.simps [code] timer_trigger_loop.simps [code] timer_reload_loop.simps [code]

section \<open>Abstraction\<close>

text \<open>The order of the timer list as a priority: the sooner, the higher.\<close>

definition tkey :: "kstate \<Rightarrow> timerid \<Rightarrow> int" where
  "tkey s t = - uint (ticks_rem (tmr s t))"

definition tm_rel :: "timerid list \<Rightarrow> kstate \<Rightarrow> bool" where
  "tm_rel ts s \<longleftrightarrow>
     dlist (tmh s) TimerList (map TimerLink ts) \<and>
     prio_sorted (tkey s) ts \<and>
     (\<forall>t \<in> set ts. timer_tick_unsynch s < ticks_rem (tmr s t) \<and> magic (tmr s t) = OS_TIMER_MAGIC1) \<and>
     (\<forall>t. t \<notin> set ts \<longrightarrow> ticks_rem (tmr s t) = 0) \<and>
     timer_tick_unsynch s \<le> OS_TIMER_UNSYNCH_MAX \<and>
     (ts = [] \<longrightarrow> timer_tick_unsynch s = 0)"

text \<open>The ticks until a timer expires.\<close>

definition ticks_left :: "kstate \<Rightarrow> timerid \<Rightarrow> nat" where
  "ticks_left s t = unat (ticks_rem (tmr s t)) - unat (timer_tick_unsynch s)"

lemma tm_relD:
  assumes "tm_rel ts s"
  shows "dlist (tmh s) TimerList (map TimerLink ts)" and "prio_sorted (tkey s) ts"
    and "t \<in> set ts \<Longrightarrow> timer_tick_unsynch s < ticks_rem (tmr s t)"
    and "t \<in> set ts \<Longrightarrow> magic (tmr s t) = OS_TIMER_MAGIC1"
    and "t \<notin> set ts \<Longrightarrow> ticks_rem (tmr s t) = 0"
    and "timer_tick_unsynch s \<le> OS_TIMER_UNSYNCH_MAX"
    and "ts = [] \<Longrightarrow> timer_tick_unsynch s = 0"
  using assms by (auto simp: tm_rel_def)

lemma dlist_timers_distinct: "dlist h l (map TimerLink ts) \<Longrightarrow> distinct ts"
  using dlist_distinct by (fastforce simp: distinct_map)

lemma tm_rel_cong:
  assumes "tmh s' = tmh s" and "tmr s' = tmr s" and "timer_tick_unsynch s' = timer_tick_unsynch s"
  shows "tm_rel ts s' = tm_rel ts s"
proof -
  have "tkey s' = tkey s" by (simp add: tkey_def fun_eq_iff assms)
  then show ?thesis by (simp add: tm_rel_def assms)
qed

lemma tkey_le: "tkey s a \<le> tkey s b \<longleftrightarrow> ticks_rem (tmr s b) \<le> ticks_rem (tmr s a)"
  by (simp add: tkey_def word_le_def)

lemma tkey_sorted_cong:
  "\<forall>t \<in> set ts. ticks_rem (tmr s' t) = ticks_rem (tmr s t) \<Longrightarrow>
   prio_sorted (tkey s') ts = prio_sorted (tkey s) ts"
  by (rule prio_sorted_cong) (simp add: tkey_def)

lemma upd_tmr_frame [simp, frame_simps]:
  "task_current (upd_tmr t f s) = task_current s"
  "isr_nesting (upd_tmr t f s) = isr_nesting s"
  "sched_lock (upd_tmr t f s) = sched_lock s"
  "waitqueue_current (upd_tmr t f s) = waitqueue_current s"
  "sreg (upd_tmr t f s) = sreg s"
  "qmask (upd_tmr t f s) = qmask s"
  "tqh (upd_tmr t f s) = tqh s"
  "mxh (upd_tmr t f s) = mxh s"
  "tmh (upd_tmr t f s) = tmh s"
  "mtx (upd_tmr t f s) = mtx s"
  "sem (upd_tmr t f s) = sem s"
  "task (upd_tmr t f s) = task s"
  "timer_tick_unsynch (upd_tmr t f s) = timer_tick_unsynch s"
  "ticks_cnt (upd_tmr t f s) = ticks_cnt s"
  "isr_saved (upd_tmr t f s) = isr_saved s"
  "mem (upd_tmr t f s) = mem s"
  "task_start_pc (upd_tmr t f s) = task_start_pc s"
  "tmr (upd_tmr t f s) = (tmr s)(t := f (tmr s t))"
  by (simp_all add: upd_tmr_def)

section \<open>Insertion\<close>

lemma timer_add_scan_result:
  assumes "dlist (tmh s) TimerList (map TimerLink (xs @ ys))"
  shows "timer_add_scan s r (hd (map TimerLink ys @ [TimerList])) =
    ok (hd (map TimerLink (dropWhile (\<lambda>x. ticks_rem (tmr s x) \<le> r) ys) @ [TimerList]))"
  using assms
proof (induction ys arbitrary: xs)
  case Nil
  then show ?case by (subst timer_add_scan.simps) (simp add: list_itr_end_def)
next
  case (Cons y ys)
  have "lnext (tmh s) (TimerLink y) = hd (map TimerLink ys @ [TimerList])"
    using dlist_neighbours(2) [of "tmh s" TimerList "map TimerLink xs"] Cons.prems by simp
  then show ?case
    using Cons.IH [of "xs @ [y]"] Cons.prems
    by (subst timer_add_scan.simps) (auto simp: list_itr_end_def not_le [symmetric])
qed

lemma timer_add_result:
  assumes d: "dlist (tmh s) TimerList (map TimerLink ts)" and t: "t \<notin> set ts"
  shows "\<exists>h. timer_add t s = ok (s\<lparr>tmh := h\<rparr>) \<and>
    dlist h TimerList (map TimerLink (prio_insert (tkey s) t ts)) \<and>
    (\<forall>n. n \<notin> set (TimerLink t # TimerList # map TimerLink ts) \<longrightarrow> same_links (tmh s) h n)"
proof -
  let ?P = "\<lambda>x. ticks_rem (tmr s x) \<le> ticks_rem (tmr s t)"
  let ?xs = "map TimerLink (takeWhile ?P ts)" and ?ys = "map TimerLink (dropWhile ?P ts)"
  let ?i = "hd (?ys @ [TimerList])"
  let ?h = "list_put_before ?i (TimerLink t) (tmh s)"
  have split: "?xs @ ?ys = map TimerLink ts" by (simp flip: map_append)
  have "dlist ?h TimerList (?xs @ TimerLink t # ?ys)"
    by (rule dlist_put_before) (use d t split in \<open>auto dest: set_takeWhileD set_dropWhileD\<close>)
  moreover have "?xs @ TimerLink t # ?ys = map TimerLink (prio_insert (tkey s) t ts)"
    by (simp add: prio_insert_def tkey_le)
  moreover have "timer_add t s = ok (s\<lparr>tmh := ?h\<rparr>)"
    using timer_add_scan_result [of s "[]" ts] d
    by (simp add: timer_add_def list_itr_begin_def dlist_next)
  moreover have "same_links (tmh s) ?h n" if "n \<notin> set (TimerLink t # TimerList # map TimerLink ts)" for n
    by (rule put_before_frame [of _ TimerList ?xs ?ys]) (use d that split in auto)
  ultimately show ?thesis by auto
qed

section \<open>Creation and destruction\<close>

text \<open>The bounds on timeout and counter rule out a wrap-around.\<close>

lemma timeout_no_wrap:
  assumes "timeout < OS_TIMER_TICKSREM_MAX" and "u \<le> OS_TIMER_UNSYNCH_MAX"
  shows "unat (timeout + u) = unat timeout + unat u"
  using assms unat_add_lem [of timeout u]
  by (simp add: OS_TIMER_TICKSREM_MAX_def OS_TIMER_UNSYNCH_MAX_def word_less_nat_alt word_le_nat_alt)

lemma dlist_init_other:
  assumes "dlist h l xs" and "n \<notin> set (l # xs)"
  shows "dlist (list_init n h) l xs"
  using assms(1)
  by (subst dlist_cong [of _ _ h]) (use assms(2) in \<open>auto intro!: init_frame\<close>)

text \<open>Only the links of timers and the timers differ.\<close>

definition tm_frame :: "kstate \<Rightarrow> kstate \<Rightarrow> bool" where
  "tm_frame s s' \<longleftrightarrow>
     s' = s\<lparr>tmh := tmh s', tmr := tmr s', timer_tick_unsynch := timer_tick_unsynch s'\<rparr>"

lemma tm_frame_iff:
  "tm_frame s s' \<longleftrightarrow>
     task_current s' = task_current s \<and> isr_nesting s' = isr_nesting s \<and>
     sched_lock s' = sched_lock s \<and> waitqueue_current s' = waitqueue_current s \<and>
     ticks_cnt s' = ticks_cnt s \<and> sreg s' = sreg s \<and> isr_saved s' = isr_saved s \<and>
     qmask s' = qmask s \<and> tqh s' = tqh s \<and> mxh s' = mxh s \<and> task s' = task s \<and>
     mtx s' = mtx s \<and> sem s' = sem s \<and> mem s' = mem s \<and> task_start_pc s' = task_start_pc s"
  by (cases s; cases s') (auto simp: tm_frame_def)

lemma tm_frame_refl [simp]: "tm_frame s s"
  by (simp add: tm_frame_def)

lemma tm_frame_trans [trans]: "tm_frame s s' \<Longrightarrow> tm_frame s' s'' \<Longrightarrow> tm_frame s s''"
  by (simp add: tm_frame_iff)

lemma timer_create_result:
  assumes rel: "tm_rel ts s" and "0 < timeout" "timeout < OS_TIMER_TICKSREM_MAX"
    and fresh: "magic (tmr s t) \<noteq> OS_TIMER_MAGIC1"
  shows "\<exists>s'. os_timer_create t cb prm timeout reload s = ok s' \<and> tm_frame s s' \<and>
    timer_tick_unsynch s' = timer_tick_unsynch s \<and>
    tmr s' = (tmr s)(t := \<lparr>ticks_rem = timeout + timer_tick_unsynch s, ticks_reload = reload,
      clbck = cb, param = prm, magic = OS_TIMER_MAGIC1\<rparr>) \<and>
    tm_rel (prio_insert (tkey s') t ts) s'"
proof -
  let ?u = "timer_tick_unsynch s"
  let ?T = "(tmr s)(t := \<lparr>ticks_rem = timeout + ?u, ticks_reload = reload,
      clbck = cb, param = prm, magic = OS_TIMER_MAGIC1\<rparr>)"
  let ?s = "s\<lparr>tmh := list_init (TimerLink t) (tmh s), sreg := arch_dint (sreg s), tmr := ?T\<rparr>"
  have T: "(tmr s)(t := (tmr s t)\<lparr>ticks_reload := reload, clbck := cb, param := prm,
      magic := OS_TIMER_MAGIC1, ticks_rem := timeout + ?u\<rparr>) = ?T"
    by (cases "tmr s t") simp
  have t: "t \<notin> set ts" using tm_relD(4) [OF rel] fresh by blast
  have d: "dlist (tmh ?s) TimerList (map TimerLink ts)"
    using dlist_init_other [OF tm_relD(1) [OF rel], of "TimerLink t"] t by auto
  obtain h where h: "timer_add t ?s = ok (?s\<lparr>tmh := h\<rparr>)"
    "dlist h TimerList (map TimerLink (prio_insert (tkey ?s) t ts))"
    using timer_add_result [OF d t] by blast
  let ?s' = "s\<lparr>tmh := h, tmr := ?T\<rparr>"
  have key: "tkey ?s = tkey ?s'" by (simp add: tkey_def fun_eq_iff)
  have run: "os_timer_create t cb prm timeout reload s = ok ?s'"
    using assms(2-4) h(1)
    by (simp add: os_timer_create_def os_critical_enter_def os_critical_exit_def
        arch_critical_enter_def arch_critical_exit_def upd_tmr_def Let_def T)
  have "?u < timeout + ?u"
    using timeout_no_wrap [OF assms(3) tm_relD(6) [OF rel]] assms(2) by (simp add: word_less_nat_alt)
  moreover have "prio_sorted (tkey ?s') ts"
    using tm_relD(2) [OF rel] t by (subst tkey_sorted_cong [of _ _ s]) auto
  moreover have "prio_insert (tkey ?s') t ts \<noteq> []"
    by (metis set_prio_insert empty_not_insert list.set(1))
  ultimately have "tm_rel (prio_insert (tkey ?s') t ts) ?s'"
    using h(2) tm_relD(3-6) [OF rel] unfolding tm_rel_def key
    by (auto simp: set_prio_insert prio_sorted_insert)
  then show ?thesis using run by (intro exI [of _ ?s']) (simp add: tm_frame_def)
qed

lemma timer_destroy_result:
  assumes rel: "tm_rel ts s" and m: "magic (tmr s t) \<in> {OS_TIMER_MAGIC1, OS_TIMER_MAGIC2}"
  shows "\<exists>s'. os_timer_destroy t s = ok s' \<and> tm_frame s s' \<and> tm_rel (remove1 t ts) s' \<and>
    timer_tick_unsynch s' = (if remove1 t ts = [] then 0 else timer_tick_unsynch s) \<and>
    tmr s' = (tmr s)(t := (tmr s t)\<lparr>ticks_rem := 0,
      ticks_reload := (if t \<in> set ts then 0 else ticks_reload (tmr s t)), magic := OS_TIMER_MAGIC2\<rparr>)"
proof -
  let ?u = "if remove1 t ts = [] then 0 else timer_tick_unsynch s"
  let ?h = "if t \<in> set ts then list_unlink (TimerLink t) (tmh s) else tmh s"
  let ?T = "(tmr s)(t := (tmr s t)\<lparr>ticks_rem := 0,
      ticks_reload := (if t \<in> set ts then 0 else ticks_reload (tmr s t)), magic := OS_TIMER_MAGIC2\<rparr>)"
  let ?s' = "s\<lparr>tmh := ?h, tmr := ?T, timer_tick_unsynch := ?u\<rparr>"
  have act: "ticks_rem (tmr s t) > 0 \<longleftrightarrow> t \<in> set ts"
    using tm_relD(3,5) [OF rel] by (metis word_greater_zero_iff word_zero_le le_less_trans)
  have d: "dlist ?h TimerList (map TimerLink (remove1 t ts))"
    using tm_relD(1) [OF rel] dlist_unlink [of "tmh s" TimerList "map TimerLink ts" "TimerLink t"]
    by (cases "t \<in> set ts") (simp_all add: map_remove1_inj inj_def remove1_idem)
  have eq0: "(tmr s t)\<lparr>ticks_rem := 0, magic := OS_TIMER_MAGIC2\<rparr> =
      (tmr s t)\<lparr>magic := OS_TIMER_MAGIC2\<rparr>" if "t \<notin> set ts"
    using tm_relD(5) [OF rel that] by simp
  have emp: "list_is_empty TimerList ?h \<longleftrightarrow> remove1 t ts = []"
    using dlist_is_empty [OF d] by simp
  have magic: "magic (tmr s t) = OS_TIMER_MAGIC1 \<or> magic (tmr s t) = OS_TIMER_MAGIC2"
    using m by simp
  note defs = os_timer_destroy_def os_critical_enter_def os_critical_exit_def
    arch_critical_enter_def arch_critical_exit_def upd_tmr_def Let_def
  have run: "os_timer_destroy t s = ok ?s'"
  proof (cases "t \<in> set ts")
    case True
    then show ?thesis using emp by (simp add: defs act magic)
  next
    case False
    then show ?thesis using emp eq0 by (simp add: defs act magic)
  qed
  have ts: "distinct ts" by (rule dlist_timers_distinct [OF tm_relD(1) [OF rel]])
  then have "prio_sorted (tkey s) (remove1 t ts)"
    using tm_relD(2) [OF rel] by (auto simp: prio_sorted_def distinct_remove1_filter intro: sorted_wrt_filter)
  then have "prio_sorted (tkey ?s') (remove1 t ts)"
    using ts by (subst tkey_sorted_cong [of _ _ s]) auto
  moreover have set: "set (remove1 t ts) = set ts - {t}" using ts by simp
  then have "\<forall>x \<in> set (remove1 t ts). ?u < ticks_rem (tmr ?s' x)"
    using tm_relD(3) [OF rel] by (cases "remove1 t ts = []") auto
  moreover have "\<forall>x. x \<notin> set (remove1 t ts) \<longrightarrow> ticks_rem (tmr ?s' x) = 0"
    using tm_relD(5) [OF rel] set by auto
  moreover have "\<forall>x \<in> set (remove1 t ts). magic (tmr ?s' x) = OS_TIMER_MAGIC1"
    using tm_relD(4) [OF rel] set by auto
  ultimately have "tm_rel (remove1 t ts) ?s'"
    using d tm_relD(6) [OF rel] unfolding tm_rel_def by simp
  then show ?thesis using run by (intro exI [of _ ?s']) (simp add: tm_frame_def)
qed

section \<open>Synchronisation\<close>

definition elapse :: "u16 \<Rightarrow> os_timer \<Rightarrow> os_timer" where
  "elapse u k = k\<lparr>ticks_rem := ticks_rem k - u\<rparr>"

lemma elapse_fields [simp]:
  "ticks_rem (elapse u k) = ticks_rem k - u"
  "ticks_reload (elapse u k) = ticks_reload k"
  "clbck (elapse u k) = clbck k"
  "param (elapse u k) = param k"
  "magic (elapse u k) = magic k"
  by (simp_all add: elapse_def)

text \<open>Behind the first timer that does not expire, the loop only subtracts.\<close>

lemma trigger_survivors:
  assumes "dlist (tmh s) TimerList (map TimerLink (zs @ ys))"
    and "\<forall>t \<in> set ys. timer_tick_unsynch s < ticks_rem (tmr s t)"
  shows "timer_trigger_loop run (hd (map TimerLink ys @ [TimerList])) s =
    ok (s\<lparr>tmr := \<lambda>t. if t \<in> set ys then elapse (timer_tick_unsynch s) (tmr s t) else tmr s t\<rparr>)"
  using assms
proof (induction ys arbitrary: zs s)
  case Nil
  then show ?case by (subst timer_trigger_loop.simps) (simp add: list_itr_end_def)
next
  case (Cons y ys)
  let ?u = "timer_tick_unsynch s" and ?s = "upd_tmr y (elapse (timer_tick_unsynch s)) s"
  have nxt: "lnext (tmh s) (TimerLink y) = hd (map TimerLink ys @ [TimerList])"
    using dlist_neighbours(2) [of "tmh s" TimerList "map TimerLink zs"] Cons.prems(1) by simp
  have y: "y \<notin> set ys" using dlist_timers_distinct [OF Cons.prems(1)] by simp
  have "?u < ticks_rem (tmr s y)" using Cons.prems(2) by simp
  then have pos: "0 < ticks_rem (tmr ?s y)"
    by (simp add: word_gt_0)
  have "dlist (tmh ?s) TimerList (map TimerLink ((zs @ [y]) @ ys))"
    and "\<forall>t \<in> set ys. timer_tick_unsynch ?s < ticks_rem (tmr ?s t)"
    using Cons.prems y by auto
  from Cons.IH [OF this] have "timer_trigger_loop run (hd (map TimerLink ys @ [TimerList])) ?s =
      ok (?s\<lparr>tmr := \<lambda>t. if t \<in> set ys then elapse ?u (tmr ?s t) else tmr ?s t\<rparr>)"
    unfolding upd_tmr_frame(13) .
  moreover have "(\<lambda>t. if t \<in> set ys then elapse ?u (tmr ?s t) else tmr ?s t) =
      (\<lambda>t. if t \<in> set (y # ys) then elapse ?u (tmr s t) else tmr s t)"
    using y by (auto simp: fun_eq_iff)
  ultimately show ?case
    using nxt pos
    by (subst timer_trigger_loop.simps)
      (simp add: list_itr_end_def upd_tmr_def elapse_def Let_def)
qed

text \<open>The calls of callbacks in a stretch of a run, with changes to timers in between.\<close>

inductive call_seq ::
  "(timer_proc \<Rightarrow> timer_param \<Rightarrow> kstate \<Rightarrow> kstate kres) \<Rightarrow>
   (timer_proc \<times> timer_param) list \<Rightarrow> kstate \<Rightarrow> kstate \<Rightarrow> bool"
  for run where
  call_nil: "tm_frame s s' \<Longrightarrow> call_seq run [] s s'"
| call_cons: "\<lbrakk>tm_frame s s1; run p a s1 = ok s2; call_seq run cs s2 s'\<rbrakk> \<Longrightarrow>
    call_seq run ((p, a) # cs) s s'"

inductive_cases call_seq_Nil: "call_seq run [] s s'"
inductive_cases call_seq_Cons: "call_seq run (c # cs) s s'"

lemma call_seq_frame_left: "call_seq run cs s s' \<Longrightarrow> tm_frame r s \<Longrightarrow> call_seq run cs r s'"
  by (induction rule: call_seq.induct) (auto intro: call_seq.intros tm_frame_trans)

lemma call_seq_frame_right: "call_seq run cs s s' \<Longrightarrow> tm_frame s' r \<Longrightarrow> call_seq run cs s r"
  by (induction rule: call_seq.induct) (auto intro: call_seq.intros tm_frame_trans)

lemma call_seq_append:
  "call_seq run as s s1 \<Longrightarrow> call_seq run bs s1 s' \<Longrightarrow> call_seq run (as @ bs) s s'"
  by (induction rule: call_seq.induct) (auto intro: call_cons call_seq_frame_left)

abbreviation calls_of :: "kstate \<Rightarrow> timerid list \<Rightarrow> (timer_proc \<times> timer_param) list" where
  "calls_of s ts \<equiv> map (\<lambda>t. (clbck (tmr s t), param (tmr s t))) ts"

text \<open>The timers differ at most in their remaining ticks.\<close>

definition same_setup :: "kstate \<Rightarrow> kstate \<Rightarrow> bool" where
  "same_setup s s' \<longleftrightarrow>
     (\<forall>t. clbck (tmr s' t) = clbck (tmr s t) \<and> param (tmr s' t) = param (tmr s t) \<and>
        ticks_reload (tmr s' t) = ticks_reload (tmr s t) \<and> magic (tmr s' t) = magic (tmr s t))"

text \<open>
  The contract of the callbacks with the timer module. \<open>J A s\<close> is what the owner of the timers
  maintains while the timers \<open>A\<close> are armed; a callback of an armed timer returns, keeps \<open>J\<close> (without a
  timer that is not re-armed) and does not touch the timers, and \<open>J\<close> does not depend on the clock.
\<close>

locale timer_client =
  fixes run :: "timer_proc \<Rightarrow> timer_param \<Rightarrow> kstate \<Rightarrow> kstate kres"
    and J :: "timerid set \<Rightarrow> kstate \<Rightarrow> bool"
  assumes fire: "\<lbrakk>J A s; t \<in> A\<rbrakk> \<Longrightarrow> \<exists>s'. run (clbck (tmr s t)) (param (tmr s t)) s = ok s' \<and>
      J (if ticks_reload (tmr s t) > 0 then A else A - {t}) s' \<and>
      tmh s' = tmh s \<and> tmr s' = tmr s \<and> timer_tick_unsynch s' = timer_tick_unsynch s"
    and clock: "\<lbrakk>J A s; tm_frame s s'; same_setup s s'\<rbrakk> \<Longrightarrow> J A s'"
begin

text \<open>One expired timer: it is unlinked, its callback runs, and it is queued for reload.\<close>

lemma trigger_one:
  assumes J: "J A s" and x: "x \<in> A" and xn: "x \<notin> set ys" "x \<notin> set rs"
    and d: "dlist (tmh s) TimerList (map TimerLink (x # ys))"
    and r: "dlist (tmh s) ReloadList (map TimerLink rs)"
    and disj: "set rs \<inter> set ys = {}"
    and z: "ticks_rem (tmr s x) = timer_tick_unsynch s"
  shows "\<exists>s'. timer_trigger_loop run (TimerLink x) s =
      timer_trigger_loop run (hd (map TimerLink ys @ [TimerList])) s' \<and>
    call_seq run [(clbck (tmr s x), param (tmr s x))] s s' \<and>
    J (if ticks_reload (tmr s x) > 0 then A else A - {x}) s' \<and>
    tmr s' = (tmr s)(x := elapse (timer_tick_unsynch s) (tmr s x)) \<and>
    timer_tick_unsynch s' = timer_tick_unsynch s \<and>
    dlist (tmh s') TimerList (map TimerLink ys) \<and>
    dlist (tmh s') ReloadList (map TimerLink (rs @ (if ticks_reload (tmr s x) > 0 then [x] else [])))"
proof -
  let ?u = "timer_tick_unsynch s" and ?h = "list_unlink (TimerLink x) (tmh s)"
  let ?s1 = "(upd_tmr x (elapse ?u) s)\<lparr>tmh := ?h\<rparr>"
  have J1: "J A ?s1"
    by (rule clock [OF J]) (auto simp: tm_frame_iff same_setup_def)
  obtain s2 where s2: "run (clbck (tmr ?s1 x)) (param (tmr ?s1 x)) ?s1 = ok s2"
    "J (if ticks_reload (tmr s x) > 0 then A else A - {x}) s2"
    "tmh s2 = ?h" "tmr s2 = (tmr s)(x := elapse ?u (tmr s x))" "timer_tick_unsynch s2 = ?u"
    using fire [OF J1 x] by auto
  let ?s' = "if ticks_reload (tmr s x) > 0
    then s2\<lparr>tmh := list_append ReloadList (TimerLink x) ?h\<rparr> else s2"
  have nxt: "lnext (tmh s) (TimerLink x) = hd (map TimerLink ys @ [TimerList])"
    using dlist_neighbours(2) [of "tmh s" TimerList "[]"] d by simp
  have d1: "dlist ?h TimerList (map TimerLink ys)"
    using dlist_unlink_split [of "tmh s" TimerList "[]"] d by simp
  have "dlist ?h ReloadList (map TimerLink rs) = dlist (tmh s) ReloadList (map TimerLink rs)"
    by (rule dlist_cong) (use xn disj in \<open>auto intro!: unlink_frame [OF d]\<close>)
  then have r1: "dlist ?h ReloadList (map TimerLink rs)" using r by simp
  have r2: "dlist (list_append ReloadList (TimerLink x) ?h) ReloadList (map TimerLink (rs @ [x]))"
    using dlist_append [OF r1, of "TimerLink x"] xn(2) by auto
  have d2: "dlist (list_append ReloadList (TimerLink x) ?h) TimerList (map TimerLink ys)"
    using d1 by (subst dlist_cong [of _ _ ?h])
      (use xn disj in \<open>auto intro!: append_frame [OF r1]\<close>)
  have loop: "timer_trigger_loop run (TimerLink x) s =
      timer_trigger_loop run (hd (map TimerLink ys @ [TimerList])) ?s'"
    using nxt z s2 by (subst timer_trigger_loop.simps)
      (auto simp: list_itr_end_def upd_tmr_def elapse_def Let_def)
  have J': "J (if ticks_reload (tmr s x) > 0 then A else A - {x}) ?s'"
    by (rule clock [OF s2(2)]) (auto simp: tm_frame_iff same_setup_def)
  have "call_seq run [(clbck (tmr s x), param (tmr s x))] s ?s'"
    by (rule call_cons [of _ ?s1 _ _ _ s2]) (use s2(1) in \<open>auto simp: tm_frame_iff intro: call_nil\<close>)
  then show ?thesis
    using loop J' s2(3-5) d1 d2 r1 r2
    by (intro exI [of _ ?s']) auto
qed

lemma trigger_loop_result:
  assumes "J A s" and "set xs \<subseteq> A" and "distinct (xs @ ys @ rs)"
    and "dlist (tmh s) TimerList (map TimerLink (xs @ ys))"
    and "dlist (tmh s) ReloadList (map TimerLink rs)"
    and "\<forall>x \<in> set xs. ticks_rem (tmr s x) = timer_tick_unsynch s"
    and "\<forall>y \<in> set ys. timer_tick_unsynch s < ticks_rem (tmr s y)"
  shows "\<exists>s'. timer_trigger_loop run (hd (map TimerLink (xs @ ys) @ [TimerList])) s = ok s' \<and>
    call_seq run (calls_of s xs) s s' \<and> J (A - {x \<in> set xs. ticks_reload (tmr s x) = 0}) s' \<and>
    tmr s' = (\<lambda>t. if t \<in> set (xs @ ys) then elapse (timer_tick_unsynch s) (tmr s t) else tmr s t) \<and>
    timer_tick_unsynch s' = timer_tick_unsynch s \<and>
    dlist (tmh s') TimerList (map TimerLink ys) \<and>
    dlist (tmh s') ReloadList (map TimerLink (rs @ filter (\<lambda>x. ticks_reload (tmr s x) > 0) xs))"
  using assms
proof (induction xs arbitrary: A s rs)
  case Nil
  let ?s = "s\<lparr>tmr := \<lambda>t. if t \<in> set ys then elapse (timer_tick_unsynch s) (tmr s t) else tmr s t\<rparr>"
  have "J A ?s" by (rule clock [OF Nil.prems(1)]) (auto simp: tm_frame_iff same_setup_def)
  moreover have "call_seq run [] s ?s" by (rule call_nil) (simp add: tm_frame_iff)
  ultimately show ?case
    using trigger_survivors [of s "[]" ys run] Nil.prems by (intro exI [of _ ?s]) auto
next
  case (Cons x xs)
  let ?u = "timer_tick_unsynch s" and ?re = "if ticks_reload (tmr s x) > 0 then [x] else []"
  let ?A = "if ticks_reload (tmr s x) > 0 then A else A - {x}"
  have x: "x \<in> A" "x \<notin> set (xs @ ys)" "x \<notin> set rs" "set rs \<inter> set (xs @ ys) = {}"
    using Cons.prems(2,3) by auto
  obtain s1 where s1:
    "timer_trigger_loop run (TimerLink x) s =
      timer_trigger_loop run (hd (map TimerLink (xs @ ys) @ [TimerList])) s1"
    "call_seq run [(clbck (tmr s x), param (tmr s x))] s s1" "J ?A s1"
    "tmr s1 = (tmr s)(x := elapse ?u (tmr s x))" "timer_tick_unsynch s1 = ?u"
    "dlist (tmh s1) TimerList (map TimerLink (xs @ ys))"
    "dlist (tmh s1) ReloadList (map TimerLink (rs @ ?re))"
    using trigger_one [OF Cons.prems(1) x(1-3) _ Cons.prems(5) x(4)] Cons.prems(4,6) by auto
  have same: "\<forall>t \<in> set (xs @ ys). tmr s1 t = tmr s t" using x(2) s1(4) by auto
  have "set xs \<subseteq> ?A" "distinct (xs @ ys @ (rs @ ?re))"
    "\<forall>t \<in> set xs. ticks_rem (tmr s1 t) = timer_tick_unsynch s1"
    "\<forall>t \<in> set ys. timer_tick_unsynch s1 < ticks_rem (tmr s1 t)"
    using Cons.prems(2,3,6,7) x same s1(5) by auto
  note IH = Cons.IH [OF s1(3) this(1,2) s1(6,7) this(3,4), unfolded s1(5)]
  obtain s' where s': "timer_trigger_loop run (hd (map TimerLink (xs @ ys) @ [TimerList])) s1 = ok s'"
    "call_seq run (calls_of s1 xs) s1 s'" "J (?A - {x \<in> set xs. ticks_reload (tmr s1 x) = 0}) s'"
    "tmr s' = (\<lambda>t. if t \<in> set (xs @ ys) then elapse ?u (tmr s1 t) else tmr s1 t)"
    "timer_tick_unsynch s' = ?u" "dlist (tmh s') TimerList (map TimerLink ys)"
    "dlist (tmh s') ReloadList (map TimerLink ((rs @ ?re) @ filter (\<lambda>x. ticks_reload (tmr s1 x) > 0) xs))"
    using IH by blast
  have eq: "calls_of s1 xs = calls_of s xs" using same by simp
  have calls: "call_seq run (calls_of s (x # xs)) s s'"
    using call_seq_append [OF s1(2) s'(2)] unfolding eq by simp
  have "?A - {t \<in> set xs. ticks_reload (tmr s1 t) = 0} =
      A - {t \<in> set (x # xs). ticks_reload (tmr s t) = 0}"
    using same x(2) by (auto simp: word_gt_0)
  moreover have "filter (\<lambda>x. ticks_reload (tmr s1 x) > 0) xs = filter (\<lambda>x. ticks_reload (tmr s x) > 0) xs"
    using same by (intro filter_cong) auto
  moreover have "tmr s' = (\<lambda>t. if t \<in> set ((x # xs) @ ys) then elapse ?u (tmr s t) else tmr s t)"
    using s'(4) s1(4) x(2) by (auto simp: fun_eq_iff)
  ultimately show ?case
    using s' s1(1) calls by (intro exI [of _ s']) (simp split: if_splits)
qed

end

text \<open>The re-armed timers enter the list with their reload value.\<close>

lemma reload_loop_result:
  assumes "dlist (tmh s) TimerList (map TimerLink ts)" and "dlist (tmh s) ReloadList (map TimerLink rs)"
    and "set ts \<inter> set rs = {}"
    and "T = (\<lambda>t. if t \<in> set rs then (tmr s t)\<lparr>ticks_rem := ticks_reload (tmr s t)\<rparr> else tmr s t)"
  shows "\<exists>h. timer_reload_loop s = ok (s\<lparr>tmh := h, tmr := T\<rparr>) \<and>
    dlist h TimerList (map TimerLink (fold (prio_insert (\<lambda>t. - uint (ticks_rem (T t)))) rs ts))"
  using assms
proof (induction rs arbitrary: s ts)
  case Nil
  then show ?case
    by (subst timer_reload_loop.simps) (auto simp: detachfirst_Nil intro!: exI [of _ "tmh s"])
next
  case (Cons r rs)
  let ?h1 = "list_unlink (TimerLink r) (tmh s)"
  let ?s1 = "upd_tmr r (\<lambda>k. k\<lparr>ticks_rem := ticks_reload k\<rparr>) (s\<lparr>tmh := ?h1\<rparr>)"
  have r: "r \<notin> set rs" "r \<notin> set ts"
    using dlist_timers_distinct [OF Cons.prems(2)] Cons.prems(3) by auto
  have det: "list_detachfirst ReloadList (tmh s) = (Some (TimerLink r), ?h1)"
    using detachfirst_Cons Cons.prems(2) by fastforce
  have rs1: "dlist ?h1 ReloadList (map TimerLink rs)"
    using dlist_unlink_split [of "tmh s" ReloadList "[]"] Cons.prems(2) by simp
  have ts1: "dlist (tmh ?s1) TimerList (map TimerLink ts)"
    using Cons.prems(1) by (simp, subst dlist_cong [of _ _ "tmh s"])
      (use Cons.prems(3) in \<open>auto intro!: unlink_frame [OF Cons.prems(2)]\<close>)
  obtain h where h: "timer_add r ?s1 = ok (?s1\<lparr>tmh := h\<rparr>)"
    "dlist h TimerList (map TimerLink (prio_insert (tkey ?s1) r ts))"
    "\<forall>n. n \<notin> set (TimerLink r # TimerList # map TimerLink ts) \<longrightarrow> same_links ?h1 h n"
    using timer_add_result [OF ts1 r(2)] by auto
  let ?s2 = "?s1\<lparr>tmh := h\<rparr>"
  have rs2: "dlist (tmh ?s2) ReloadList (map TimerLink rs)"
    using rs1 by (simp, subst dlist_cong [of _ _ ?h1]) (use h(3) r Cons.prems(3) in auto)
  have T: "T = (\<lambda>t. if t \<in> set rs then (tmr ?s2 t)\<lparr>ticks_rem := ticks_reload (tmr ?s2 t)\<rparr> else tmr ?s2 t)"
    using Cons.prems(4) r(1) by (auto simp: fun_eq_iff)
  have key: "prio_insert (tkey ?s1) r ts = prio_insert (\<lambda>t. - uint (ticks_rem (T t))) r ts"
    using Cons.prems(3,4) r by (intro prio_insert_cong) (auto simp: tkey_def)
  have "set (prio_insert (\<lambda>t. - uint (ticks_rem (T t))) r ts) \<inter> set rs = {}"
    using Cons.prems(3) r(1) by (auto simp: set_prio_insert)
  from Cons.IH [OF _ rs2 this T] h(2) obtain h' where
    "timer_reload_loop ?s2 = ok (?s2\<lparr>tmh := h', tmr := T\<rparr>)"
    "dlist h' TimerList (map TimerLink (fold (prio_insert (\<lambda>t. - uint (ticks_rem (T t)))) (r # rs) ts))"
    unfolding key by auto
  then show ?case
    using det h(1) by (subst timer_reload_loop.simps) (auto simp: upd_tmr_def Let_def)
qed

section \<open>The tick\<close>

text \<open>The timers that expire with the next tick, and the others.\<close>

definition expiring :: "kstate \<Rightarrow> timerid list \<Rightarrow> timerid list" where
  "expiring s ts = takeWhile (\<lambda>t. ticks_left s t = 1) ts"

definition pending :: "kstate \<Rightarrow> timerid list \<Rightarrow> timerid list" where
  "pending s ts = dropWhile (\<lambda>t. ticks_left s t = 1) ts"

definition rearmed :: "kstate \<Rightarrow> timerid list \<Rightarrow> timerid list" where
  "rearmed s ts = filter (\<lambda>t. ticks_reload (tmr s t) > 0) (expiring s ts)"

lemma expiring_split: "expiring s ts @ pending s ts = ts"
  by (simp add: expiring_def pending_def)

lemma set_expiring: "set ts = set (expiring s ts) \<union> set (pending s ts)"
  by (metis expiring_split set_append)

lemma expiring_distinct:
  "distinct ts \<Longrightarrow> distinct (expiring s ts @ pending s ts)"
  by (simp add: expiring_split)

lemma expiring_left: "t \<in> set (expiring s ts) \<Longrightarrow> ticks_left s t = 1"
  unfolding expiring_def by (rule set_takeWhileD [THEN conjunct2])

lemma ticks_left_pos: "tm_rel ts s \<Longrightarrow> t \<in> set ts \<Longrightarrow> 0 < ticks_left s t"
  using tm_relD(3) [of ts s t] by (simp add: ticks_left_def word_less_nat_alt)

lemma ticks_left_sorted:
  assumes "tm_rel ts s"
  shows "sorted_wrt (\<lambda>a b. ticks_left s a \<le> ticks_left s b) ts"
proof (rule sorted_wrt_mono_rel)
  show "sorted_wrt (\<lambda>x y. tkey s y \<le> tkey s x) ts"
    using tm_relD(2) [OF assms] by (simp add: prio_sorted_def)
  show "ticks_left s x \<le> ticks_left s y" if "tkey s y \<le> tkey s x" for x y
    using that by (auto simp: ticks_left_def tkey_le word_le_nat_alt intro: diff_le_mono)
qed

lemma pending_left:
  assumes "tm_rel ts s" and "t \<in> set (pending s ts)"
  shows "1 < ticks_left s t"
proof -
  have "pending s ts \<noteq> []" using assms(2) by auto
  then obtain d ds where ds: "pending s ts = d # ds" by (cases "pending s ts") auto
  then have "d \<in> set ts" using set_expiring [of ts s] by auto
  moreover have "ticks_left s d \<noteq> 1"
    using ds unfolding pending_def dropWhile_eq_Cons_conv by blast
  ultimately have "1 < ticks_left s d" using ticks_left_pos [OF assms(1)] by fastforce
  moreover have "sorted_wrt (\<lambda>a b. ticks_left s a \<le> ticks_left s b) (pending s ts)"
    using ticks_left_sorted [OF assms(1)] by (metis sorted_wrt_append expiring_split)
  then have "ticks_left s d \<le> ticks_left s t" using assms(2) ds by auto
  ultimately show ?thesis by simp
qed

lemma unsynch_next:
  assumes "u \<le> OS_TIMER_UNSYNCH_MAX"
  shows "unat (u + 1) = unat u + 1"
  using assms unat_add_lem [of u 1] by (simp add: OS_TIMER_UNSYNCH_MAX_def word_le_nat_alt)

lemma rem_after_tick:
  assumes "tm_rel ts s" and "t \<in> set ts"
  shows "unat (ticks_rem (tmr s t)) = unat (timer_tick_unsynch s + 1) + (ticks_left s t - 1)"
  using tm_relD(3) [OF assms] unsynch_next [OF tm_relD(6) [OF assms(1)]]
  by (simp add: ticks_left_def word_less_nat_alt)

lemma fold_prio_insert_sorted: "prio_sorted k xs \<Longrightarrow> prio_sorted k (fold (prio_insert k) rs xs)"
  by (induction rs arbitrary: xs) (simp_all add: prio_sorted_insert)

lemma set_fold_prio_insert: "set (fold (prio_insert k) rs xs) = set rs \<union> set xs"
  by (induction rs arbitrary: xs) (auto simp: set_prio_insert)

text \<open>The timers after the synchronisation, and that it restores the invariant.\<close>

definition synched :: "kstate \<Rightarrow> timerid list \<Rightarrow> timerid \<Rightarrow> os_timer" where
  "synched s ts t =
     (if t \<in> set (rearmed s ts) then (tmr s t)\<lparr>ticks_rem := ticks_reload (tmr s t)\<rparr>
      else if t \<in> set ts then elapse (timer_tick_unsynch s + 1) (tmr s t)
      else tmr s t)"

lemma synched_setup:
  "clbck (synched s ts t) = clbck (tmr s t)" "param (synched s ts t) = param (tmr s t)"
  "ticks_reload (synched s ts t) = ticks_reload (tmr s t)" "magic (synched s ts t) = magic (tmr s t)"
  by (simp_all add: synched_def)

lemma synched_rem:
  assumes "tm_rel ts s"
  shows "unat (ticks_rem (synched s ts t)) =
    (if t \<in> set (rearmed s ts) then unat (ticks_reload (tmr s t))
     else if t \<in> set ts then ticks_left s t - 1 else 0)"
proof -
  have "unat (ticks_rem (tmr s t) - (timer_tick_unsynch s + 1)) = ticks_left s t - 1" if "t \<in> set ts"
    using rem_after_tick [OF assms that] by (simp add: unat_sub word_le_nat_alt)
  then show ?thesis using tm_relD(5) [OF assms] by (simp add: synched_def)
qed

lemma synched_rel:
  assumes rel: "tm_rel ts s" and tmr: "tmr s' = synched s ts" and u: "timer_tick_unsynch s' = 0"
    and ts': "ts' = fold (prio_insert (tkey s')) (rearmed s ts) (pending s ts)"
    and d: "dlist (tmh s') TimerList (map TimerLink ts')"
  shows "tm_rel ts' s'" and "set ts' = set ts - {t \<in> set (expiring s ts). ticks_reload (tmr s t) = 0}"
    and "ticks_left s' t = unat (ticks_rem (synched s ts t))"
proof -
  have dist: "distinct (expiring s ts @ pending s ts)"
    by (rule expiring_distinct) (rule dlist_timers_distinct [OF tm_relD(1) [OF rel]])
  have re: "set (rearmed s ts) \<subseteq> set (expiring s ts)" by (auto simp: rearmed_def)
  show set: "set ts' = set ts - {t \<in> set (expiring s ts). ticks_reload (tmr s t) = 0}"
    using dist set_expiring [of ts s] by (auto simp: ts' set_fold_prio_insert rearmed_def word_gt_0)
  show "ticks_left s' t = unat (ticks_rem (synched s ts t))"
    by (simp add: ticks_left_def tmr u)
  have pos: "0 < unat (ticks_rem (tmr s' t))" if "t \<in> set ts'" for t
    using that pending_left [OF rel, of t] dist re set_expiring [of ts s]
    unfolding ts' set_fold_prio_insert tmr synched_rem [OF rel]
    by (auto simp: rearmed_def word_gt_0 unat_gt_0)
  have zero: "ticks_rem (tmr s' t) = 0" if "t \<notin> set ts'" for t
    using that expiring_left [of t s ts] set set_expiring [of ts s] synched_rem [OF rel, of t]
    by (auto simp: tmr ts' set_fold_prio_insert unat_eq_zero split: if_splits)
  have "sorted_wrt (\<lambda>x y. tkey s' y \<le> tkey s' x) (pending s ts)"
  proof (rule sorted_wrt_mono_rel)
    show "sorted_wrt (\<lambda>a b. ticks_left s a \<le> ticks_left s b) (pending s ts)"
      using ticks_left_sorted [OF rel] by (metis sorted_wrt_append expiring_split)
    show "tkey s' y \<le> tkey s' x"
      if "x \<in> set (pending s ts)" "y \<in> set (pending s ts)" "ticks_left s x \<le> ticks_left s y" for x y
      using that dist re set_expiring [of ts s] synched_rem [OF rel, of x] synched_rem [OF rel, of y]
      by (auto simp: tkey_le tmr word_le_nat_alt)
  qed
  then have "prio_sorted (tkey s') ts'"
    unfolding ts' by (intro fold_prio_insert_sorted) (simp add: prio_sorted_def)
  then show "tm_rel ts' s'"
    using d pos zero tm_relD(4) [OF rel] set
    by (auto simp: tm_rel_def u tmr synched_setup unat_gt_0 OS_TIMER_UNSYNCH_MAX_def word_gt_0)
qed

context timer_client
begin

lemma trigger_run:
  assumes rel: "tm_rel ts s0" and J: "J (set ts) s0"
    and s: "s = s0\<lparr>timer_tick_unsynch := timer_tick_unsynch s0 + 1\<rparr>"
  shows "\<exists>s'. timer_trigger run s = ok s' \<and>
    J (set ts - {t \<in> set (expiring s0 ts). ticks_reload (tmr s0 t) = 0}) s' \<and>
    call_seq run (calls_of s0 (expiring s0 ts)) s0 s' \<and>
    tmr s' = synched s0 ts \<and> timer_tick_unsynch s' = 0 \<and>
    dlist (tmh s') TimerList
      (map TimerLink (fold (prio_insert (tkey s')) (rearmed s0 ts) (pending s0 ts)))"
proof -
  let ?u = "timer_tick_unsynch s0 + 1" and ?xs = "expiring s0 ts" and ?ys = "pending s0 ts"
  let ?rs = "rearmed s0 ts" and ?s1 = "s\<lparr>tmh := list_init ReloadList (tmh s)\<rparr>"
  have s1: "tmr ?s1 = tmr s0" "timer_tick_unsynch ?s1 = ?u" by (simp_all add: s)
  have parts: "distinct (?xs @ ?ys @ [])"
    using expiring_distinct [OF dlist_timers_distinct [OF tm_relD(1) [OF rel]]] by simp
  have "dlist (list_init ReloadList (tmh s0)) TimerList (map TimerLink (?xs @ ?ys))"
    unfolding expiring_split by (rule dlist_init_other [OF tm_relD(1) [OF rel]]) auto
  then have d1: "dlist (tmh ?s1) TimerList (map TimerLink (?xs @ ?ys))" by (simp add: s)
  have r1: "dlist (tmh ?s1) ReloadList (map TimerLink [])" by (simp add: dlist_init)
  have J1: "J (set ts) ?s1" by (rule clock [OF J]) (auto simp: s tm_frame_iff same_setup_def)
  have e: "\<forall>x \<in> set ?xs. ticks_rem (tmr ?s1 x) = timer_tick_unsynch ?s1"
    using rem_after_tick [OF rel] expiring_left set_expiring [of ts s0]
    by (auto simp: s word_unat_eq_iff)
  have g: "\<forall>y \<in> set ?ys. timer_tick_unsynch ?s1 < ticks_rem (tmr ?s1 y)"
    using rem_after_tick [OF rel] pending_left [OF rel] set_expiring [of ts s0]
    by (fastforce simp: s word_less_nat_alt)
  have sub: "set ?xs \<subseteq> set ts" using set_expiring [of ts s0] by simp
  have itr: "list_itr_begin TimerList (tmh ?s1) = hd (map TimerLink (?xs @ ?ys) @ [TimerList])"
    using dlist_next [OF d1] by (simp add: list_itr_begin_def)
  obtain s2 where s2: "timer_trigger_loop run (list_itr_begin TimerList (tmh ?s1)) ?s1 = ok s2"
    "call_seq run (calls_of s0 ?xs) ?s1 s2"
    "J (set ts - {x \<in> set ?xs. ticks_reload (tmr s0 x) = 0}) s2"
    "tmr s2 = (\<lambda>t. if t \<in> set ts then elapse ?u (tmr s0 t) else tmr s0 t)"
    "dlist (tmh s2) TimerList (map TimerLink ?ys)" "dlist (tmh s2) ReloadList (map TimerLink ?rs)"
    using trigger_loop_result [OF J1 sub parts d1 r1 e g] unfolding itr expiring_split s1 rearmed_def
    by auto
  let ?s3 = "s2\<lparr>timer_tick_unsynch := 0\<rparr>"
  have T: "synched s0 ts = (\<lambda>t. if t \<in> set ?rs
      then (tmr ?s3 t)\<lparr>ticks_rem := ticks_reload (tmr ?s3 t)\<rparr> else tmr ?s3 t)"
    using sub by (auto simp: fun_eq_iff synched_def s2(4) elapse_def rearmed_def)
  have "set ?ys \<inter> set ?rs = {}" using parts by (auto simp: rearmed_def)
  then obtain h where h: "timer_reload_loop ?s3 = ok (?s3\<lparr>tmh := h, tmr := synched s0 ts\<rparr>)"
    "dlist h TimerList (map TimerLink
      (fold (prio_insert (\<lambda>t. - uint (ticks_rem (synched s0 ts t)))) ?rs ?ys))"
    using reload_loop_result [OF _ _ _ T, of ?ys] s2(5,6) by auto
  let ?s' = "?s3\<lparr>tmh := h, tmr := synched s0 ts\<rparr>"
  have "timer_trigger run s = ok ?s'" using s2(1) h(1) by (simp add: timer_trigger_def Let_def)
  moreover have "tkey ?s' = (\<lambda>t. - uint (ticks_rem (synched s0 ts t)))"
    by (simp add: tkey_def fun_eq_iff)
  moreover have "J (set ts - {x \<in> set ?xs. ticks_reload (tmr s0 x) = 0}) ?s'"
    by (rule clock [OF s2(3)]) (auto simp: tm_frame_iff same_setup_def synched_setup s2(4))
  moreover have "call_seq run (calls_of s0 ?xs) s0 ?s'"
    using s2(2) by (rule call_seq_frame_left [THEN call_seq_frame_right]) (auto simp: s tm_frame_iff)
  ultimately show ?thesis using h(2) by (intro exI [of _ ?s']) simp
qed

text \<open>A tick that is only counted.\<close>

lemma tick_counted:
  assumes rel: "tm_rel ts s" and J: "J (set ts) s" and ts: "ts = t0 # ts0"
    and t0: "1 < ticks_left s t0" and u: "timer_tick_unsynch s < OS_TIMER_UNSYNCH_MAX"
  shows "\<exists>s'. os_tick_timers run s = ok s' \<and> tm_rel ts s' \<and> J (set ts) s' \<and>
    call_seq run [] s s' \<and> same_setup s s' \<and> expiring s ts = [] \<and>
    (\<forall>t. ticks_left s' t = unat (ticks_rem (synched s ts t)))"
proof -
  let ?s = "s\<lparr>timer_tick_unsynch := timer_tick_unsynch s + 1\<rparr>"
  note un = unsynch_next [OF tm_relD(6) [OF rel]]
  have ex: "expiring s ts = []" using t0 by (simp add: expiring_def ts)
  have pend: "\<forall>t \<in> set ts. timer_tick_unsynch ?s < ticks_rem (tmr s t)"
    using pending_left [OF rel] rem_after_tick [OF rel] set_expiring [of ts s] ex
    by (fastforce simp: word_less_nat_alt)
  have "os_tick_timers run s = ok ?s"
    using dlist_is_empty [OF tm_relD(1) [OF rel]] dlist_peekfirst [OF tm_relD(1) [OF rel]] ts u pend un
    by (auto simp: os_tick_timers_def Let_def word_less_nat_alt word_le_nat_alt not_le)
  moreover have "tm_rel ts ?s"
    using rel pend u un ts tkey_sorted_cong [of ts ?s s]
    by (auto simp: tm_rel_def word_less_nat_alt word_le_nat_alt)
  moreover have "J (set ts) ?s" by (rule clock [OF J]) (auto simp: tm_frame_iff same_setup_def)
  moreover have "call_seq run [] s ?s" by (rule call_nil) (simp add: tm_frame_iff)
  moreover have "ticks_left ?s t = unat (ticks_rem (synched s ts t))" for t
    using un tm_relD(5) [OF rel, of t] synched_rem [OF rel, of t] ex by (auto simp: ticks_left_def rearmed_def)
  ultimately show ?thesis using ex by (intro exI [of _ ?s]) (simp add: same_setup_def)
qed

text \<open>A tick that synchronises the list.\<close>

lemma tick_synched:
  assumes rel: "tm_rel ts s" and J: "J (set ts) s" and ts: "ts = t0 # ts0"
    and cond: "\<not> (1 < ticks_left s t0 \<and> timer_tick_unsynch s < OS_TIMER_UNSYNCH_MAX)"
  shows "\<exists>s' ts'. os_tick_timers run s = ok s' \<and> tm_rel ts' s' \<and> J (set ts') s' \<and>
    call_seq run (calls_of s (expiring s ts)) s s' \<and> same_setup s s' \<and>
    set ts' = set ts - {t \<in> set (expiring s ts). ticks_reload (tmr s t) = 0} \<and>
    (\<forall>t. ticks_left s' t = unat (ticks_rem (synched s ts t)))"
proof -
  let ?s = "s\<lparr>timer_tick_unsynch := timer_tick_unsynch s + 1\<rparr>"
  obtain s' where s': "timer_trigger run ?s = ok s'"
    "J (set ts - {t \<in> set (expiring s ts). ticks_reload (tmr s t) = 0}) s'"
    "call_seq run (calls_of s (expiring s ts)) s s'" "tmr s' = synched s ts" "timer_tick_unsynch s' = 0"
    "dlist (tmh s') TimerList (map TimerLink (fold (prio_insert (tkey s')) (rearmed s ts) (pending s ts)))"
    using trigger_run [OF rel J refl] by blast
  have "timer_tick_unsynch s + 1 \<ge> ticks_rem (tmr s t0) \<or> timer_tick_unsynch s + 1 > OS_TIMER_UNSYNCH_MAX"
    using cond ts rem_after_tick [OF rel, of t0] unsynch_next [OF tm_relD(6) [OF rel]]
    by (auto simp: word_le_nat_alt word_less_nat_alt)
  then have "os_tick_timers run s = ok s'"
    using dlist_is_empty [OF tm_relD(1) [OF rel]] dlist_peekfirst [OF tm_relD(1) [OF rel]] ts s'(1)
    by (auto simp: os_tick_timers_def Let_def)
  moreover note synched_rel [OF rel s'(4,5) refl s'(6)]
  moreover have "same_setup s s'" by (simp add: same_setup_def s'(4) synched_setup)
  ultimately show ?thesis using s'(2,3) by auto
qed

lemma tick_timers_result:
  assumes rel: "tm_rel ts s" and J: "J (set ts) s"
  shows "\<exists>s' ts'. os_tick_timers run s = ok s' \<and> tm_rel ts' s' \<and> J (set ts') s' \<and>
    call_seq run (calls_of s (expiring s ts)) s s' \<and> same_setup s s' \<and>
    set ts' = set ts - {t \<in> set (expiring s ts). ticks_reload (tmr s t) = 0} \<and>
    (\<forall>t. ticks_left s' t = unat (ticks_rem (synched s ts t)))"
proof (cases ts)
  case Nil
  then have "os_tick_timers run s = ok s"
    using dlist_is_empty [OF tm_relD(1) [OF rel]] by (simp add: os_tick_timers_def)
  then show ?thesis
    using rel J Nil tm_relD(5,7) [OF rel]
    by (intro exI [of _ s] exI [of _ "[]"])
      (auto simp: expiring_def same_setup_def ticks_left_def synched_def rearmed_def intro: call_nil)
next
  case (Cons t0 ts0)
  show ?thesis
  proof (cases "1 < ticks_left s t0 \<and> timer_tick_unsynch s < OS_TIMER_UNSYNCH_MAX")
    case True
    then show ?thesis using tick_counted [OF rel J Cons] by auto
  next
    case False
    then show ?thesis by (rule tick_synched [OF rel J Cons])
  qed
qed

end

section \<open>Callbacks that leave the timers alone\<close>

definition quiet_callbacks ::
  "(timer_proc \<Rightarrow> timer_param \<Rightarrow> kstate \<Rightarrow> kstate kres) \<Rightarrow> bool" where
  "quiet_callbacks run \<longleftrightarrow>
     (\<forall>p a s. \<exists>s'. run p a s = ok s' \<and> tmh s' = tmh s \<and> tmr s' = tmr s \<and>
        timer_tick_unsynch s' = timer_tick_unsynch s)"

interpretation quiet: timer_client run "\<lambda>_ _. quiet_callbacks run" for run
  by unfold_locales (auto simp: quiet_callbacks_def)

lemma expiring_iff:
  "tm_rel ts s \<Longrightarrow> t \<in> set (expiring s ts) \<longleftrightarrow> t \<in> set ts \<and> ticks_left s t = 1"
  using expiring_left [of t s ts] pending_left [of ts s t] set_expiring [of ts s] by auto

section \<open>Properties\<close>


lemma timers_init_rel:
  assumes "\<forall>t. ticks_rem (tmr s t) = 0" and "timer_tick_unsynch s = 0"
  shows "tm_rel [] (os_timers_init s)"
  using assms by (auto simp: tm_rel_def os_timers_init_def dlist_init prio_sorted_def OS_TIMER_UNSYNCH_MAX_def)

lemma boot_timers: "tm_rel [] (os_timers_init boot)"
  by (rule timers_init_rel) (simp_all add: boot_def)

lemma boot_magic: "magic (tmr (os_timers_init boot) t) \<noteq> OS_TIMER_MAGIC1"
  by (simp add: os_timers_init_def boot_def OS_TIMER_MAGIC1_def)

lemma quiet_ok: "quiet_callbacks (\<lambda>_ _ s. ok s)"
  by (simp add: quiet_callbacks_def)


text \<open>\<open>n\<close> ticks in a row.\<close>

fun tick_n :: "(timer_proc \<Rightarrow> timer_param \<Rightarrow> kstate \<Rightarrow> kstate kres) \<Rightarrow> nat \<Rightarrow> kstate \<Rightarrow> kstate kres" where
  "tick_n run 0 s = ok s"
| "tick_n run (Suc n) s = kbind (tick_n run n s) (os_tick_timers run)"

lemma tick_n_countdown:
  assumes "tm_rel ts s" and "quiet_callbacks run" and "t \<in> set ts" and "n < ticks_left s t"
  shows "\<exists>s' ts'. tick_n run n s = ok s' \<and> tm_rel ts' s' \<and> t \<in> set ts' \<and>
    ticks_left s' t = ticks_left s t - n \<and> clbck (tmr s' t) = clbck (tmr s t) \<and>
    param (tmr s' t) = param (tmr s t)"
  using assms(4)
proof (induction n)
  case 0
  then show ?case using assms by auto
next
  case (Suc n)
  then obtain s1 ts1 where s1: "tick_n run n s = ok s1" "tm_rel ts1 s1" "t \<in> set ts1"
    "ticks_left s1 t = ticks_left s t - n" "clbck (tmr s1 t) = clbck (tmr s t)"
    "param (tmr s1 t) = param (tmr s t)" by auto
  obtain s' ts' where s': "os_tick_timers run s1 = ok s'" "tm_rel ts' s'" "same_setup s1 s'"
    "set ts' = set ts1 - {t \<in> set (expiring s1 ts1). ticks_reload (tmr s1 t) = 0}"
    "ticks_left s' t = unat (ticks_rem (synched s1 ts1 t))"
    using quiet.tick_timers_result [OF s1(2) assms(2)] by blast
  have "t \<notin> set (expiring s1 ts1)"
    using expiring_left [of t s1 ts1] s1(4) Suc.prems by auto
  then have "t \<in> set ts'" "ticks_left s' t = ticks_left s1 t - 1"
    using s'(4,5) s1(3) synched_rem [OF s1(2), of t] by (auto simp: rearmed_def)
  then show ?case
    using s' s1 Suc.prems by (intro exI [of _ s'] exI [of _ ts']) (auto simp: same_setup_def)
qed



lemma remove1_prio_insert: "e \<notin> set xs \<Longrightarrow> remove1 e (prio_insert k e xs) = xs"
  by (induction xs) auto

text \<open>C26. Destroying a timer undoes its creation: the timer list is the old one, all other
  timers keep their ticks, and the destroyed timer may be destroyed again without effect or
  created anew. A creation that breaks the documented bounds, or reuses an active timer, halts
  the system.\<close>

theorem timer_create_destroy:
  assumes "tm_rel ts s"
  shows "(0 < timeout \<and> timeout < OS_TIMER_TICKSREM_MAX \<and> magic (tmr s t) \<noteq> OS_TIMER_MAGIC1 \<longrightarrow>
      (\<exists>s1 s2 s3. os_timer_create t cb prm timeout reload s = ok s1 \<and> os_timer_destroy t s1 = ok s2 \<and>
        tm_rel ts s2 \<and> (\<forall>d. d \<noteq> t \<longrightarrow> tmr s2 d = tmr s d) \<and> (\<forall>d \<in> set ts. ticks_left s2 d = ticks_left s d) \<and>
        magic (tmr s2 t) \<noteq> OS_TIMER_MAGIC1 \<and> tm_frame s s2 \<and>
        os_timer_destroy t s2 = ok s3 \<and> tm_rel ts s3 \<and> tmr s3 = tmr s2)) \<and>
    (\<not> (0 < timeout \<and> timeout < OS_TIMER_TICKSREM_MAX \<and> magic (tmr s t) \<noteq> OS_TIMER_MAGIC1) \<longrightarrow>
      os_timer_create t cb prm timeout reload s = os_halt s)"
proof (intro conjI impI, elim conjE)
  assume a: "0 < timeout" "timeout < OS_TIMER_TICKSREM_MAX" "magic (tmr s t) \<noteq> OS_TIMER_MAGIC1"
  let ?ins = "\<lambda>s1. prio_insert (tkey s1) t ts"
  have t: "t \<notin> set ts" using tm_relD(4) [OF assms] a(3) by blast
  obtain s1 where s1: "os_timer_create t cb prm timeout reload s = ok s1" "tm_frame s s1"
    "timer_tick_unsynch s1 = timer_tick_unsynch s" "\<And>d. d \<noteq> t \<Longrightarrow> tmr s1 d = tmr s d"
    "magic (tmr s1 t) = OS_TIMER_MAGIC1" "tm_rel (?ins s1) s1"
    using timer_create_result [OF assms a] by fastforce
  obtain s2 where s2: "os_timer_destroy t s1 = ok s2" "tm_frame s1 s2" "tm_rel ts s2"
    "timer_tick_unsynch s2 = (if ts = [] then 0 else timer_tick_unsynch s)"
    "tmr s2 = (tmr s1)(t := (tmr s1 t)\<lparr>ticks_rem := 0, ticks_reload := 0, magic := OS_TIMER_MAGIC2\<rparr>)"
    using timer_destroy_result [OF s1(6), of t] s1(3,5) t by (auto simp: remove1_prio_insert set_prio_insert)
  obtain s3 where s3: "os_timer_destroy t s2 = ok s3" "tm_rel ts s3" "tmr s3 = tmr s2"
    using timer_destroy_result [OF s2(3), of t] s2(5) t by (auto simp: remove1_idem)
  have "\<forall>d \<in> set ts. ticks_left s2 d = ticks_left s d"
    using s1(4) s2(4,5) t by (auto simp: ticks_left_def)
  moreover have "magic (tmr s2 t) \<noteq> OS_TIMER_MAGIC1"
    by (simp add: s2(5) OS_TIMER_MAGIC1_def OS_TIMER_MAGIC2_def)
  moreover have "\<forall>d. d \<noteq> t \<longrightarrow> tmr s2 d = tmr s d" using s1(4) s2(5) by simp
  ultimately show "\<exists>s1 s2 s3. os_timer_create t cb prm timeout reload s = ok s1 \<and> os_timer_destroy t s1 = ok s2 \<and>
      tm_rel ts s2 \<and> (\<forall>d. d \<noteq> t \<longrightarrow> tmr s2 d = tmr s d) \<and> (\<forall>d \<in> set ts. ticks_left s2 d = ticks_left s d) \<and>
      magic (tmr s2 t) \<noteq> OS_TIMER_MAGIC1 \<and> tm_frame s s2 \<and>
      os_timer_destroy t s2 = ok s3 \<and> tm_rel ts s3 \<and> tmr s3 = tmr s2"
    using s1(1) s2(1,3) s3 tm_frame_trans [OF s1(2) s2(2)] by blast
qed (auto simp: os_timer_create_def os_assert_def)

theorem timer_create_destroy_witness:
  "\<exists>s1 s2. os_timer_create (UserTimer 0) (UserTimerProc 0) (UserParam 0) 3 0 (os_timers_init boot) = ok s1 \<and>
     os_timer_destroy (UserTimer 0) s1 = ok s2 \<and> tm_rel [] s2"
  using timer_create_destroy [OF boot_timers, of 3 "UserTimer 0" "UserTimerProc 0" "UserParam 0" 0]
    boot_magic [of "UserTimer 0"]
  by (auto simp: OS_TIMER_TICKSREM_MAX_def OS_TIMER_UNSYNCH_MAX_def)

text \<open>C27. \<open>os_ticks_diff\<close> measures the ticks between two readings of the 16 bit tick counter
  although the counter wraps around: it is the difference modulo the width of the counter, so
  it is the exact number of ticks in between whenever that number fits in 16 bits.\<close>

theorem ticks_diff_exact:
  "os_ticks_diff ticks_start ticks_end = ticks_end - ticks_start \<and>
   unat (os_ticks_diff ticks_start (ticks_start + word_of_nat n)) = n mod 2 ^ 16"
proof -
  have "os_ticks_diff a b = b - a" for a b
    by (simp add: os_ticks_diff_def OS_TICKS_MAX_def)
  then show ?thesis by (simp add: unat_of_nat)
qed

section \<open>Callbacks that change the timers\<close>

text \<open>Destroying a periodic timer from its own callback does not stop it: the timer has already
  expired, so its reload value is not cleared and the synchronisation arms it again.\<close>

definition self_destroying :: "timer_proc \<Rightarrow> timer_param \<Rightarrow> kstate \<Rightarrow> kstate kres" where
  "self_destroying p a s = os_timer_destroy (UserTimer 0) s"

definition one_periodic :: kstate where
  "one_periodic = (os_timers_init boot)\<lparr>
     tmr := (\<lambda>_. \<lparr>ticks_rem = 0, ticks_reload = 0, clbck = UserTimerProc 0, param = UserParam 0, magic = 0\<rparr>)
       (UserTimer 0 := \<lparr>ticks_rem = 1, ticks_reload = 7, clbck = UserTimerProc 0, param = UserParam 0,
          magic = OS_TIMER_MAGIC1\<rparr>),
     tmh := list_append TimerList (TimerLink (UserTimer 0)) (tmh (os_timers_init boot))\<rparr>"

lemma destroy_in_callback_restarts:
  "case os_tick_timers self_destroying one_periodic of
     Some (Inr s) \<Rightarrow> magic (tmr s (UserTimer 0)) = OS_TIMER_MAGIC2 \<and> ticks_rem (tmr s (UserTimer 0)) = 7 \<and>
       list_peekfirst TimerList (tmh s) = Some (TimerLink (UserTimer 0))
   | _ \<Rightarrow> False"
  by code_simp

text \<open>A callback that destroys the next timer of the list makes \<open>timer_trigger\<close> run for ever: the
  loop has already stepped to that timer, whose links then lead back to itself.\<close>

lemma self_linked_diverges:
  assumes link: "\<And>s. I s \<Longrightarrow> lnext (tmh s) (TimerLink b) = TimerLink b"
    and count: "\<And>s. I s \<Longrightarrow> I (upd_tmr b (elapse (timer_tick_unsynch s)) s)"
    and keep: "\<And>s s'. I s \<Longrightarrow> run (clbck (tmr s b)) (param (tmr s b)) (s\<lparr>tmh := list_unlink (TimerLink b) (tmh s)\<rparr>) = ok s' \<Longrightarrow>
      I s' \<and> ticks_reload (tmr s' b) = 0"
    and loop: "timer_trigger_loop run (TimerLink b) s = Some r" and start: "I s"
  shows "\<exists>e. r = Inl e"
proof -
  have "rn = run \<longrightarrow> itr = TimerLink b \<longrightarrow> I s \<longrightarrow> (\<exists>e. r = Inl e)" if "timer_trigger_loop rn itr s = Some r" for rn itr s r
  proof (rule timer_trigger_loop.raw_induct [OF _ that], intro impI)
    fix f rn itr s r
    assume step: "(if list_itr_end TimerList itr then ok s else case itr of
        TimerLink t \<Rightarrow>
          let itr = lnext (tmh s) itr; s = upd_tmr t (\<lambda>k. k\<lparr>ticks_rem := ticks_rem k - timer_tick_unsynch s\<rparr>) s
          in if ticks_rem (tmr s t) > 0 then f rn itr s
             else let s = s\<lparr>tmh := list_unlink (TimerLink t) (tmh s)\<rparr>
                  in kbind (rn (clbck (tmr s t)) (param (tmr s t)) s)
                       (\<lambda>s. f rn itr (if ticks_reload (tmr s t) > 0
                           then s\<lparr>tmh := list_append ReloadList (TimerLink t) (tmh s)\<rparr> else s))
      | _ \<Rightarrow> fail Null_deref) = Some r"
      and ih: "\<And>rn itr s r. f rn itr s = Some r \<Longrightarrow> rn = run \<longrightarrow> itr = TimerLink b \<longrightarrow> I s \<longrightarrow> (\<exists>e. r = Inl e)"
      and a: "rn = run" "itr = TimerLink b" "I s"
    let ?s = "upd_tmr b (elapse (timer_tick_unsynch s)) s"
    have s: "I ?s" "lnext (tmh s) (TimerLink b) = TimerLink b" using count link a(3) by auto
    show "\<exists>e. r = Inl e"
    proof (cases "ticks_rem (tmr ?s b) > 0")
      case True
      then have "f run (TimerLink b) ?s = Some r" using step a s(2) by (simp add: list_itr_end_def upd_tmr_def elapse_def Let_def)
      then show ?thesis using ih s(1) by blast
    next
      case False
      then have body: "kbind (run (clbck (tmr ?s b)) (param (tmr ?s b)) (?s\<lparr>tmh := list_unlink (TimerLink b) (tmh ?s)\<rparr>))
          (\<lambda>s. f run (TimerLink b) (if ticks_reload (tmr s b) > 0
             then s\<lparr>tmh := list_append ReloadList (TimerLink b) (tmh s)\<rparr> else s)) = Some r"
        using step a s(2) by (simp add: list_itr_end_def upd_tmr_def elapse_def Let_def)
      show ?thesis
      proof (cases r)
        case (Inr s')
        then obtain s2 where s2: "run (clbck (tmr ?s b)) (param (tmr ?s b)) (?s\<lparr>tmh := list_unlink (TimerLink b) (tmh ?s)\<rparr>) = ok s2"
          "f run (TimerLink b) (if ticks_reload (tmr s2 b) > 0
             then s2\<lparr>tmh := list_append ReloadList (TimerLink b) (tmh s2)\<rparr> else s2) = Some r"
          using body unfolding Inr kbind_ok by blast
        then show ?thesis using keep [OF s(1) s2(1)] ih [of run "TimerLink b" s2 r] by simp
      qed simp
    qed
  qed
  then show ?thesis using loop start by blast
qed

definition destroying_next :: "timer_proc \<Rightarrow> timer_param \<Rightarrow> kstate \<Rightarrow> kstate kres" where
  "destroying_next p a s = os_timer_destroy (UserTimer 1) s"

lemma destroying_next_keeps:
  assumes "destroying_next p a s = ok s'" and "lnext (tmh s) (TimerLink (UserTimer 1)) = TimerLink (UserTimer 1)"
    and "ticks_reload (tmr s (UserTimer 1)) = 0"
  shows "lnext (tmh s') (TimerLink (UserTimer 1)) = TimerLink (UserTimer 1) \<and>
    ticks_reload (tmr s' (UserTimer 1)) = 0"
proof -
  note defs = destroying_next_def os_timer_destroy_def os_assert_ok os_critical_enter_def
    os_critical_exit_def arch_critical_enter_def upd_tmr_def list_h_defs
  show ?thesis using assms by (auto simp: defs split: if_splits)
qed

definition two_timers :: kstate where
  "two_timers = boot\<lparr>
     tmr := (\<lambda>t. \<lparr>ticks_rem = (if t = UserTimer 0 then 1 else if t = UserTimer 1 then 5 else 0),
        ticks_reload = 0, clbck = UserTimerProc 0, param = UserParam 0, magic = OS_TIMER_MAGIC1\<rparr>),
     tmh := list_append TimerList (TimerLink (UserTimer 1))
       (list_append TimerList (TimerLink (UserTimer 0)) (tmh boot))\<rparr>"

lemma destroy_next_never_returns: "os_tick_timers destroying_next two_timers \<noteq> ok s'"
proof
  let ?a = "TimerLink (UserTimer 0)" and ?b = "TimerLink (UserTimer 1)"
  let ?s1 = "two_timers\<lparr>timer_tick_unsynch := 1, tmh := list_init ReloadList (tmh two_timers)\<rparr>"
  let ?s2 = "upd_tmr (UserTimer 0) (elapse 1) (?s1\<lparr>tmh := list_unlink ?a (tmh ?s1)\<rparr>)"
  assume "os_tick_timers destroying_next two_timers = ok s'"
  then have "kbind (timer_trigger_loop destroying_next ?a ?s1)
      (\<lambda>s. timer_reload_loop (s\<lparr>timer_tick_unsynch := 0\<rparr>)) = ok s'"
    by (simp add: os_tick_timers_def timer_trigger_def two_timers_def boot_def list_is_empty_def
        list_peekfirst_def list_itr_begin_def list_h_defs)
  then obtain s3 where s3: "timer_trigger_loop destroying_next ?a ?s1 = ok s3"
    unfolding kbind_ok by blast
  have step: "timer_trigger_loop destroying_next ?a ?s1 =
      kbind (destroying_next (UserTimerProc 0) (UserParam 0) ?s2) (\<lambda>s. timer_trigger_loop destroying_next ?b
        (if ticks_reload (tmr s (UserTimer 0)) > 0
         then s\<lparr>tmh := list_append ReloadList ?a (tmh s)\<rparr> else s))"
    by (subst timer_trigger_loop.simps)
      (simp add: list_itr_end_def two_timers_def boot_def list_h_defs upd_tmr_def elapse_def)
  obtain s4 where s4: "destroying_next (UserTimerProc 0) (UserParam 0) ?s2 = ok s4"
    "timer_trigger_loop destroying_next ?b (if ticks_reload (tmr s4 (UserTimer 0)) > 0
       then s4\<lparr>tmh := list_append ReloadList ?a (tmh s4)\<rparr> else s4) = ok s3"
    using trans [OF step [symmetric] s3] unfolding kbind_ok by blast
  have f4: "lnext (tmh s4) ?b = ?b \<and> ticks_reload (tmr s4 (UserTimer 1)) = 0 \<and>
      ticks_reload (tmr s4 (UserTimer 0)) = 0"
    using s4(1) by (auto simp: destroying_next_def os_timer_destroy_def os_critical_enter_def
        os_critical_exit_def arch_critical_enter_def two_timers_def boot_def list_h_defs upd_tmr_def
        elapse_def list_is_empty_def)
  have "\<exists>e. Inr s3 = (Inl e :: kerror + kstate)"
  proof (rule self_linked_diverges [where I = "\<lambda>s. lnext (tmh s) ?b = ?b \<and> ticks_reload (tmr s (UserTimer 1)) = 0" and
        b = "UserTimer 1" and run = destroying_next and s = s4])
    fix s s' assume "lnext (tmh s) ?b = ?b \<and> ticks_reload (tmr s (UserTimer 1)) = 0"
      "destroying_next (clbck (tmr s (UserTimer 1))) (param (tmr s (UserTimer 1))) (s\<lparr>tmh := list_unlink ?b (tmh s)\<rparr>) = ok s'"
    then show "(lnext (tmh s') ?b = ?b \<and> ticks_reload (tmr s' (UserTimer 1)) = 0) \<and> ticks_reload (tmr s' (UserTimer 1)) = 0"
      using destroying_next_keeps [of _ _ "s\<lparr>tmh := list_unlink ?b (tmh s)\<rparr>" s'] by (simp add: list_h_defs)
  qed (use f4 s4(2) in \<open>simp_all add: upd_tmr_def\<close>)
  then show False by simp
qed

end
