(* ===== verification/Wakeup.thy ===== *)
theory Wakeup
  imports Timer
begin

text \<open>
  The invariant of the kernel as a whole, and the step that all synchronisation objects share:
  a waiting task is taken from a queue, its timeout guard is destroyed, it gets a return code
  and becomes ready. The loops that wake up several tasks meet the contract \<open>drain\<close>, which gives
  their termination and their result once for all.
\<close>

section \<open>Timeout guards\<close>

text \<open>The timer of a task's timeout guard is \<open>BlockTimer t\<close>; while it is armed (in \<open>A\<close>) the task
  waits. The tasks \<open>X\<close> are on their way to wait.\<close>

definition guards :: "tid set \<Rightarrow> timerid set \<Rightarrow> kstate \<Rightarrow> bool" where
  "guards X A s \<longleftrightarrow>
     (\<forall>t. timer (task s t) \<in> {None, Some (BlockTimer t)}) \<and>
     (\<forall>t. magic (tmr s (BlockTimer t)) = OS_TIMER_MAGIC1 \<longleftrightarrow> timer (task s t) \<noteq> None) \<and>
     (\<forall>t. BlockTimer t \<in> A \<longrightarrow>
        (t \<in> X \<or> state (task s t) = TASKSTATE_WAIT) \<and> param (tmr s (BlockTimer t)) = TaskParam t \<and>
        ticks_reload (tmr s (BlockTimer t)) = 0 \<and>
        clbck (tmr s (BlockTimer t)) \<in> {SemTimerClbck, WaitqueueTimerClbck}) \<and>
     (\<forall>n. UserTimer n \<in> A \<longrightarrow> clbck (tmr s (UserTimer n)) \<in> range UserTimerProc)"

definition block_inv :: "tid set \<Rightarrow> timerid list \<Rightarrow> kstate \<Rightarrow> bool" where
  "block_inv X ts s \<longleftrightarrow> tm_rel ts s \<and> guards X (set ts) s"

lemma block_invD:
  assumes "block_inv X ts s"
  shows "tm_rel ts s" and "timer (task s t) \<in> {None, Some (BlockTimer t)}"
    and "magic (tmr s (BlockTimer t)) = OS_TIMER_MAGIC1 \<longleftrightarrow> timer (task s t) \<noteq> None"
    and "BlockTimer t \<in> set ts \<Longrightarrow> t \<in> X \<or> state (task s t) = TASKSTATE_WAIT"
  using assms unfolding block_inv_def guards_def by blast+

lemma block_inv_cong:
  assumes "block_inv X ts s" and "tmh s' = tmh s" "tmr s' = tmr s" "timer_tick_unsynch s' = timer_tick_unsynch s"
    and "\<And>t. timer (task s' t) = timer (task s t)"
    and "\<And>t. BlockTimer t \<in> set ts \<Longrightarrow> t \<in> X' \<or> state (task s' t) = TASKSTATE_WAIT"
  shows "block_inv X' ts s'"
  using assms(1,5,6) tm_rel_cong [OF assms(2-4)] unfolding block_inv_def guards_def assms(3) by simp

text \<open>An unarmed guard does not restrict the state of its task.\<close>

lemma block_inv_free:
  assumes inv: "block_inv X ts s" and "BlockTimer t \<notin> set ts" and "tmh s' = tmh s" "tmr s' = tmr s"
    "timer_tick_unsynch s' = timer_tick_unsynch s"
    and "\<And>u. timer (task s' u) = timer (task s u)"
    and "\<And>u. u \<noteq> t \<Longrightarrow> state (task s u) = TASKSTATE_WAIT \<Longrightarrow> state (task s' u) = TASKSTATE_WAIT"
  shows "block_inv X ts s'"
  by (rule block_inv_cong [OF inv assms(3-6)]) (metis block_invD(4) [OF inv] assms(2,7))

text \<open>All but queues, tasks, timers, the current task and SREG is as before.\<close>

definition core_frame :: "kstate \<Rightarrow> kstate \<Rightarrow> bool" where
  "core_frame s s' \<longleftrightarrow>
     isr_nesting s' = isr_nesting s \<and> sched_lock s' = sched_lock s \<and>
     waitqueue_current s' = waitqueue_current s \<and> ticks_cnt s' = ticks_cnt s \<and>
     isr_saved s' = isr_saved s \<and> mxh s' = mxh s \<and> mtx s' = mtx s \<and> sem s' = sem s \<and>
     mem s' = mem s \<and> task_start_pc s' = task_start_pc s"

lemma core_frame_refl [simp]: "core_frame s s"
  by (simp add: core_frame_def)

lemma core_frame_trans [trans]: "core_frame s s' \<Longrightarrow> core_frame s' s'' \<Longrightarrow> core_frame s s''"
  by (simp add: core_frame_def)

lemma core_frames:
  "tq_frame s s' \<Longrightarrow> core_frame s s'" "tm_frame s s' \<Longrightarrow> core_frame s s'" "sched_frame s s' \<Longrightarrow> core_frame s s'"
  by (simp_all add: core_frame_def tq_frame_iff tm_frame_iff sched_frame_iff)

lemma blocktimer_destroy_result:
  assumes inv: "block_inv X ts s"
  shows "\<exists>s' ts'. os_blocktimer_destroy t s = ok s' \<and> block_inv X ts' s' \<and>
    set ts' = set ts - {BlockTimer t} \<and> core_frame s s' \<and> tqh s' = tqh s \<and> qmask s' = qmask s \<and>
    task_current s' = task_current s \<and> sreg s' = sreg s \<and>
    task s' = (task s)(t := (task s t)\<lparr>timer := None\<rparr>)"
proof (cases "timer (task s t)")
  case None
  then have "BlockTimer t \<notin> set ts"
    using block_invD(3) [OF inv, of t] tm_relD(4) [OF block_invD(1) [OF inv]] by auto
  moreover have "(task s t)\<lparr>timer := None\<rparr> = task s t" using None by (cases "task s t") simp
  then have "(task s)(t := (task s t)\<lparr>timer := None\<rparr>) = task s" by (simp only: fun_upd_triv)
  ultimately show ?thesis
    using None inv by (intro exI [of _ s] exI [of _ ts]) (simp add: os_blocktimer_destroy_def)
next
  case (Some tm)
  let ?b = "BlockTimer t"
  have tm: "tm = ?b" and m: "magic (tmr s ?b) = OS_TIMER_MAGIC1"
    using block_invD(2,3) [OF inv, of t] Some by auto
  obtain s1 where s1: "os_timer_destroy ?b s = ok s1" "tm_frame s s1" "tm_rel (remove1 ?b ts) s1"
    "tmr s1 = (tmr s)(?b := (tmr s ?b)\<lparr>ticks_rem := 0,
      ticks_reload := (if ?b \<in> set ts then 0 else ticks_reload (tmr s ?b)), magic := OS_TIMER_MAGIC2\<rparr>)"
    using timer_destroy_result [OF block_invD(1) [OF inv], of ?b] m by blast
  let ?s' = "upd_task t (\<lambda>k. k\<lparr>timer := None\<rparr>) s1"
  have set: "set (remove1 ?b ts) = set ts - {?b}"
    using dlist_timers_distinct [OF tm_relD(1) [OF block_invD(1) [OF inv]]] by simp
  have task: "task ?s' = (task s)(t := (task s t)\<lparr>timer := None\<rparr>)"
    using s1(2) by (simp add: task_upd_task tm_frame_iff)
  have "tm_rel (remove1 ?b ts) ?s'" using s1(3) by (subst tm_rel_cong) simp_all
  then have "block_inv X (remove1 ?b ts) ?s'"
    using inv unfolding block_inv_def guards_def set task by (auto simp: s1(4) OS_TIMER_MAGIC1_def OS_TIMER_MAGIC2_def)
  then show ?thesis
    using s1(1,2) Some tm set task
    by (intro exI [of _ ?s'] exI [of _ "remove1 ?b ts"])
      (simp add: os_blocktimer_destroy_def core_frame_def tm_frame_iff)
qed

lemma blocktimer_create_result:
  assumes inv: "block_inv {} ts s" and none: "timer (task s (task_current s)) = None"
    and to: "0 < timeout" "timeout < OS_TIMER_TICKSREM_MAX"
    and cb: "cb \<in> {SemTimerClbck, WaitqueueTimerClbck}"
  shows "\<exists>s' ts'. os_blocktimer_create (BlockTimer (task_current s)) cb timeout s = ok s' \<and>
    block_inv {task_current s} ts' s' \<and> set ts' = insert (BlockTimer (task_current s)) (set ts) \<and>
    ticks_left s' (BlockTimer (task_current s)) = unat timeout \<and>
    clbck (tmr s' (BlockTimer (task_current s))) = cb \<and>
    core_frame s s' \<and> tqh s' = tqh s \<and> qmask s' = qmask s \<and> task_current s' = task_current s \<and> sreg s' = sreg s \<and>
    task s' = (task s)(task_current s := (task s (task_current s))\<lparr>timer := Some (BlockTimer (task_current s))\<rparr>)"
proof -
  let ?c = "task_current s" and ?b = "BlockTimer (task_current s)"
  have m: "magic (tmr s ?b) \<noteq> OS_TIMER_MAGIC1" using block_invD(3) [OF inv, of ?c] none by simp
  obtain s1 where s1: "os_timer_create ?b cb (TaskParam ?c) timeout 0 s = ok s1" "tm_frame s s1"
    "timer_tick_unsynch s1 = timer_tick_unsynch s"
    "tmr s1 = (tmr s)(?b := \<lparr>ticks_rem = timeout + timer_tick_unsynch s, ticks_reload = 0,
      clbck = cb, param = TaskParam ?c, magic = OS_TIMER_MAGIC1\<rparr>)"
    "tm_rel (prio_insert (tkey s1) ?b ts) s1"
    using timer_create_result [OF block_invD(1) [OF inv] to m] by blast
  let ?s' = "upd_task ?c (\<lambda>k. k\<lparr>timer := Some ?b\<rparr>) s1" and ?ts = "prio_insert (tkey s1) ?b ts"
  have c: "task_current s1 = ?c" using s1(2) by (simp add: tm_frame_iff)
  have task: "task ?s' = (task s)(?c := (task s ?c)\<lparr>timer := Some ?b\<rparr>)"
    using s1(2) by (simp add: task_upd_task tm_frame_iff)
  have "tm_rel ?ts ?s'" using s1(5) by (subst tm_rel_cong) simp_all
  then have "block_inv {?c} ?ts ?s'"
    using inv cb unfolding block_inv_def guards_def task set_prio_insert by (auto simp: s1(4))
  moreover have "ticks_left ?s' ?b = unat timeout"
    using timeout_no_wrap [OF to(2) tm_relD(6) [OF block_invD(1) [OF inv]]]
    by (simp add: ticks_left_def s1(3,4))
  moreover have "clbck (tmr ?s' ?b) = cb" by (simp add: s1(4))
  moreover have "os_blocktimer_create ?b cb timeout s = ok ?s'"
    using s1(1) none c by (simp add: os_blocktimer_create_def)
  ultimately show ?thesis
    using s1(2) task by (intro exI [of _ ?s'] exI [of _ ?ts])
      (simp add: set_prio_insert core_frame_def tm_frame_iff)
qed

section \<open>The kernel invariant and the wake-up of a task\<close>

definition kinv :: "qid set \<Rightarrow> queues \<Rightarrow> timerid list \<Rightarrow> kstate \<Rightarrow> bool" where
  "kinv L Q ts s \<longleftrightarrow> sched_inv L Q s \<and> block_inv {} ts s \<and> floating s = {}"

lemma kinvD:
  assumes "kinv L Q ts s"
  shows "sched_inv L Q s" and "block_inv {} ts s" and "floating s = {}"
  using assms by (auto simp: kinv_def)

lemma kinv_same:
  assumes "kinv L Q ts s" and "tqh s' = tqh s" "qmask s' = qmask s" "task s' = task s"
    "task_current s' = task_current s" and "tmh s' = tmh s" "tmr s' = tmr s"
    "timer_tick_unsynch s' = timer_tick_unsynch s"
  shows "kinv L Q ts s'"
proof -
  have "block_inv {} ts s'"
    by (rule block_inv_cong [OF kinvD(2) [OF assms(1)] assms(6-8)])
      (use assms(4) block_invD(4) [OF kinvD(2) [OF assms(1)]] in auto)
  then show ?thesis
    using assms(1) sched_inv_cong [OF assms(2-5)] by (simp add: kinv_def)
qed

text \<open>The three statements that wake up a task which was taken from its queue.\<close>

definition wake :: "os_retcode \<Rightarrow> tid \<Rightarrow> kstate \<Rightarrow> kstate kres" where
  "wake c t s = kbind (os_blocktimer_destroy t s)
     (\<lambda>s. let s = upd_task t (set_block_code c) s in ok (os_task_makeready t s))"

definition woken :: "os_retcode \<Rightarrow> tid \<Rightarrow> kstate \<Rightarrow> kstate \<Rightarrow> bool" where
  "woken c t s s' \<longleftrightarrow> core_frame s s' \<and> task_current s' = task_current s \<and> sreg s' = sreg s \<and>
     task s' = (task s)(t := (task s t)\<lparr>timer := None, ret_block := retcode_value c,
       state := TASKSTATE_READY, task_queue := Some ReadyQ\<rparr>)"

lemma wake_result:
  assumes inv: "sched_inv L Q s" "block_inv {} ts s" and t: "task_queue (task s t) = None" "t \<noteq> task_current s"
    "floating s = {t}" and p: "p = unat (prio_current (task s t))"
  shows "\<exists>s' ts'. wake c t s = ok s' \<and> kinv L (bucket_upd ReadyQ p (\<lambda>us. us @ [t]) Q) ts' s' \<and>
    set ts' = set ts - {BlockTimer t} \<and> woken c t s s'"
proof -
  obtain s1 ts' where s1: "os_blocktimer_destroy t s = ok s1" "block_inv {} ts' s1"
    "set ts' = set ts - {BlockTimer t}" "core_frame s s1" "tqh s1 = tqh s" "qmask s1 = qmask s"
    "task_current s1 = task_current s" "sreg s1 = sreg s" "task s1 = (task s)(t := (task s t)\<lparr>timer := None\<rparr>)"
    using blocktimer_destroy_result [OF inv(2), of t] by blast
  have "sched_inv L Q (upd_task t (\<lambda>k. k\<lparr>timer := None\<rparr>) s)" "floating (upd_task t (\<lambda>k. k\<lparr>timer := None\<rparr>) s) = {t}"
    using sched_inv_upd_task [OF inv(1), of "\<lambda>k. k\<lparr>timer := None\<rparr>" t] t(3) by auto
  then have inv1: "sched_inv L Q s1" "floating s1 = {t}"
    using sched_inv_cong [of s1 "upd_task t (\<lambda>k. k\<lparr>timer := None\<rparr>) s"] s1(5-7,9) by (simp_all add: task_upd_task)
  let ?s2 = "upd_task t (set_block_code c) s1"
  have inv2: "sched_inv L Q ?s2" "floating ?s2 = {t}"
    using sched_inv_upd_task [OF inv1(1), of "set_block_code c" t] inv1(2) by auto
  let ?s' = "os_task_makeready t ?s2"
  have p2: "unat (prio_current (task ?s2 t)) = p" using s1(9) p by (simp add: task_upd_task)
  have f2: "task_queue (task ?s2 t) = None" "t \<noteq> task_current ?s2"
    using s1(7,9) t by (auto simp: task_upd_task)
  have inv3: "sched_inv L (bucket_upd ReadyQ p (\<lambda>us. us @ [t]) Q) ?s'" "floating ?s' = {}"
    using makeready_inv [OF inv2(1) f2] inv2(2) unfolding p2 by auto
  have fr: "tq_frame ?s2 ?s'" by (rule makeready_fields)
  have task: "task ?s' = (task s)(t := (task s t)\<lparr>timer := None, ret_block := retcode_value c,
       state := TASKSTATE_READY, task_queue := Some ReadyQ\<rparr>)"
    using s1(9) by (simp add: makeready_fields task_upd_task set_block_code_def)
  have "block_inv {} ts' ?s'"
    by (rule block_inv_free [OF s1(2), of t])
      (use s1(3) fr in \<open>auto simp: tq_frame_iff makeready_fields task_upd_task\<close>)
  moreover have "woken c t s ?s'"
    using s1(4,7,8) fr core_frame_trans [of s s1 ?s'] by (auto simp: woken_def task core_frame_def tq_frame_iff)
  moreover have "wake c t s = ok ?s'" using s1(1) by (simp add: wake_def)
  ultimately show ?thesis using inv3 s1(3) by (auto simp: kinv_def)
qed

text \<open>The effect of waking up the first tasks \<open>us\<close> of a queue, one after the other. The queues and
  the timer list are carried along with the state.\<close>

type_synonym gstate = "queues \<times> timerid list \<times> kstate"

definition all_woken :: "os_retcode \<Rightarrow> qid \<Rightarrow> tid list \<Rightarrow> gstate \<Rightarrow> gstate \<Rightarrow> bool" where
  "all_woken c q us = (\<lambda>(Q, ts, s) (Q', ts', s').
     core_frame s s' \<and> task_current s' = task_current s \<and> sreg s' = sreg s \<and>
     task s' = (\<lambda>t. if t \<in> set us
       then (task s t)\<lparr>timer := None, ret_block := retcode_value c, state := TASKSTATE_READY,
         task_queue := Some ReadyQ\<rparr>
       else task s t) \<and>
     ready Q' = fold (prio_insert (\<lambda>t. prio_current (task s t))) us (ready Q) \<and>
     flat (Q q) = us @ flat (Q' q) \<and> (\<forall>q'. q' \<notin> {q, ReadyQ} \<longrightarrow> Q' q' = Q q') \<and>
     set ts' = set ts - BlockTimer ` set us)"

lemma all_woken_nil: "all_woken c q [] x x"
  by (cases x) (simp add: all_woken_def)

lemma all_woken_cons:
  assumes "all_woken c q [t] x x'" and "all_woken c q us x' x''"
  shows "all_woken c q (t # us) x x''"
proof -
  obtain Q ts s Q' ts' s' Q'' ts'' s'' where x: "x = (Q, ts, s)" "x' = (Q', ts', s')" "x'' = (Q'', ts'', s'')"
    by (metis surj_pair)
  have "(\<lambda>t. prio_current (task s' t)) = (\<lambda>t. prio_current (task s t))"
    using assms(1) by (auto simp: x all_woken_def)
  moreover have "task s'' = (\<lambda>u. if u \<in> set (t # us)
       then (task s u)\<lparr>timer := None, ret_block := retcode_value c, state := TASKSTATE_READY,
         task_queue := Some ReadyQ\<rparr> else task s u)"
    using assms by (auto simp: x all_woken_def fun_eq_iff)
  moreover have "core_frame s s''" using assms core_frame_trans by (simp add: x all_woken_def) blast
  ultimately show ?thesis using assms by (auto simp: x all_woken_def)
qed

lemma wake_first:
  assumes inv: "kinv L Q ts s" and q: "q \<in> L" "q \<noteq> ReadyQ" and fl: "flat (Q q) = t # us"
  shows "\<exists>s1 s2 Q' ts'. os_taskqueue_dequeue q s = ok (Some t, s1) \<and> wake c t s1 = ok s2 \<and>
    kinv L Q' ts' s2 \<and> flat (Q' q) = us \<and> all_woken c q [t] (Q, ts, s) (Q', ts', s2) \<and>
    t \<noteq> task_current s \<and> state (task s t) = TASKSTATE_WAIT \<and> timer (task s1 t) = timer (task s t)"
proof -
  let ?p = "unat (prio_current (task s t))" and ?Q1 = "bucket_upd q (unat (prio_current (task s t))) tl Q"
  obtain s1 where s1: "os_taskqueue_dequeue q s = ok (Some t, s1)" "sched_inv L ?Q1 s1"
    "flat (?Q1 q) = us" "floating s1 = {t}" "tq_frame s s1"
    "task s1 = (task s)(t := (task s t)\<lparr>task_queue := None\<rparr>)" "state (task s t) = TASKSTATE_WAIT"
    "t \<noteq> task_current s"
    using dequeue_inv [OF kinvD(1) [OF inv] q fl refl] kinvD(3) [OF inv] by auto
  have "block_inv {} ts s1"
    by (rule block_inv_cong [OF kinvD(2) [OF inv]])
      (use s1(5,6) block_invD(4) [OF kinvD(2) [OF inv]] in \<open>auto simp: tq_frame_iff\<close>)
  moreover have f1: "task_queue (task s1 t) = None" "t \<noteq> task_current s1" "?p = unat (prio_current (task s1 t))"
    using s1(5,6,8) by (auto simp: tq_frame_iff)
  ultimately obtain s2 ts' where s2: "wake c t s1 = ok s2"
    "kinv L (bucket_upd ReadyQ ?p (\<lambda>us. us @ [t]) ?Q1) ts' s2" "set ts' = set ts - {BlockTimer t}" "woken c t s1 s2"
    using wake_result [OF s1(2) _ f1(1,2) s1(4) f1(3)] by blast
  let ?Q2 = "bucket_upd ReadyQ ?p (\<lambda>us. us @ [t]) ?Q1"
  have "ready ?Q2 = prio_insert (\<lambda>t. prio_current (task s1 t)) t (ready ?Q1)"
    using ready_append [OF sched_invD(1) [OF s1(2)] sched_inv_prio [OF s1(2)], of ReadyQ t] f1(3) by simp
  moreover have "(\<lambda>t. prio_current (task s1 t)) = (\<lambda>t. prio_current (task s t))" "ready ?Q1 = ready Q"
    using s1(6) q(2) by (auto simp: fun_eq_iff bucket_upd_def)
  ultimately have rd: "ready ?Q2 = prio_insert (\<lambda>t. prio_current (task s t)) t (ready Q)" by simp
  have cf: "core_frame s s2" "task_current s2 = task_current s" "sreg s2 = sreg s"
    using s2(4) core_frames(1) [OF s1(5)] s1(5) core_frame_trans by (auto simp: woken_def tq_frame_iff)
  have tk: "task s2 = (\<lambda>u. if u \<in> set [t] then (task s u)\<lparr>timer := None, ret_block := retcode_value c,
      state := TASKSTATE_READY, task_queue := Some ReadyQ\<rparr> else task s u)"
    using s2(4) s1(6) by (auto simp: woken_def fun_eq_iff)
  have fq: "flat (?Q2 q) = us" and ot: "\<forall>q'. q' \<notin> {q, ReadyQ} \<longrightarrow> ?Q2 q' = Q q'"
    using s1(3) q(2) by (simp_all add: bucket_upd_def)
  have "all_woken c q [t] (Q, ts, s) (?Q2, ts', s2)"
    unfolding all_woken_def prod.case by (intro conjI cf tk ot) (simp_all add: rd fl fq s2(3))
  then show ?thesis using s1 s2(1,2) fq by (metis fun_upd_same os_task.ext_inject os_task.surjective os_task.update_convs(6))
qed

definition waiters :: "qid set \<Rightarrow> qid \<Rightarrow> tid list \<Rightarrow> gstate \<Rightarrow> bool" where
  "waiters L q us = (\<lambda>(Q, ts, s). kinv L Q ts s \<and> q \<in> L \<and> q \<noteq> ReadyQ \<and> flat (Q q) = us)"

lemma wake_first_waiter:
  assumes "waiters L q (t # us) (Q, ts, s)"
  shows "\<exists>s1 Q' ts' s'. os_taskqueue_dequeue q s = ok (Some t, s1) \<and> wake c t s1 = ok s' \<and>
    timer (task s1 t) = timer (task s t) \<and> waiters L q us (Q', ts', s') \<and>
    all_woken c q [t] (Q, ts, s) (Q', ts', s')"
proof -
  have a: "kinv L Q ts s" "q \<in> L" "q \<noteq> ReadyQ" "flat (Q q) = t # us" using assms by (auto simp: waiters_def)
  show ?thesis using wake_first [OF a, of c] a(2,3) by (fastforce simp: waiters_def)
qed

lemma no_waiter: "waiters L q [] (Q, ts, s) \<Longrightarrow> os_taskqueue_dequeue q s = ok (None, s)"
  using dequeue_inv_empty [of L Q s q] by (auto simp: waiters_def kinv_def)

text \<open>A task without a timeout guard is woken up by the last two statements alone.\<close>

lemma wake_unguarded:
  "timer (task s t) = None \<Longrightarrow> wake c t s = ok (os_task_makeready t (upd_task t (set_block_code c) s))"
  by (simp add: wake_def os_blocktimer_destroy_def)

text \<open>The callbacks of the guards: the task is taken from the queue it waits in and becomes ready
  with the code \<open>OS_TIMEOUT\<close>.\<close>

definition expire :: "tid \<Rightarrow> kstate \<Rightarrow> kstate kres" where
  "expire t s = kbind (os_taskqueue_unlink t s)
     (\<lambda>s. let s = upd_task t (set_block_code OS_TIMEOUT) s in ok (os_task_makeready t s))"

lemma waiting_queue:
  assumes "sched_inv L Q s" and "floating s = {}" and "state (task s t) = TASKSTATE_WAIT"
  shows "\<exists>q. task_queue (task s t) = Some q \<and> q \<in> L \<and> q \<noteq> ReadyQ \<and> block_type (task s t) = queue_block q \<and>
    t \<in> set (flat (Q q))"
proof -
  obtain q where q: "task_queue (task s t) = Some q"
    using assms(2,3) by (cases "task_queue (task s t)") (auto simp: floating_def)
  have "t \<in> set (Q q (unat (prio_current (task s t))))" by (rule tq_relD(4) [OF sched_invD(1) [OF assms(1)] q])
  moreover from this have "q \<in> L" using tq_relD(3) [OF sched_invD(1) [OF assms(1)]] by blast
  ultimately have "t \<in> set (flat (Q q))" "q \<in> L"
    using sched_inv_prio [OF assms(1), of t] by (auto simp: set_flat_upto)
  then show ?thesis using q sched_invD(3) [OF assms(1), of t] assms(3) by (auto simp: task_ok_def split: if_splits)
qed

lemma expire_result:
  assumes inv: "sched_inv L Q s" "floating s = {}" and q: "task_queue (task s t) = Some q" "q \<noteq> ReadyQ"
  shows "\<exists>s' Q'. expire t s = ok s' \<and> sched_inv L Q' s' \<and> floating s' = {} \<and> tq_frame s s' \<and>
    task s' = (task s)(t := (task s t)\<lparr>ret_block := retcode_value OS_TIMEOUT,
      state := TASKSTATE_READY, task_queue := Some ReadyQ\<rparr>) \<and>
    flat (Q' q) = remove1 t (flat (Q q)) \<and>
    ready Q' = prio_insert (\<lambda>t. prio_current (task s t)) t (ready Q) \<and>
    (\<forall>q'. q' \<notin> {q, ReadyQ} \<longrightarrow> Q' q' = Q q')"
proof -
  let ?p = "unat (prio_current (task s t))" and ?c = "task_current s"
  let ?Q1 = "bucket_upd q ?p (remove1 t) Q"
  let ?Q2 = "bucket_upd ReadyQ ?p (\<lambda>us. us @ [t]) ?Q1"
  note rel = sched_invD(1) [OF inv(1)]
  obtain s1 where s1: "os_taskqueue_unlink t s = ok s1" "tq_frame s s1"
    "task s1 = (task s)(t := (task s t)\<lparr>task_queue := None\<rparr>)" "tq_rel L ?Q1 s1"
    using unlink_result [OF rel q(1) refl] by blast
  let ?s2 = "upd_task t (set_block_code OS_TIMEOUT) s1"
  have c: "t \<noteq> ?c" using q sched_invD(4) [OF inv(1)] by auto
  have idle: "t \<noteq> task_idle"
    using q c sched_invD(6) [OF inv(1)] by (cases "task_current s = task_idle") auto
  have "task_ok (task s1 u)" for u using sched_invD(3) [OF inv(1), of u] by (auto simp: s1(3))
  moreover have "task_current s1 = ?c" using s1(2) by (simp add: tq_frame_iff)
  ultimately have "sched_inv L ?Q1 s1"
    using sched_invD(2,4-6) [OF inv(1)] c idle by (simp add: sched_inv_def s1(3,4))
  then have inv2: "sched_inv L ?Q1 ?s2" by (rule sched_inv_upd_task(1)) simp_all
  have t2: "task_queue (task ?s2 t) = None" "t \<noteq> task_current ?s2" "unat (prio_current (task ?s2 t)) = ?p"
    using s1(2,3) c by (auto simp: task_upd_task tq_frame_iff)
  let ?s' = "os_task_makeready t ?s2"
  have task: "task ?s' = (task s)(t := (task s t)\<lparr>ret_block := retcode_value OS_TIMEOUT,
      state := TASKSTATE_READY, task_queue := Some ReadyQ\<rparr>)"
    using s1(3) by (simp add: makeready_fields task_upd_task set_block_code_def)
  have inv3: "sched_inv L ?Q2 ?s'" using makeready_inv(1) [OF inv2 t2(1,2)] unfolding t2(3) .
  have fl: "floating ?s' = {}" using inv(2) by (auto simp: floating_def task)
  have fr: "tq_frame s ?s'"
    using makeready_fields(2) [of ?s2 t] s1(2) by (auto simp: tq_frame_iff)
  have uniq: "p' = ?p" if "t \<in> set (Q q p')" for p' using tq_relD(3) [OF rel that] by simp
  have "flat ((Q q)(?p := remove1 t (Q q ?p))) = remove1 t (flat (Q q))"
    using uniq sched_inv_prio [OF inv(1), of t] by (intro flat_upto_remove1) auto
  then have fq: "flat (?Q2 q) = remove1 t (flat (Q q))" using q(2) by (simp add: bucket_upd_def)
  have "ready ?Q2 = prio_insert (\<lambda>t. prio_current (task ?s2 t)) t (ready ?Q1)"
    using ready_append [OF sched_invD(1) [OF inv2] sched_inv_prio [OF inv2], of ReadyQ t] t2(3) by simp
  moreover have "(\<lambda>t. prio_current (task ?s2 t)) = (\<lambda>t. prio_current (task s t))" "ready ?Q1 = ready Q"
    using s1(3) q(2) by (auto simp: fun_eq_iff bucket_upd_def task_upd_task)
  ultimately have rd: "ready ?Q2 = prio_insert (\<lambda>t. prio_current (task s t)) t (ready Q)" by simp
  have ot: "\<forall>q'. q' \<notin> {q, ReadyQ} \<longrightarrow> ?Q2 q' = Q q'" by (simp add: bucket_upd_def)
  have "expire t s = ok ?s'" using s1(1) by (simp add: expire_def)
  then show ?thesis using inv3 fl fr task fq rd ot by blast
qed

section \<open>Scheduling, blocking and queue creation under the invariant\<close>

lemma block_inv_same_tasks:
  assumes inv: "block_inv {} ts s" and "sched_frame s s'" and st: "same_tasks s s'"
  shows "block_inv {} ts s'"
  by (rule block_inv_cong [OF inv])
    (use assms(2) st block_invD(4) [OF inv] in \<open>auto simp: sched_frame_iff same_tasks_def same_tcb_def\<close>)

lemma kinv_schedule_konts:
  assumes inv: "kinv L Q ts s" and dint: "arch_is_dint (sreg s)"
  shows "\<exists>r s' Q'. kbind (os_schedule k higher s) (sched_exit c v) = ok (r, s') \<and>
    kinv L Q' ts s' \<and> sched_frame s s' \<and> same_tasks s s' \<and>
    (\<forall>q. q \<noteq> ReadyQ \<longrightarrow> Q' q = Q q) \<and>
    (\<forall>t. t \<notin> {task_current s, task_current s'} \<longrightarrow> task s' t = task s t) \<and>
    (\<forall>t. t \<noteq> task_current s \<longrightarrow> ctx_kont (task s' t) = ctx_kont (task s t)) \<and>
    insert (task_current s') (set (ready Q')) = insert (task_current s) (set (ready Q)) \<and>
    (if r = Switched
     then ctx_kont (task s' (task_current s)) = k \<and> sreg s' = kont_sreg (ctx_kont (task s (task_current s')))
     else ctx_kont (task s' (task_current s)) = ctx_kont (task s (task_current s)) \<and> sreg s' = c) \<and>
    (if preempts higher s (ready Q)
     then task_current s' = hd (ready Q) \<and> (r = Switched \<longleftrightarrow> isr_nesting s = 0) \<and>
       ready Q' = prio_insert (\<lambda>t. prio_current (task s t)) (task_current s) (tl (ready Q))
     else r = Return v \<and> s' = s\<lparr>sreg := c\<rparr> \<and> Q' = Q)"
proof -
  obtain r s' Q' where s': "kbind (os_schedule k higher s) (sched_exit c v) = ok (r, s')"
    "sched_inv L Q' s'" "floating s' = floating s" "sched_frame s s'" "same_tasks s s'"
    "\<forall>q. q \<noteq> ReadyQ \<longrightarrow> Q' q = Q q"
    "\<forall>t. t \<notin> {task_current s, task_current s'} \<longrightarrow> task s' t = task s t"
    "\<forall>t. t \<noteq> task_current s \<longrightarrow> ctx_kont (task s' t) = ctx_kont (task s t)"
    "if r = Switched
     then ctx_kont (task s' (task_current s)) = k \<and> sreg s' = kont_sreg (ctx_kont (task s (task_current s')))
     else ctx_kont (task s' (task_current s)) = ctx_kont (task s (task_current s)) \<and> sreg s' = c"
    "if preempts higher s (ready Q)
     then task_current s' = hd (ready Q) \<and> (r = Switched \<longleftrightarrow> isr_nesting s = 0) \<and>
       ready Q' = prio_insert (\<lambda>t. prio_current (task s t)) (task_current s) (tl (ready Q))
     else r = Return v \<and> s' = s\<lparr>sreg := c\<rparr> \<and> Q' = Q"
    using schedule_exit_result [OF kinvD(1) [OF inv] dint, of k higher c v] by blast
  have "kinv L Q' ts s'"
    using s'(2,3) block_inv_same_tasks [OF kinvD(2) [OF inv] s'(4,5)] kinvD(3) [OF inv] by (simp add: kinv_def)
  moreover have "insert (task_current s') (set (ready Q')) = insert (task_current s) (set (ready Q))"
  proof (cases "preempts higher s (ready Q)")
    case True
    then obtain t us where "ready Q = t # us" by (cases "ready Q") (auto simp: preempts_def)
    then show ?thesis using s'(10) True by (simp add: set_prio_insert insert_commute)
  qed (use s'(10) in simp)
  ultimately show ?thesis using s' by blast
qed

lemma kinv_schedule_exit:
  assumes inv: "kinv L Q ts s" and dint: "arch_is_dint (sreg s)"
  shows "\<exists>r s' Q'. kbind (os_schedule k higher s) (sched_exit c v) = ok (r, s') \<and>
    kinv L Q' ts s' \<and> sched_frame s s' \<and> same_tasks s s' \<and>
    (\<forall>q. q \<noteq> ReadyQ \<longrightarrow> Q' q = Q q) \<and>
    (\<forall>t. t \<notin> {task_current s, task_current s'} \<longrightarrow> task s' t = task s t) \<and>
    (\<forall>t. t \<noteq> task_current s \<longrightarrow> ctx_kont (task s' t) = ctx_kont (task s t)) \<and>
    insert (task_current s') (set (ready Q')) = insert (task_current s) (set (ready Q)) \<and>
    (if preempts higher s (ready Q)
     then task_current s' = hd (ready Q) \<and> (r = Switched \<longleftrightarrow> isr_nesting s = 0) \<and>
       ready Q' = prio_insert (\<lambda>t. prio_current (task s t)) (task_current s) (tl (ready Q))
     else r = Return v \<and> s' = s\<lparr>sreg := c\<rparr> \<and> Q' = Q)"
  using kinv_schedule_konts [OF assms, of k higher c v] by blast

text \<open>With the argument 1, \<open>os_schedule\<close> gives way to strictly higher priorities.\<close>

lemma preempts_higher:
  assumes "kinv L Q ts s"
  shows "preempts 1 s (ready Q) \<longleftrightarrow> isr_nesting s \<le> 1 \<and> sched_lock s = 0 \<and> ready Q \<noteq> [] \<and>
    prio_current (task s (task_current s)) < prio_current (task s (hd (ready Q)))"
proof -
  have "prio_current (task s t) \<le> prio_current (task s (hd (ready Q)))" if "t \<in> set (ready Q)" for t
    using ready_le_head [OF sched_invD(1) [OF kinvD(1) [OF assms]], of "hd (ready Q)" "tl (ready Q)" t] that
    by (cases "ready Q") auto
  then show ?thesis
    unfolding preempts_1 [OF kinvD(1) [OF assms]] by (metis hd_in_set less_le_trans list.set(1) empty_iff)
qed

lemma kinv_block_switch:
  assumes sinv: "sched_inv L Q s" "floating s = {}" and binv: "block_inv {task_current s} ts s"
    and q: "q \<in> L" "q \<noteq> ReadyQ" and c: "task_current s \<noteq> task_idle" and rd: "ready Q = t # us"
  shows "\<exists>s' Q'. os_task_block_switch k q (queue_block q) s = ok s' \<and> kinv L Q' ts s' \<and>
    sched_frame s s' \<and> task_current s' = t \<and> sreg s' = kont_sreg (ctx_kont (task s t)) \<and>
    task s' = (task s)(t := (task s t)\<lparr>task_queue := None\<rparr>,
      task_current s := (task s (task_current s))\<lparr>state := TASKSTATE_WAIT, block_type := queue_block q,
        task_queue := Some q, ctx_kont := k\<rparr>) \<and>
    flat (Q' q) = prio_insert (\<lambda>t. prio_current (task s t)) (task_current s) (flat (Q q)) \<and>
    ready Q' = us \<and> (\<forall>q'. q' \<notin> {q, ReadyQ} \<longrightarrow> Q' q' = Q q')"
proof -
  obtain s' Q' where s': "os_task_block_switch k q (queue_block q) s = ok s'" "sched_inv L Q' s'"
    "floating s' = floating s" "sched_frame s s'" "task_current s' = t" "sreg s' = kont_sreg (ctx_kont (task s t))"
    "task s' = (task s)(t := (task s t)\<lparr>task_queue := None\<rparr>,
      task_current s := (task s (task_current s))\<lparr>state := TASKSTATE_WAIT, block_type := queue_block q,
        task_queue := Some q, ctx_kont := k\<rparr>)"
    "flat (Q' q) = prio_insert (\<lambda>t. prio_current (task s t)) (task_current s) (flat (Q q))"
    "ready Q' = us" "\<forall>q'. q' \<notin> {q, ReadyQ} \<longrightarrow> Q' q' = Q q'"
    using block_switch_result [OF sinv(1) q c rd, of k] by blast
  have "block_inv {} ts s'"
    by (rule block_inv_cong [OF binv])
      (use s'(4,7) block_invD(4) [OF binv] in \<open>auto simp: sched_frame_iff\<close>)
  then have "kinv L Q' ts s'" using s'(2,3) sinv(2) by (simp add: kinv_def)
  then show ?thesis using s'(1,4-10) by blast
qed

text \<open>A new object starts with an empty queue; a queue without tasks may be cleared.\<close>

lemma kinv_tq_frame:
  assumes inv: "kinv L Q ts s" and fr: "tq_frame s s'" and tk: "task s' = task s"
    and rel: "tq_rel L' Q s'" and L': "ReadyQ \<in> L'"
  shows "kinv L' Q ts s'"
proof -
  have "block_inv {} ts s'"
    by (rule block_inv_cong [OF kinvD(2) [OF inv]])
      (use fr tk block_invD(4) [OF kinvD(2) [OF inv]] in \<open>auto simp: tq_frame_iff\<close>)
  moreover have "sched_inv L' Q s'" "floating s' = floating s"
    using kinvD(1) [OF inv] rel L' fr by (auto simp: sched_inv_def floating_def tk tq_frame_iff)
  ultimately show ?thesis using kinvD(3) [OF inv] by (simp add: kinv_def)
qed

lemma kinv_empty_queue:
  assumes inv: "kinv L Q ts s" and e: "flat (Q q) = []"
  shows "\<forall>p. Q q p = []"
proof (intro allI)
  fix p
  have "p < OS_CONFIG_PRIOCNT" if "Q q p = t # us" for t us
    using tq_relD(3) [OF sched_invD(1) [OF kinvD(1) [OF inv]], of t q p] that by simp
  moreover have "Q q p = []" if "p < OS_CONFIG_PRIOCNT"
    using e flat_None [of "Q q"] that by (simp add: top_bucket_None)
  ultimately show "Q q p = []" by (cases "Q q p") auto
qed

lemma kinv_init_queue:
  assumes inv: "kinv L Q ts s" and q: "q \<notin> L"
  shows "kinv (insert q L) Q ts (os_taskqueue_init q (memset_taskqueue q s))" and "flat (Q q) = []"
proof -
  have free: "\<forall>p. Q q p = []"
  proof (intro allI)
    fix p
    show "Q q p = []"
      using tq_relD(3) [OF sched_invD(1) [OF kinvD(1) [OF inv]], of _ q p] q by (cases "Q q p") auto
  qed
  have "tq_rel (insert q L) Q (os_taskqueue_init q (memset_taskqueue q s))"
    using init_rel [OF memset_rel [OF sched_invD(1) [OF kinvD(1) [OF inv]] free] free] q by simp
  then show "kinv (insert q L) Q ts (os_taskqueue_init q (memset_taskqueue q s))"
    by (intro kinv_tq_frame [OF inv])
      (use sched_invD(2) [OF kinvD(1) [OF inv]] init_frame_tq in
        \<open>auto simp: tq_frame_iff memset_taskqueue_def os_taskqueue_init_def Let_def\<close>)
  show "flat (Q q) = []" using free by (simp add: flat_upto_def)
qed

lemma kinv_memset_queue:
  assumes inv: "kinv L Q ts s" and q: "q \<noteq> ReadyQ" and e: "flat (Q q) = []"
  shows "kinv (L - {q}) Q ts (memset_taskqueue q s)"
  by (rule kinv_tq_frame [OF inv init_frame_tq(2)])
    (use memset_rel [OF sched_invD(1) [OF kinvD(1) [OF inv]] kinv_empty_queue [OF inv e]]
      sched_invD(2) [OF kinvD(1) [OF inv]] q in \<open>auto simp: memset_taskqueue_def\<close>)

lemma kinv_init_only:
  assumes inv: "kinv L Q ts s" and q: "q \<notin> L"
  shows "kinv (insert q L) Q ts (os_taskqueue_init q s)"
  by (rule kinv_tq_frame [OF inv init_frame_tq(1)])
    (use init_rel [OF sched_invD(1) [OF kinvD(1) [OF inv]] kinv_empty_queue [OF inv kinv_init_queue(2) [OF inv q]]]
      sched_invD(2) [OF kinvD(1) [OF inv]] in \<open>auto simp: os_taskqueue_init_def Let_def\<close>)

text \<open>The tasks of a queue are those whose record names it.\<close>

lemma kinv_members:
  assumes "kinv L Q ts s"
  shows "t \<in> set (flat (Q q)) \<longleftrightarrow> task_queue (task s t) = Some q"
proof
  note rel = sched_invD(1) [OF kinvD(1) [OF assms]]
  show "t \<in> set (flat (Q q)) \<Longrightarrow> task_queue (task s t) = Some q"
    using tq_relD(3) [OF rel] by (auto simp: set_flat_upto)
  show "task_queue (task s t) = Some q \<Longrightarrow> t \<in> set (flat (Q q))"
    using tq_relD(4) [OF rel] sched_inv_prio [OF kinvD(1) [OF assms], of t] by (auto simp: set_flat_upto)
qed

lemma flat_distinct:
  assumes inv: "kinv L Q ts s" and q: "q \<in> L"
  shows "distinct (flat (Q q))"
proof -
  note rel = sched_invD(1) [OF kinvD(1) [OF inv]]
  have "distinct (flat_upto n (Q q))" if "n \<le> OS_CONFIG_PRIOCNT" for n
    using that
  proof (induction n)
    case (Suc n)
    have "set (Q q n) \<inter> set (flat_upto n (Q q)) = {}"
    proof (rule ccontr)
      assume "\<not> ?thesis"
      then obtain t p where "t \<in> set (Q q n)" "p < n" "t \<in> set (Q q p)" by (auto simp: set_flat_upto)
      then show False using bucket_unique [OF rel, of t q n q p] by simp
    qed
    then show ?case using Suc tq_rel_distinct [OF rel q, of n] by simp
  qed simp
  then show ?thesis by simp
qed

text \<open>The resumed task runs.\<close>

lemma kinv_running:
  assumes inv: "kinv L Q ts s"
  shows "kinv L Q ts (upd_task (task_current s) (\<lambda>k. k\<lparr>state := TASKSTATE_RUNNING\<rparr>) s)"
proof -
  let ?c = "task_current s" and ?s1 = "upd_task (task_current s) (\<lambda>k. k\<lparr>state := TASKSTATE_RUNNING\<rparr>) s"
  have free: "task_queue (task s ?c) = None" "state (task s ?c) \<noteq> TASKSTATE_WAIT"
    using sched_invD(4,5) [OF kinvD(1) [OF inv]] by auto
  have "sched_inv L Q ?s1" "floating ?s1 = {}"
    using sched_inv_upd_free [OF kinvD(1) [OF inv] free(1), of "\<lambda>k. k\<lparr>state := TASKSTATE_RUNNING\<rparr>"] free
      sched_invD(3) [OF kinvD(1) [OF inv], of ?c] kinvD(3) [OF inv] by auto
  moreover have "block_inv {} ts ?s1"
    by (rule block_inv_cong [OF kinvD(2) [OF inv]])
      (use block_invD(4) [OF kinvD(2) [OF inv]] free(2) in \<open>auto simp: task_upd_task\<close>)
  ultimately show ?thesis by (simp add: kinv_def)
qed

text \<open>Fields of a task that no queue and no guard depends on.\<close>

lemma kinv_upd_task:
  assumes inv: "kinv L Q ts s"
    and "task_queue (f (task s t)) = task_queue (task s t)" "prio_current (f (task s t)) = prio_current (task s t)"
    "prio_base (f (task s t)) = prio_base (task s t)" "block_type (f (task s t)) = block_type (task s t)"
    "state (f (task s t)) = state (task s t)" "timer (f (task s t)) = timer (task s t)"
  shows "kinv L Q ts (upd_task t f s)"
proof -
  have "block_inv {} ts (upd_task t f s)"
    by (rule block_inv_cong [OF kinvD(2) [OF inv]])
      (use assms(6,7) block_invD(4) [OF kinvD(2) [OF inv]] in \<open>auto simp: task_upd_task\<close>)
  then show ?thesis
    using sched_inv_upd_task [where f = f, OF kinvD(1) [OF inv] assms(2-6)] kinvD(3) [OF inv] by (simp add: kinv_def)
qed

lemma kinv_kont: "kinv L Q ts s \<Longrightarrow> kinv L Q ts (upd_task t (\<lambda>k. k\<lparr>ctx_kont := x\<rparr>) s)"
  by (rule kinv_upd_task) simp_all

text \<open>Interrupt entry and exit keep the invariant.\<close>

lemma kinv_isr_enter: "kinv L Q ts s \<Longrightarrow> kinv L Q ts (arch_contextstore_i s)"
proof -
  assume inv: "kinv L Q ts s"
  let ?s = "s\<lparr>sreg := arch_dint (sreg s), isr_saved := (sreg s OR 0x80) # isr_saved s, isr_nesting := isr_nesting s + 1\<rparr>"
  have "kinv L Q ts ?s" by (rule kinv_same [OF inv]) simp_all
  then show ?thesis
    using kinv_kont [of L Q ts ?s "task_current s" "K_Isr (sreg s OR 0x80)"]
    by (cases "isr_nesting s = 0") (simp_all add: arch_contextstore_i_def Let_def)
qed

lemma kinv_isr_leave: "kinv L Q ts s \<Longrightarrow> kinv L Q ts (snd (arch_contextrestore_i s))"
  by (erule kinv_same) (simp_all add: arch_contextrestore_i_def Let_def)

end
