(* ===== verification/Sem.thy ===== *)
theory Sem
  imports Wakeup
begin

text \<open>
  The counting semaphores of \<^verbatim>\<open>os_sem.c\<close>. A call that blocks ends in a context switch; the
  rest of its body is the continuation \<open>K_SemDown\<close>, given here as \<open>os_sem_down_resume\<close>.
\<close>

section \<open>Model\<close>

definition os_sem_create :: "semid \<Rightarrow> u8 \<Rightarrow> kstate \<Rightarrow> kstate kres" where
  "os_sem_create m init_value s =
     os_assert (init_value < ARCH_ATOMIC_MAX) s
     (os_assert (waitqueue_current s = None) s
       (let s = memset_taskqueue (SemQ m) s;
            s = os_taskqueue_init (SemQ m) s
        in ok (s\<lparr>sem := (sem s)(m := \<lparr>sem_value = init_value\<rparr>)\<rparr>)))"

text \<open>The wake-up loop that the destroy functions of semaphores and wait queues share.\<close>

partial_function (option) wakeup_all_loop :: "qid \<Rightarrow> kstate \<Rightarrow> kstate kres" where
  "wakeup_all_loop q s =
     kbind (os_taskqueue_dequeue q s)
       (\<lambda>(t, s). case t of
          None \<Rightarrow> ok s
        | Some t \<Rightarrow>
            kbind (os_blocktimer_destroy t s)
              (\<lambda>s. let s = upd_task t (set_block_code OS_DESTROYED) s
                   in wakeup_all_loop q (os_task_makeready t s)))"

definition os_sem_destroy :: "kont \<Rightarrow> u8 \<Rightarrow> semid \<Rightarrow> kstate \<Rightarrow> (unit outcome \<times> kstate) kres" where
  "os_sem_destroy k cristate m s =
     kbind (wakeup_all_loop (SemQ m) s)
       (\<lambda>s. let s = memset_taskqueue (SemQ m) s;
                s = s\<lparr>sem := (sem s)(m := \<lparr>sem_value = 0\<rparr>)\<rparr>
            in kbind (os_schedule k 1 s) (sched_exit cristate ()))"

text \<open>The whole function, with its assertions and its critical section. Its continuation
  depends on the caller: a user task, or \<open>os_task_join\<close>.\<close>

definition os_sem_destroy_api ::
  "(u8 \<Rightarrow> kont) \<Rightarrow> semid \<Rightarrow> kstate \<Rightarrow> (unit outcome \<times> kstate) kres" where
  "os_sem_destroy_api k m s =
     os_assert (0 = isr_nesting s) s
     (os_assert (waitqueue_current s = None) s
       (let (cristate, s) = os_critical_enter s
        in os_sem_destroy (k cristate) cristate m s))"

definition os_sem_down ::
  "(u8 \<Rightarrow> kont) \<Rightarrow> semid \<Rightarrow> u16 \<Rightarrow> kstate \<Rightarrow> (os_retcode outcome \<times> kstate) kres" where
  "os_sem_down k m timeout_ticks s =
     os_assert (0 = isr_nesting s) s
     (os_assert (task_current s \<noteq> task_idle) s
     (os_assert (waitqueue_current s = None) s
     (os_assert (list_is_empty (MtxList (task_current s)) (mxh s)) s
       (let (cristate, s) = os_critical_enter s
        in if sem_value (sem s m) > 0
           then let s = s\<lparr>sem := (sem s)(m := \<lparr>sem_value = sem_value (sem s m) - 1\<rparr>)\<rparr>
                in ok (Return OS_OK, os_critical_exit cristate s)
           else if OS_TIMEOUT_TRY = timeout_ticks
           then ok (Return OS_WOULDBLOCK, os_critical_exit cristate s)
           else kbind (if OS_TIMEOUT_INFINITE \<noteq> timeout_ticks
                       then os_blocktimer_create (BlockTimer (task_current s)) SemTimerClbck
                              timeout_ticks s
                       else ok s)
                  (\<lambda>s. kbind (os_task_block_switch (k cristate) (SemQ m) OS_TASKBLOCK_SEM s)
                         (\<lambda>s. ok (Switched, s)))))))"

text \<open>The rest of \<open>os_task_block_switch\<close> and \<open>os_sem_down\<close>, run when the task is resumed.\<close>

definition os_sem_down_resume :: "u8 \<Rightarrow> kstate \<Rightarrow> (os_retcode \<times> kstate) kres" where
  "os_sem_down_resume cristate s =
     (let s = upd_task (task_current s) (\<lambda>k. k\<lparr>state := TASKSTATE_RUNNING\<rparr>) s
      in kbind (os_blocktimer_destroy (task_current s) s)
           (\<lambda>s. let ret = block_code (task s (task_current s))
                in ok (ret, os_critical_exit cristate s)))"

definition os_sem_up_sync ::
  "semid \<Rightarrow> bool \<Rightarrow> kstate \<Rightarrow> (apival outcome \<times> kstate) kres" where
  "os_sem_up_sync m sync s =
     os_assert (isr_nesting s = 0 \<or> sync = False) s
     (os_assert (isr_nesting s > 0 \<or> waitqueue_current s = None) s
       (let (cristate, s) = os_critical_enter s
        in os_assert (sem_value (sem s m) < ARCH_ATOMIC_MAX - 1) s
          (kbind (os_taskqueue_dequeue (SemQ m) s)
            (\<lambda>(t, s). case t of
               None \<Rightarrow>
                 let s = s\<lparr>sem := (sem s)(m := \<lparr>sem_value = sem_value (sem s m) + 1\<rparr>)\<rparr>
                 in ok (Return Void, os_critical_exit cristate s)
             | Some t \<Rightarrow>
                 kbind (os_blocktimer_destroy t s)
                   (\<lambda>s. let s = upd_task t (set_block_code OS_OK) s;
                            s = os_task_makeready t s
                        in if \<not> sync
                           then kbind (os_schedule (K_Schedule cristate) 1 s)
                                  (sched_exit cristate Void)
                           else ok (Return Void, os_critical_exit cristate s))))))"

definition os_sem_up :: "semid \<Rightarrow> kstate \<Rightarrow> (apival outcome \<times> kstate) kres" where
  "os_sem_up m s = os_sem_up_sync m False s"

definition os_sem_timerclbck :: "timer_param \<Rightarrow> kstate \<Rightarrow> kstate kres" where
  "os_sem_timerclbck prm s =
     (case prm of
        UserParam _ \<Rightarrow> fail Null_deref
      | TaskParam t \<Rightarrow>
          os_assert (TASKSTATE_WAIT = state (task s t)) s
            (kbind (os_taskqueue_unlink t s)
               (\<lambda>s. let s = upd_task t (set_block_code OS_TIMEOUT) s
                    in ok (os_task_makeready t s))))"

section \<open>Waking up all waiting tasks\<close>

lemma wake_then:
  "kbind (os_blocktimer_destroy t s) (\<lambda>s. F (os_task_makeready t (upd_task t (set_block_code c) s))) =
   kbind (wake c t s) F"
  by (auto simp: wake_def kbind_def Let_def split: option.splits sum.splits bind_splits)

lemma wakeup_all_loop_wake:
  "wakeup_all_loop q s = kbind (os_taskqueue_dequeue q s)
     (\<lambda>(t, s). case t of None \<Rightarrow> ok s | Some t \<Rightarrow> kbind (wake OS_DESTROYED t s) (wakeup_all_loop q))"
  by (subst wakeup_all_loop.simps) (simp add: wake_then cong: option.case_cong)

interpretation wakeall: drain "waiters L q" "\<lambda>(Q, ts, s). wakeup_all_loop q s" "\<lambda>(Q, ts, s). ok s"
  "all_woken OS_DESTROYED q" for L q
proof unfold_locales
  fix t us x
  show "waiters L q [] x \<Longrightarrow> (case x of (Q, ts, s) \<Rightarrow> wakeup_all_loop q s) = (case x of (Q, ts, s) \<Rightarrow> ok s)"
    by (cases x) (simp add: no_waiter wakeup_all_loop_wake)
  assume w: "waiters L q (t # us) x"
  obtain Q ts s where x: "x = (Q, ts, s)" by (cases x)
  obtain s1 Q' ts' s' where "os_taskqueue_dequeue q s = ok (Some t, s1)" "wake OS_DESTROYED t s1 = ok s'"
    "waiters L q us (Q', ts', s')" "all_woken OS_DESTROYED q [t] x (Q', ts', s')"
    using wake_first_waiter [of L q t us Q ts s OS_DESTROYED] w x by blast
  then show "\<exists>x'. (case x of (Q, ts, s) \<Rightarrow> wakeup_all_loop q s) = (case x' of (Q, ts, s) \<Rightarrow> wakeup_all_loop q s) \<and>
      waiters L q us x' \<and> all_woken OS_DESTROYED q [t] x x'"
    by (intro exI [of _ "(Q', ts', s')"]) (simp add: x wakeup_all_loop_wake [of q s])
qed (fact all_woken_nil all_woken_cons)+

lemma wakeup_all_result:
  assumes "kinv L Q ts s" and "q \<in> L" "q \<noteq> ReadyQ"
  shows "\<exists>s' Q' ts'. wakeup_all_loop q s = ok s' \<and> kinv L Q' ts' s' \<and> flat (Q' q) = [] \<and>
    all_woken OS_DESTROYED q (flat (Q q)) (Q, ts, s) (Q', ts', s')"
  using wakeall.drains [of L q "flat (Q q)" "(Q, ts, s)"] assms by (auto simp: waiters_def)

section \<open>Up\<close>

text \<open>A state with interrupts disabled, as the critical section leaves it.\<close>

lemma kinv_dint: "kinv L Q ts s \<Longrightarrow> kinv L Q ts (s\<lparr>sreg := r\<rparr>)"
  by (erule kinv_same) simp_all

lemma sem_up_token:
  assumes inv: "kinv L Q ts s" and m: "SemQ m \<in> L" and e: "flat (Q (SemQ m)) = []"
    and g: "isr_nesting s = 0 \<or> \<not> sync" "isr_nesting s > 0 \<or> waitqueue_current s = None"
    "sem_value (sem s m) < ARCH_ATOMIC_MAX - 1"
  shows "os_sem_up_sync m sync s = ok (Return Void, s\<lparr>sem := (sem s)(m := \<lparr>sem_value = sem_value (sem s m) + 1\<rparr>)\<rparr>)"
proof -
  have "os_taskqueue_dequeue (SemQ m) (s\<lparr>sreg := arch_dint (sreg s)\<rparr>) = ok (None, s\<lparr>sreg := arch_dint (sreg s)\<rparr>)"
    by (rule dequeue_inv_empty [OF kinvD(1) [OF kinv_dint [OF inv]] m e])
  then show ?thesis using g by (cases s) (simp add: os_sem_up_sync_def)
qed

text \<open>The call with a waiting task: the first waiter is woken up, then the scheduler runs unless the
  caller asked for synchronous mode.\<close>

lemma sem_up_run:
  assumes inv: "kinv L Q ts s" and m: "SemQ m \<in> L" and fl: "flat (Q (SemQ m)) = t # us"
    and g: "isr_nesting s = 0 \<or> \<not> sync" "isr_nesting s > 0 \<or> waitqueue_current s = None"
    "sem_value (sem s m) < ARCH_ATOMIC_MAX - 1"
  shows "\<exists>s2 Q' ts'. kinv L Q' ts' s2 \<and> flat (Q' (SemQ m)) = us \<and>
    all_woken OS_OK (SemQ m) [t] (Q, ts, s\<lparr>sreg := arch_dint (sreg s)\<rparr>) (Q', ts', s2) \<and>
    os_sem_up_sync m sync s = (if \<not> sync
      then kbind (os_schedule (K_Schedule (sreg s)) 1 s2) (sched_exit (sreg s) Void)
      else ok (Return Void, s2\<lparr>sreg := sreg s\<rparr>))"
proof -
  let ?s0 = "s\<lparr>sreg := arch_dint (sreg s)\<rparr>"
  have w: "waiters L (SemQ m) (t # us) (Q, ts, ?s0)" using kinv_dint [OF inv] m fl by (simp add: waiters_def)
  obtain s1 Q' ts' s2 where s1: "os_taskqueue_dequeue (SemQ m) ?s0 = ok (Some t, s1)" "wake OS_OK t s1 = ok s2"
    "waiters L (SemQ m) us (Q', ts', s2)" "all_woken OS_OK (SemQ m) [t] (Q, ts, ?s0) (Q', ts', s2)"
    using wake_first_waiter [OF w, of OS_OK] by blast
  have "os_sem_up_sync m sync s = (if \<not> sync
      then kbind (os_schedule (K_Schedule (sreg s)) 1 s2) (sched_exit (sreg s) Void)
      else ok (Return Void, s2\<lparr>sreg := sreg s\<rparr>))"
    using g s1(1,2) wake_then [where t = t and s = s1 and c = OS_OK and F = "\<lambda>s2. if \<not> sync
      then kbind (os_schedule (K_Schedule (sreg s)) 1 s2) (sched_exit (sreg s) Void)
      else ok (Return Void, s2\<lparr>sreg := sreg s\<rparr>)"]
    by (cases sync) (simp_all add: os_sem_up_sync_def)
  then show ?thesis using s1(3,4) by (auto simp: waiters_def)
qed

lemma sem_up_waiter:
  assumes inv: "kinv L Q ts s" and m: "SemQ m \<in> L" and fl: "flat (Q (SemQ m)) = t # us"
    and g: "isr_nesting s = 0 \<or> \<not> sync" "isr_nesting s > 0 \<or> waitqueue_current s = None"
    "sem_value (sem s m) < ARCH_ATOMIC_MAX - 1"
    and rd: "rd = prio_insert (\<lambda>t. prio_current (task s t)) t (ready Q)"
  shows "\<exists>r s' Q' ts'. os_sem_up_sync m sync s = ok (r, s') \<and> kinv L Q' ts' s' \<and> sem s' = sem s \<and>
    flat (Q' (SemQ m)) = us \<and> block_code (task s' t) = OS_OK \<and> timer (task s' t) = None \<and>
    BlockTimer t \<notin> set ts' \<and> (\<forall>q. q \<notin> {SemQ m, ReadyQ} \<longrightarrow> Q' q = Q q) \<and>
    (if \<not> sync \<and> isr_nesting s \<le> 1 \<and> sched_lock s = 0 \<and>
        prio_current (task s (task_current s)) < prio_current (task s (hd rd))
     then task_current s' = hd rd \<and> (r = Switched \<longleftrightarrow> isr_nesting s = 0) \<and>
       ready Q' = prio_insert (\<lambda>t. prio_current (task s t)) (task_current s) (tl rd)
     else r = Return Void \<and> task_current s' = task_current s \<and> ready Q' = rd)"
proof -
  let ?s0 = "s\<lparr>sreg := arch_dint (sreg s)\<rparr>"
  obtain s2 Q' ts' where inv2: "kinv L Q' ts' s2" "flat (Q' (SemQ m)) = us"
    and aw: "all_woken OS_OK (SemQ m) [t] (Q, ts, ?s0) (Q', ts', s2)"
    and run: "os_sem_up_sync m sync s = (if \<not> sync
      then kbind (os_schedule (K_Schedule (sreg s)) 1 s2) (sched_exit (sreg s) Void)
      else ok (Return Void, s2\<lparr>sreg := sreg s\<rparr>))"
    using sem_up_run [OF assms(1-6)] by blast
  have f2: "task_current s2 = task_current s" "sreg s2 = arch_dint (sreg s)" "sem s2 = sem s"
    "isr_nesting s2 = isr_nesting s" "sched_lock s2 = sched_lock s" "ready Q' = rd"
    "\<And>u. prio_current (task s2 u) = prio_current (task s u)" "block_code (task s2 t) = OS_OK"
    "timer (task s2 t) = None" "BlockTimer t \<notin> set ts'" "\<And>q. q \<notin> {SemQ m, ReadyQ} \<Longrightarrow> Q' q = Q q"
    using aw rd by (auto simp: all_woken_def core_frame_def block_code_def simp del: retcode_value.simps)
  have ne: "rd \<noteq> []" by (simp add: rd prio_insert_def)
  show ?thesis
  proof (cases sync)
    case True
    then show ?thesis
      using run inv2 kinv_dint [OF inv2(1), of "sreg s"] f2
      by (intro exI [of _ "Return Void"] exI [of _ "s2\<lparr>sreg := sreg s\<rparr>"] exI [of _ Q'] exI [of _ ts']) simp
  next
    case False
    obtain r s' Q'' where s': "kbind (os_schedule (K_Schedule (sreg s)) 1 s2) (sched_exit (sreg s) Void) = ok (r, s')"
      "kinv L Q'' ts' s'" "sched_frame s2 s'" "same_tasks s2 s'" "\<forall>q. q \<noteq> ReadyQ \<longrightarrow> Q'' q = Q' q"
      "if preempts 1 s2 (ready Q') then task_current s' = hd (ready Q') \<and> (r = Switched \<longleftrightarrow> isr_nesting s2 = 0) \<and>
         ready Q'' = prio_insert (\<lambda>t. prio_current (task s2 t)) (task_current s2) (tl (ready Q'))
       else r = Return Void \<and> s' = s2\<lparr>sreg := sreg s\<rparr> \<and> Q'' = Q'"
      using kinv_schedule_exit [OF inv2(1), of "K_Schedule (sreg s)" 1 "sreg s" Void] f2(2) by auto
    have "block_code (task s' t) = OS_OK" "timer (task s' t) = None"
      using s'(4) f2(8,9) by (auto simp: same_tasks_def same_tcb_def block_code_def)
    then show ?thesis
      using False run s' f2 inv2 ne preempts_higher [OF inv2(1)]
      by (intro exI [of _ r] exI [of _ s'] exI [of _ Q''] exI [of _ ts']) (auto simp: sched_frame_iff)
  qed
qed

text \<open>C14. \<open>os_sem_up_sync\<close> either stores the token or hands it over. If no task waits, the value is
  incremented and nothing else changes. Otherwise the first waiting task (of the highest priority,
  first-in first-out) becomes ready with the code \<open>OS_OK\<close> and without a timeout guard, and the value
  stays; the caller is preempted exactly if it did not ask for synchronous mode, the scheduler is
  not locked and a ready task has a higher priority. Calls from an interrupt in synchronous mode,
  from a task that prepared to wait, or on a full semaphore halt the system.\<close>

theorem sem_up_hands_over:
  assumes "kinv L Q ts s" and "SemQ m \<in> L"
  shows "(if (isr_nesting s = 0 \<or> \<not> sync) \<and> (isr_nesting s > 0 \<or> waitqueue_current s = None) \<and>
      sem_value (sem s m) < ARCH_ATOMIC_MAX - 1
    then \<exists>r s' Q' ts'. os_sem_up_sync m sync s = ok (r, s') \<and> kinv L Q' ts' s' \<and>
      (case flat (Q (SemQ m)) of
         [] \<Rightarrow> r = Return Void \<and> s' = s\<lparr>sem := (sem s)(m := \<lparr>sem_value = sem_value (sem s m) + 1\<rparr>)\<rparr>
       | t # us \<Rightarrow> sem s' = sem s \<and> flat (Q' (SemQ m)) = us \<and> block_code (task s' t) = OS_OK \<and>
           timer (task s' t) = None \<and> BlockTimer t \<notin> set ts' \<and>
           (\<forall>q. q \<notin> {SemQ m, ReadyQ} \<longrightarrow> Q' q = Q q) \<and>
           (let rd = prio_insert (\<lambda>t. prio_current (task s t)) t (ready Q)
            in if \<not> sync \<and> isr_nesting s \<le> 1 \<and> sched_lock s = 0 \<and>
                  prio_current (task s (task_current s)) < prio_current (task s (hd rd))
               then task_current s' = hd rd \<and> (r = Switched \<longleftrightarrow> isr_nesting s = 0) \<and>
                 ready Q' = prio_insert (\<lambda>t. prio_current (task s t)) (task_current s) (tl rd)
               else r = Return Void \<and> task_current s' = task_current s \<and> ready Q' = rd))
    else \<exists>s'. os_sem_up_sync m sync s = fail (Halted s'))"
proof (cases "(isr_nesting s = 0 \<or> \<not> sync) \<and> (isr_nesting s > 0 \<or> waitqueue_current s = None) \<and>
      sem_value (sem s m) < ARCH_ATOMIC_MAX - 1")
  case True
  note g = True [THEN conjunct1] True [THEN conjunct2, THEN conjunct1] True [THEN conjunct2, THEN conjunct2]
  show ?thesis
  proof (cases "flat (Q (SemQ m))")
    case Nil
    have "kinv L Q ts (s\<lparr>sem := (sem s)(m := \<lparr>sem_value = sem_value (sem s m) + 1\<rparr>)\<rparr>)"
      by (rule kinv_same [OF assms(1)]) simp_all
    then show ?thesis using sem_up_token [OF assms Nil g] True Nil by auto
  next
    case (Cons t us)
    show ?thesis unfolding Cons list.case if_P [OF True] Let_def by (rule sem_up_waiter [OF assms Cons g refl])
  qed
next
  case False
  then show ?thesis by (auto simp: os_sem_up_sync_def os_assert_def os_halt_def)
qed

section \<open>Down\<close>

text \<open>The running task blocks: with a timeout guard unless it waits for ever.\<close>

lemma block_guard_result:
  assumes inv: "kinv L Q ts s" and c: "task_current s = c" and none: "timer (task s c) = None"
    and to: "0 < timeout" "timeout \<noteq> OS_TIMEOUT_INFINITE \<Longrightarrow> timeout < OS_TIMER_TICKSREM_MAX"
    and cb: "cb \<in> {SemTimerClbck, WaitqueueTimerClbck}"
  shows "\<exists>s' ts'. (if OS_TIMEOUT_INFINITE \<noteq> timeout
      then os_blocktimer_create (BlockTimer c) cb timeout s else ok s) = ok s' \<and>
    sched_inv L Q s' \<and> floating s' = {} \<and> block_inv {c} ts' s' \<and> core_frame s s' \<and>
    task_current s' = c \<and> sreg s' = sreg s \<and>
    (\<exists>g. task s' = (task s)(c := (task s c)\<lparr>timer := g\<rparr>)) \<and>
    (timeout = OS_TIMEOUT_INFINITE \<longrightarrow> timer (task s' c) = None) \<and>
    (if timeout = OS_TIMEOUT_INFINITE then ts' = ts
     else set ts' = insert (BlockTimer c) (set ts) \<and>
       ticks_left s' (BlockTimer c) = unat timeout \<and>
       clbck (tmr s' (BlockTimer c)) = cb)"
proof (cases "timeout = OS_TIMEOUT_INFINITE")
  case True
  have "block_inv {c} ts s"
    by (rule block_inv_cong [OF kinvD(2) [OF inv]]) (use block_invD(4) [OF kinvD(2) [OF inv]] in auto)
  moreover have "task s = (task s)(c := (task s c)\<lparr>timer := None\<rparr>)"
    using none by (metis fun_upd_triv os_task.surjective os_task.update_convs(8))
  ultimately show ?thesis using True kinvD [OF inv] c none by (intro exI [of _ s] exI [of _ ts]) auto
next
  case False
  let ?b = "BlockTimer c"
  obtain s' ts' where s': "os_blocktimer_create ?b cb timeout s = ok s'" "block_inv {c} ts' s'"
    "set ts' = insert ?b (set ts)" "ticks_left s' ?b = unat timeout" "clbck (tmr s' ?b) = cb" "core_frame s s'"
    "tqh s' = tqh s" "qmask s' = qmask s" "task_current s' = c" "sreg s' = sreg s"
    "task s' = (task s)(c := (task s c)\<lparr>timer := Some ?b\<rparr>)"
    using blocktimer_create_result [OF kinvD(2) [OF inv], unfolded c, OF none to(1) to(2) [OF False] cb] by blast
  let ?u = "upd_task c (\<lambda>k. k\<lparr>timer := Some ?b\<rparr>) s"
  have "sched_inv L Q ?u" "floating ?u = {}"
    using sched_inv_upd_task [OF kinvD(1) [OF inv], of "\<lambda>k. k\<lparr>timer := Some ?b\<rparr>" c] kinvD(3) [OF inv] by auto
  then have "sched_inv L Q s'" "floating s' = {}"
    using sched_inv_cong [of s' ?u] s'(7-9,11) c by (simp_all add: task_upd_task)
  then show ?thesis using False s' c by (intro exI [of _ s'] exI [of _ ts']) auto
qed

lemma ready_not_current:
  assumes "kinv L Q ts s" and "ready Q = t # us"
  shows "t \<noteq> task_current s"
  using kinv_members [OF assms(1), of t ReadyQ] sched_invD(4) [OF kinvD(1) [OF assms(1)]] assms(2) by auto

lemma sem_down_blocks:
  assumes inv: "kinv L Q ts s" and m: "SemQ m \<in> L" and none: "timer (task s (task_current s)) = None"
    and g: "isr_nesting s = 0" "task_current s \<noteq> task_idle" "waitqueue_current s = None"
      "list_is_empty (MtxList (task_current s)) (mxh s)"
    and v: "sem_value (sem s m) = 0" and to: "timeout \<noteq> OS_TIMEOUT_TRY"
      "timeout \<noteq> OS_TIMEOUT_INFINITE \<Longrightarrow> timeout < OS_TIMER_TICKSREM_MAX"
  shows "\<exists>s' Q' ts'. os_sem_down k m timeout s = ok (Switched, s') \<and> kinv L Q' ts' s' \<and> core_frame s s' \<and>
    task_current s' = hd (ready Q) \<and> ready Q' = tl (ready Q) \<and>
    flat (Q' (SemQ m)) = prio_insert (\<lambda>t. prio_current (task s t)) (task_current s) (flat (Q (SemQ m))) \<and>
    (\<forall>q. q \<notin> {SemQ m, ReadyQ} \<longrightarrow> Q' q = Q q) \<and>
    state (task s' (task_current s)) = TASKSTATE_WAIT \<and> ctx_kont (task s' (task_current s)) = k (sreg s) \<and>
    (\<forall>t. prio_current (task s' t) = prio_current (task s t) \<and> join_sem (task s' t) = join_sem (task s t) \<and>
      (t \<noteq> task_current s \<longrightarrow> state (task s' t) = state (task s t))) \<and>
    (\<exists>g. task s' = (task s)(hd (ready Q) := (task s (hd (ready Q)))\<lparr>task_queue := None\<rparr>,
       task_current s := (task s (task_current s))\<lparr>timer := g, state := TASKSTATE_WAIT, block_type := OS_TASKBLOCK_SEM,
         task_queue := Some (SemQ m), ctx_kont := k (sreg s)\<rparr>)) \<and>
    (timeout = OS_TIMEOUT_INFINITE \<longrightarrow> timer (task s' (task_current s)) = None) \<and>
    (if timeout = OS_TIMEOUT_INFINITE then ts' = ts
     else set ts' = insert (BlockTimer (task_current s)) (set ts) \<and>
       ticks_left s' (BlockTimer (task_current s)) = unat timeout \<and>
       clbck (tmr s' (BlockTimer (task_current s))) = SemTimerClbck)"
proof -
  let ?c = "task_current s" and ?s0 = "s\<lparr>sreg := arch_dint (sreg s)\<rparr>"
  have to0: "0 < timeout" using to(1) by (simp add: OS_TIMEOUT_TRY_def word_gt_0)
  obtain s1 ts' where s1: "(if OS_TIMEOUT_INFINITE \<noteq> timeout
      then os_blocktimer_create (BlockTimer ?c) SemTimerClbck timeout ?s0 else ok ?s0) = ok s1"
    "sched_inv L Q s1" "floating s1 = {}" "block_inv {?c} ts' s1" "core_frame ?s0 s1" "task_current s1 = ?c"
    "\<exists>g. task s1 = (task s)(?c := (task s ?c)\<lparr>timer := g\<rparr>)"
    "timeout = OS_TIMEOUT_INFINITE \<longrightarrow> timer (task s1 ?c) = None"
    "if timeout = OS_TIMEOUT_INFINITE then ts' = ts
     else set ts' = insert (BlockTimer ?c) (set ts) \<and> ticks_left s1 (BlockTimer ?c) = unat timeout \<and>
       clbck (tmr s1 (BlockTimer ?c)) = SemTimerClbck"
    using block_guard_result [OF kinv_dint [OF inv], of "arch_dint (sreg s)" ?c timeout SemTimerClbck] none to0 to(2)
    by auto
  obtain t us where rd: "ready Q = t # us" using ready_nonempty(2) [OF kinvD(1) [OF inv] g(2)] by blast
  have pr: "(\<lambda>t. prio_current (task s1 t)) = (\<lambda>t. prio_current (task s t))" using s1(7) by auto
  obtain s' Q' where s': "os_task_block_switch (k (sreg s)) (SemQ m) OS_TASKBLOCK_SEM s1 = ok s'" "kinv L Q' ts' s'"
    "sched_frame s1 s'" "task_current s' = t"
    "task s' = (task s1)(t := (task s1 t)\<lparr>task_queue := None\<rparr>,
      ?c := (task s1 ?c)\<lparr>state := TASKSTATE_WAIT, block_type := OS_TASKBLOCK_SEM, task_queue := Some (SemQ m), ctx_kont := k (sreg s)\<rparr>)"
    "flat (Q' (SemQ m)) = prio_insert (\<lambda>t. prio_current (task s t)) ?c (flat (Q (SemQ m)))"
    "ready Q' = us" "\<forall>q'. q' \<notin> {SemQ m, ReadyQ} \<longrightarrow> Q' q' = Q q'"
    using kinv_block_switch [OF s1(2-3) _ m _ _ rd, of ts' "k (sreg s)"] s1(4,6) g(2) pr by auto
  have "os_sem_down k m timeout s = ok (Switched, s')"
    using g v to(1) s1(1) s'(1) by (simp add: os_sem_down_def split: if_splits)
  moreover have "\<forall>t. prio_current (task s' t) = prio_current (task s t) \<and> join_sem (task s' t) = join_sem (task s t) \<and>
      (t \<noteq> ?c \<longrightarrow> state (task s' t) = state (task s t))"
    using s'(5) s1(7) by auto
  moreover have "ticks_left s' = ticks_left s1" "tmr s' = tmr s1" "core_frame s s'"
    using s'(3) s1(5) by (auto simp: ticks_left_def sched_frame_iff core_frame_def fun_eq_iff)
  moreover have "\<exists>g. task s' = (task s)(t := (task s t)\<lparr>task_queue := None\<rparr>,
       ?c := (task s ?c)\<lparr>timer := g, state := TASKSTATE_WAIT, block_type := OS_TASKBLOCK_SEM,
         task_queue := Some (SemQ m), ctx_kont := k (sreg s)\<rparr>)"
    using s'(5) s1(7) ready_not_current [OF inv rd] by auto
  moreover have "timer (task s' ?c) = timer (task s1 ?c)" by (simp add: s'(5))
  ultimately show ?thesis using s' s1(8,9) rd
    by (intro exI [of _ s'] exI [of _ Q'] exI [of _ ts']) simp
qed

text \<open>C15. \<open>os_sem_down\<close> on every branch. A positive value is decremented and the call returns \<open>OS_OK\<close>;
  with value 0 the call returns \<open>OS_WOULDBLOCK\<close> unchanged if it must not block, and otherwise the
  task enters the queue of the semaphore behind the waiters of at least its priority, with a guard
  that expires after exactly the given ticks unless it waits for ever, and the first ready task
  runs. A call from an interrupt, by the idle task, after \<open>os_waitqueue_prepare\<close>, while holding a
  mutex, or with a timeout beyond the range of the timers halts.\<close>

theorem sem_down_cases:
  assumes inv: "kinv L Q ts s" and m: "SemQ m \<in> L" and none: "timer (task s (task_current s)) = None"
  shows "(if isr_nesting s = 0 \<and> task_current s \<noteq> task_idle \<and> waitqueue_current s = None \<and>
      list_is_empty (MtxList (task_current s)) (mxh s)
    then if sem_value (sem s m) > 0
      then os_sem_down k m timeout s =
        ok (Return OS_OK, s\<lparr>sem := (sem s)(m := \<lparr>sem_value = sem_value (sem s m) - 1\<rparr>)\<rparr>)
      else if timeout = OS_TIMEOUT_TRY then os_sem_down k m timeout s = ok (Return OS_WOULDBLOCK, s)
      else if timeout < OS_TIMER_TICKSREM_MAX \<or> timeout = OS_TIMEOUT_INFINITE
      then \<exists>s' Q' ts'. os_sem_down k m timeout s = ok (Switched, s') \<and> kinv L Q' ts' s' \<and> core_frame s s' \<and>
        task_current s' = hd (ready Q) \<and> ready Q' = tl (ready Q) \<and>
        flat (Q' (SemQ m)) = prio_insert (\<lambda>t. prio_current (task s t)) (task_current s) (flat (Q (SemQ m))) \<and>
        (\<forall>q. q \<notin> {SemQ m, ReadyQ} \<longrightarrow> Q' q = Q q) \<and>
        state (task s' (task_current s)) = TASKSTATE_WAIT \<and> ctx_kont (task s' (task_current s)) = k (sreg s) \<and>
        (\<forall>t. prio_current (task s' t) = prio_current (task s t) \<and> join_sem (task s' t) = join_sem (task s t) \<and>
          (t \<noteq> task_current s \<longrightarrow> state (task s' t) = state (task s t))) \<and>
        (if timeout = OS_TIMEOUT_INFINITE then ts' = ts
         else set ts' = insert (BlockTimer (task_current s)) (set ts) \<and>
           ticks_left s' (BlockTimer (task_current s)) = unat timeout \<and>
           clbck (tmr s' (BlockTimer (task_current s))) = SemTimerClbck)
      else \<exists>s'. os_sem_down k m timeout s = fail (Halted s')
    else os_sem_down k m timeout s = os_halt s)"
proof (cases "isr_nesting s = 0 \<and> task_current s \<noteq> task_idle \<and> waitqueue_current s = None \<and>
      list_is_empty (MtxList (task_current s)) (mxh s)")
  case False
  then show ?thesis by (auto simp: os_sem_down_def os_assert_def)
next
  case True
  note g = True [THEN conjunct1] True [THEN conjunct2, THEN conjunct1]
    True [THEN conjunct2, THEN conjunct2, THEN conjunct1] True [THEN conjunct2, THEN conjunct2, THEN conjunct2]
  consider (token) "sem_value (sem s m) > 0" | (nowait) "\<not> sem_value (sem s m) > 0" "timeout = OS_TIMEOUT_TRY"
    | (block) "\<not> sem_value (sem s m) > 0" "timeout \<noteq> OS_TIMEOUT_TRY" "timeout < OS_TIMER_TICKSREM_MAX \<or> timeout = OS_TIMEOUT_INFINITE"
    | (long) "\<not> sem_value (sem s m) > 0" "timeout \<noteq> OS_TIMEOUT_TRY" "\<not> timeout < OS_TIMER_TICKSREM_MAX" "timeout \<noteq> OS_TIMEOUT_INFINITE"
    by blast
  then show ?thesis
  proof cases
    case token
    then show ?thesis using True by (cases s) (simp add: os_sem_down_def)
  next
    case nowait
    then show ?thesis using True by (cases s) (simp add: os_sem_down_def)
  next
    case block
    then have v: "sem_value (sem s m) = 0" by (simp add: word_gt_0)
    show ?thesis
      unfolding if_P [OF True] if_not_P [OF block(1)] if_not_P [OF block(2)] if_P [OF block(3)]
      using sem_down_blocks [OF inv m none g v block(2), of k] block(3) by blast
  next
    case long
    then have "os_blocktimer_create b SemTimerClbck timeout (s\<lparr>sreg := r\<rparr>) = os_halt (s\<lparr>sreg := r\<rparr>)" for b r
      using none by (simp add: os_blocktimer_create_def os_timer_create_def OS_TIMEOUT_TRY_def os_halt_def word_gt_0)
    then have "os_sem_down k m timeout s = os_halt (s\<lparr>sreg := arch_dint (sreg s)\<rparr>)"
      using g long by (simp add: os_sem_down_def os_halt_def)
    then show ?thesis using True long by (simp add: os_halt_def)
  qed
qed

section \<open>Destroy\<close>

lemma sem_destroy_run:
  assumes inv: "kinv L Q ts s" and m: "SemQ m \<in> L" and g: "isr_nesting s = 0" "waitqueue_current s = None"
  shows "\<exists>s1 Q1 ts' s2. kinv (L - {SemQ m}) Q1 ts' s2 \<and>
    all_woken OS_DESTROYED (SemQ m) (flat (Q (SemQ m))) (Q, ts, s\<lparr>sreg := arch_dint (sreg s)\<rparr>) (Q1, ts', s1) \<and>
    s2 = (memset_taskqueue (SemQ m) s1)\<lparr>sem := (sem s1)(m := \<lparr>sem_value = 0\<rparr>)\<rparr> \<and>
    os_sem_destroy_api k m s = kbind (os_schedule (k (sreg s)) 1 s2) (sched_exit (sreg s) ())"
proof -
  let ?s0 = "s\<lparr>sreg := arch_dint (sreg s)\<rparr>"
  obtain s1 Q1 ts' where s1: "wakeup_all_loop (SemQ m) ?s0 = ok s1" "kinv L Q1 ts' s1" "flat (Q1 (SemQ m)) = []"
    "all_woken OS_DESTROYED (SemQ m) (flat (Q (SemQ m))) (Q, ts, ?s0) (Q1, ts', s1)"
    using wakeup_all_result [OF kinv_dint [OF inv] m, of "arch_dint (sreg s)"] by auto
  let ?s2 = "(memset_taskqueue (SemQ m) s1)\<lparr>sem := (sem s1)(m := \<lparr>sem_value = 0\<rparr>)\<rparr>"
  have "kinv (L - {SemQ m}) Q1 ts' ?s2"
    by (rule kinv_same [OF kinv_memset_queue [OF s1(2) _ s1(3)]]) simp_all
  moreover have "os_sem_destroy_api k m s = kbind (os_schedule (k (sreg s)) 1 ?s2) (sched_exit (sreg s) ())"
    using g s1(1) by (simp add: os_sem_destroy_api_def os_sem_destroy_def memset_taskqueue_def)
  ultimately show ?thesis using s1(4) by blast
qed

lemma sem_destroy_result:
  assumes inv: "kinv L Q ts s" and m: "SemQ m \<in> L" and g: "isr_nesting s = 0" "waitqueue_current s = None"
    and rd: "rd = fold (prio_insert (\<lambda>t. prio_current (task s t))) (flat (Q (SemQ m))) (ready Q)"
  shows "\<exists>r s' Q' ts'. os_sem_destroy_api k m s = ok (r, s') \<and> kinv (L - {SemQ m}) Q' ts' s' \<and>
    sem_value (sem s' m) = 0 \<and> set ts' = set ts - BlockTimer ` set (flat (Q (SemQ m))) \<and>
    (\<forall>t \<in> set (flat (Q (SemQ m))). block_code (task s' t) = OS_DESTROYED \<and> timer (task s' t) = None) \<and>
    insert (task_current s') (set (ready Q')) = insert (task_current s) (set rd) \<and>
    (if sched_lock s = 0 \<and> rd \<noteq> [] \<and> prio_current (task s (task_current s)) < prio_current (task s (hd rd))
     then r = Switched \<and> task_current s' = hd rd
     else r = Return () \<and> task_current s' = task_current s \<and> ready Q' = rd)"
proof -
  let ?s0 = "s\<lparr>sreg := arch_dint (sreg s)\<rparr>" and ?us = "flat (Q (SemQ m))"
  obtain s1 Q1 ts' where inv2: "kinv (L - {SemQ m}) Q1 ts' ((memset_taskqueue (SemQ m) s1)\<lparr>sem := (sem s1)(m := \<lparr>sem_value = 0\<rparr>)\<rparr>)"
    and aw: "all_woken OS_DESTROYED (SemQ m) ?us (Q, ts, ?s0) (Q1, ts', s1)"
    and run: "os_sem_destroy_api k m s = kbind (os_schedule (k (sreg s)) 1
      ((memset_taskqueue (SemQ m) s1)\<lparr>sem := (sem s1)(m := \<lparr>sem_value = 0\<rparr>)\<rparr>)) (sched_exit (sreg s) ())"
    using sem_destroy_run [OF assms(1-4)] by blast
  let ?s2 = "(memset_taskqueue (SemQ m) s1)\<lparr>sem := (sem s1)(m := \<lparr>sem_value = 0\<rparr>)\<rparr>"
  have f2: "task_current ?s2 = task_current s" "sreg ?s2 = arch_dint (sreg s)" "isr_nesting ?s2 = 0"
    "sched_lock ?s2 = sched_lock s" "ready Q1 = rd" "task ?s2 = task s1"
    "(\<lambda>u. prio_current (task s1 u)) = (\<lambda>u. prio_current (task s u))"
    "\<And>t. t \<in> set ?us \<Longrightarrow> block_code (task s1 t) = OS_DESTROYED \<and> timer (task s1 t) = None"
    "set ts' = set ts - BlockTimer ` set ?us"
    using aw rd g by (auto simp: all_woken_def core_frame_def block_code_def memset_taskqueue_def
        simp del: retcode_value.simps)
  obtain r s' Q' where s': "kbind (os_schedule (k (sreg s)) 1 ?s2) (sched_exit (sreg s) ()) = ok (r, s')"
    "kinv (L - {SemQ m}) Q' ts' s'" "sched_frame ?s2 s'" "same_tasks ?s2 s'"
    "if preempts 1 ?s2 (ready Q1) then task_current s' = hd (ready Q1) \<and> (r = Switched \<longleftrightarrow> isr_nesting ?s2 = 0) \<and>
       ready Q' = prio_insert (\<lambda>t. prio_current (task ?s2 t)) (task_current ?s2) (tl (ready Q1))
     else r = Return () \<and> s' = ?s2\<lparr>sreg := sreg s\<rparr> \<and> Q' = Q1"
    "insert (task_current s') (set (ready Q')) = insert (task_current ?s2) (set (ready Q1))"
    using kinv_schedule_exit [OF inv2, of "k (sreg s)" 1 "sreg s" "()"] f2(2) by auto
  have tasks: "\<forall>t \<in> set ?us. block_code (task s' t) = OS_DESTROYED \<and> timer (task s' t) = None"
    using s'(4) f2(6,8) by (auto simp: same_tasks_def same_tcb_def block_code_def)
  have pre: "preempts 1 ?s2 (ready Q1) \<longleftrightarrow> sched_lock s = 0 \<and> rd \<noteq> [] \<and>
      prio_current (task s (task_current s)) < prio_current (task s (hd rd))"
    using preempts_higher [OF inv2] f2(1,3-6) fun_cong [OF f2(7)] by simp
  have "sem_value (sem s' m) = 0" using s'(3) by (simp add: sched_frame_iff)
  moreover have "insert (task_current s') (set (ready Q')) = insert (task_current s) (set rd)"
    using s'(6) f2(1,5) by simp
  moreover have "if sched_lock s = 0 \<and> rd \<noteq> [] \<and> prio_current (task s (task_current s)) < prio_current (task s (hd rd))
     then r = Switched \<and> task_current s' = hd rd
     else r = Return () \<and> task_current s' = task_current s \<and> ready Q' = rd"
    using s'(5) f2(1,3,5) unfolding pre by (simp split: if_splits)
  ultimately show ?thesis using run [unfolded s'(1)] s'(2) f2(9) tasks by blast
qed

text \<open>\<open>os_sem_destroy\<close> ends and wakes up every waiting task: each becomes ready with the code
  \<open>OS_DESTROYED\<close> and without its timeout guard, the value is cleared and the queue is given up, and
  the caller is preempted exactly if a task that is now ready has a higher priority (and the
  scheduler is not locked). In an interrupt, or after \<open>os_waitqueue_prepare\<close>, the call halts.\<close>

theorem sem_destroy_wakes_all:
  assumes "kinv L Q ts s" and "SemQ m \<in> L"
  shows "(if isr_nesting s = 0 \<and> waitqueue_current s = None
    then \<exists>r s' Q' ts'. os_sem_destroy_api k m s = ok (r, s') \<and> kinv (L - {SemQ m}) Q' ts' s' \<and>
      sem_value (sem s' m) = 0 \<and> set ts' = set ts - BlockTimer ` set (flat (Q (SemQ m))) \<and>
      (\<forall>t \<in> set (flat (Q (SemQ m))). block_code (task s' t) = OS_DESTROYED \<and> timer (task s' t) = None) \<and>
      (let rd = fold (prio_insert (\<lambda>t. prio_current (task s t))) (flat (Q (SemQ m))) (ready Q)
       in insert (task_current s') (set (ready Q')) = insert (task_current s) (set rd) \<and>
         (if sched_lock s = 0 \<and> rd \<noteq> [] \<and> prio_current (task s (task_current s)) < prio_current (task s (hd rd))
          then r = Switched \<and> task_current s' = hd rd
          else r = Return () \<and> task_current s' = task_current s \<and> ready Q' = rd))
    else os_sem_destroy_api k m s = os_halt s)"
proof (cases "isr_nesting s = 0 \<and> waitqueue_current s = None")
  case True
  then show ?thesis
    unfolding if_P [OF True] Let_def by (intro sem_destroy_result [OF assms _ _ refl]) simp_all
qed (auto simp: os_sem_destroy_api_def os_assert_def)

section \<open>Creation, resumption and timeout\<close>

lemma sem_create_result:
  assumes inv: "kinv L Q ts s" and m: "SemQ m \<notin> L" and g: "v < ARCH_ATOMIC_MAX" "waitqueue_current s = None"
  shows "\<exists>s'. os_sem_create m v s = ok s' \<and> kinv (insert (SemQ m) L) Q ts s' \<and> flat (Q (SemQ m)) = [] \<and>
    sem s' = (sem s)(m := \<lparr>sem_value = v\<rparr>) \<and> task s' = task s \<and> task_current s' = task_current s \<and>
    sreg s' = sreg s \<and> isr_nesting s' = isr_nesting s \<and> sched_lock s' = sched_lock s \<and>
    waitqueue_current s' = waitqueue_current s \<and> mxh s' = mxh s \<and> mtx s' = mtx s"
proof -
  let ?s = "os_taskqueue_init (SemQ m) (memset_taskqueue (SemQ m) s)"
  have "kinv (insert (SemQ m) L) Q ts (?s\<lparr>sem := (sem s)(m := \<lparr>sem_value = v\<rparr>)\<rparr>)"
    by (rule kinv_same [OF kinv_init_queue(1) [OF inv m]]) simp_all
  then show ?thesis
    using g kinv_init_queue(2) [OF inv m]
    by (simp add: os_sem_create_def memset_taskqueue_def os_taskqueue_init_def Let_def)
qed

text \<open>The resumed task: it runs, its guard is gone, and it returns the code its waker left.\<close>

lemma resume_result:
  assumes inv: "kinv L Q ts s" and s1: "s1 = upd_task (task_current s) (\<lambda>k. k\<lparr>state := TASKSTATE_RUNNING\<rparr>) s"
  shows "\<exists>s' ts'. os_blocktimer_destroy (task_current s1) s1 = ok s' \<and> kinv L Q ts' s' \<and> core_frame s s' \<and>
    set ts' = set ts - {BlockTimer (task_current s)} \<and> task_current s' = task_current s \<and> sreg s' = sreg s \<and>
    task s' = (task s)(task_current s :=
      (task s (task_current s))\<lparr>state := TASKSTATE_RUNNING, timer := None\<rparr>)"
proof -
  let ?c = "task_current s"
  have inv1: "sched_inv L Q s1" "floating s1 = {}" "block_inv {} ts s1"
    using kinvD [OF kinv_running [OF inv]] by (simp_all add: s1)
  from inv1(3) obtain s' ts' where s': "os_blocktimer_destroy ?c s1 = ok s'" "block_inv {} ts' s'"
    "set ts' = set ts - {BlockTimer ?c}" "core_frame s1 s'" "tqh s' = tqh s1" "qmask s' = qmask s1"
    "task_current s' = ?c" "sreg s' = sreg s1" "task s' = (task s1)(?c := (task s1 ?c)\<lparr>timer := None\<rparr>)"
    using blocktimer_destroy_result [of "{}" ts s1 ?c] by (auto simp: s1)
  let ?u = "upd_task ?c (\<lambda>k. k\<lparr>timer := None\<rparr>) s1"
  have "sched_inv L Q ?u" "floating ?u = {}"
    using sched_inv_upd_task [OF inv1(1), of "\<lambda>k. k\<lparr>timer := None\<rparr>" ?c] inv1(2) by auto
  then have "sched_inv L Q s'" "floating s' = {}"
    using sched_inv_cong [of s' ?u] s'(5-7,9) by (simp_all add: task_upd_task s1)
  then show ?thesis
    using s' by (intro exI [of _ s'] exI [of _ ts']) (simp add: kinv_def s1 task_upd_task core_frame_def)
qed

lemma sem_down_resume_result:
  assumes "kinv L Q ts s"
  shows "\<exists>s' ts'. os_sem_down_resume c s = ok (block_code (task s (task_current s)), s') \<and> kinv L Q ts' s' \<and>
    core_frame s s' \<and> set ts' = set ts - {BlockTimer (task_current s)} \<and> task_current s' = task_current s \<and>
    sreg s' = c \<and> task s' = (task s)(task_current s :=
      (task s (task_current s))\<lparr>state := TASKSTATE_RUNNING, timer := None\<rparr>)"
proof -
  obtain s1 ts' where s1: "os_blocktimer_destroy (task_current s)
      (upd_task (task_current s) (\<lambda>k. k\<lparr>state := TASKSTATE_RUNNING\<rparr>) s) = ok s1" "kinv L Q ts' s1" "core_frame s s1"
    "set ts' = set ts - {BlockTimer (task_current s)}" "task_current s1 = task_current s"
    "task s1 = (task s)(task_current s := (task s (task_current s))\<lparr>state := TASKSTATE_RUNNING, timer := None\<rparr>)"
    using resume_result [OF assms refl] by auto
  then show ?thesis
    using kinv_dint [OF s1(2), of c]
    by (intro exI [of _ "s1\<lparr>sreg := c\<rparr>"] exI [of _ ts'])
      (simp add: os_sem_down_resume_def core_frame_def block_code_def)
qed

lemma sem_timerclbck_expire:
  "os_sem_timerclbck (TaskParam t) s = (if state (task s t) = TASKSTATE_WAIT then expire t s else os_halt s)"
  by (simp add: os_sem_timerclbck_def expire_def)

section \<open>Witnesses\<close>

abbreviation demo_queues :: queues where
  "demo_queues \<equiv> bucket_upd ReadyQ 0 (\<lambda>ts. ts @ [0]) (\<lambda>_ _. [])"

lemma demo_running_fields:
  "task_current demo_running = 2" "isr_nesting demo_running = 0" "sched_lock demo_running = 0"
  "waitqueue_current demo_running = None" "tmh demo_running = tmh (os_timers_init boot)"
  "tmr demo_running = tmr (os_timers_init boot)" "mxh demo_running = mxh (os_init boot)"
  "timer_tick_unsynch demo_running = timer_tick_unsynch (os_timers_init boot)"
  "sem demo_running = sem boot" "task demo_running = (\<lambda>t. if t = 0
     then zero_task\<lparr>state := TASKSTATE_READY, task_queue := Some ReadyQ\<rparr> else if t = 2
     then zero_task\<lparr>prio_base := 2, prio_current := 2\<rparr> else zero_task)"
  "ready demo_queues = [0]" "flat (demo_queues (SemQ (UserSem 0))) = []"
  using makeready_fields(2) [of "upd_task 2 (\<lambda>k. k\<lparr>prio_base := 2, prio_current := 2\<rparr>) (os_init boot)" 0]
  by (auto simp: demo_running_def os_taskqueue_init_def Let_def tq_frame_iff makeready_fields task_upd_task
      os_init_def os_timers_init_def os_task_init_def upd_task_def boot_def zero_task_def task_idle_def
      bucket_upd_def OS_CONFIG_PRIOCNT_def eval_nat_numeral fun_eq_iff)

lemma demo_running_kinv: "kinv {ReadyQ, SemQ (UserSem 0)} demo_queues [] demo_running"
proof -
  have "tm_rel [] demo_running" using boot_timers by (subst tm_rel_cong) (simp_all add: demo_running_fields)
  then have "block_inv {} [] demo_running"
    using boot_magic by (auto simp: block_inv_def guards_def demo_running_fields zero_task_def)
  then show ?thesis
    using demo_running_inv by (auto simp: kinv_def floating_def demo_running_fields zero_task_def)
qed

text \<open>The same state with the list of mutexes of the running task initialised.\<close>

definition demo_sem :: kstate where
  "demo_sem = demo_running\<lparr>mxh := list_init (MtxList 2) (mxh demo_running)\<rparr>"

lemma demo_sem_kinv: "kinv {ReadyQ, SemQ (UserSem 0)} demo_queues [] demo_sem"
  unfolding demo_sem_def by (rule kinv_same [OF demo_running_kinv]) simp_all

lemma demo_sem_fields:
  "task_current demo_sem = 2" "isr_nesting demo_sem = 0" "sched_lock demo_sem = 0"
  "waitqueue_current demo_sem = None" "sem_value (sem demo_sem m) = 0"
  "prio_current (task demo_sem 0) = 0" "prio_current (task demo_sem 2) = 2" "timer (task demo_sem 2) = None"
  "list_is_empty (MtxList 2) (mxh demo_sem)"
  by (simp_all add: demo_sem_def demo_running_fields zero_task_def boot_def list_is_empty_def list_init_def list_h_defs)

theorem sem_down_cases_witness:
  "\<exists>s'. os_sem_down K_SemDown (UserSem 0) 10 demo_sem = ok (Switched, s') \<and>
     ticks_left s' (BlockTimer 2) = 10 \<and> task_current s' = 0"
proof -
  have "isr_nesting demo_sem = 0 \<and> task_current demo_sem \<noteq> task_idle \<and> waitqueue_current demo_sem = None \<and>
      list_is_empty (MtxList (task_current demo_sem)) (mxh demo_sem)"
    by (simp add: demo_sem_fields task_idle_def)
  then show ?thesis
    using sem_down_cases [OF demo_sem_kinv, of "UserSem 0" K_SemDown 10] demo_sem_fields(1,5,8) demo_running_fields(11)
    by (auto simp: OS_TIMEOUT_TRY_def OS_TIMEOUT_INFINITE_def OS_TICKS_MAX_def OS_TIMER_TICKSREM_MAX_def
        OS_TIMER_UNSYNCH_MAX_def)
qed

text \<open>Task 2 blocked on the semaphore.\<close>

lemma demo_blocked:
  "\<exists>s' Q'. os_sem_down K_SemDown (UserSem 0) OS_TIMEOUT_INFINITE demo_sem = ok (Switched, s') \<and>
     kinv {ReadyQ, SemQ (UserSem 0)} Q' [] s' \<and> core_frame demo_sem s' \<and> task_current s' = 0 \<and>
     ready Q' = [] \<and> flat (Q' (SemQ (UserSem 0))) = [2] \<and>
     (\<forall>t. prio_current (task s' t) = prio_current (task demo_sem t))"
  using sem_down_blocks [OF demo_sem_kinv, of "UserSem 0" OS_TIMEOUT_INFINITE K_SemDown]
    demo_sem_fields(1,2,4,5,8,9) demo_running_fields(11,12)
  by (auto simp: task_idle_def OS_TIMEOUT_TRY_def OS_TIMEOUT_INFINITE_def OS_TICKS_MAX_def)

theorem sem_up_hands_over_witness:
  "\<exists>s s'. os_sem_down K_SemDown (UserSem 0) OS_TIMEOUT_INFINITE demo_sem = ok (Switched, s) \<and>
     os_sem_up_sync (UserSem 0) False s = ok (Switched, s') \<and> task_current s' = 2"
proof -
  obtain s Q where s: "os_sem_down K_SemDown (UserSem 0) OS_TIMEOUT_INFINITE demo_sem = ok (Switched, s)"
    "kinv {ReadyQ, SemQ (UserSem 0)} Q [] s" "core_frame demo_sem s" "task_current s = 0" "ready Q = []"
    "flat (Q (SemQ (UserSem 0))) = [2]" "\<forall>t. prio_current (task s t) = prio_current (task demo_sem t)"
    using demo_blocked by blast
  have f: "isr_nesting s = 0" "waitqueue_current s = None" "sched_lock s = 0" "sem_value (sem s (UserSem 0)) = 0"
    using s(3) demo_sem_fields(2-5) by (auto simp: core_frame_def)
  have "\<exists>s'. os_sem_up_sync (UserSem 0) False s = ok (Switched, s') \<and> task_current s' = 2"
    using sem_up_hands_over [OF s(2), of "UserSem 0" False] s(4-7) f demo_sem_fields(6,7)
    by (auto simp: Let_def ARCH_ATOMIC_MAX_def)
  then show ?thesis using s(1) by blast
qed

theorem sem_destroy_wakes_all_witness:
  "\<exists>s s'. os_sem_down K_SemDown (UserSem 0) OS_TIMEOUT_INFINITE demo_sem = ok (Switched, s) \<and>
     os_sem_destroy_api K_Schedule (UserSem 0) s = ok (Switched, s') \<and> task_current s' = 2 \<and>
     block_code (task s' 2) = OS_DESTROYED"
proof -
  obtain s Q where s: "os_sem_down K_SemDown (UserSem 0) OS_TIMEOUT_INFINITE demo_sem = ok (Switched, s)"
    "kinv {ReadyQ, SemQ (UserSem 0)} Q [] s" "core_frame demo_sem s" "task_current s = 0" "ready Q = []"
    "flat (Q (SemQ (UserSem 0))) = [2]" "\<forall>t. prio_current (task s t) = prio_current (task demo_sem t)"
    using demo_blocked by blast
  have f: "isr_nesting s = 0" "waitqueue_current s = None" "sched_lock s = 0"
    using s(3) demo_sem_fields(2-4) by (auto simp: core_frame_def)
  have "\<exists>s'. os_sem_destroy_api K_Schedule (UserSem 0) s = ok (Switched, s') \<and> task_current s' = 2 \<and>
      block_code (task s' 2) = OS_DESTROYED"
    using sem_destroy_wakes_all [OF s(2), of "UserSem 0" K_Schedule] s(4-7) f demo_sem_fields(6,7)
    by (auto simp: Let_def)
  then show ?thesis using s(1) by blast
qed

end
