(* ===== verification/Mtx.thy ===== *)
theory Mtx
  imports Sem
begin

text \<open>
  The recursive mutexes with priority inheritance of \<^verbatim>\<open>os_mtx.c\<close>. The mutexes a task owns
  form its \<open>mtx_list\<close>; a task that blocks on a mutex raises the priority of the owner, and of
  the owner of the mutex that owner waits for, and so on; unlocking recomputes the priority
  from the mutexes still owned.
\<close>

section \<open>Model\<close>

definition os_mtx_set_owner :: "mtxid \<Rightarrow> tid \<Rightarrow> kstate \<Rightarrow> kstate" where
  "os_mtx_set_owner m t s =
     (let s = upd_mtx m (\<lambda>k. k\<lparr>owner := Some t\<rparr>) s;
          s = s\<lparr>mxh := list_append (MtxList t) (MtxLink m) (mxh s)\<rparr>
      in upd_mtx m (\<lambda>k. k\<lparr>recur := 1\<rparr>) s)"

definition os_mtx_clear_owner :: "mtxid \<Rightarrow> kstate \<Rightarrow> kstate" where
  "os_mtx_clear_owner m s =
     (let s = upd_mtx m (\<lambda>k. k\<lparr>owner := None\<rparr>) s
      in s\<lparr>mxh := list_unlink (MtxLink m) (mxh s)\<rparr>)"

text \<open>The loop down the blocking chain. \<open>os_container_of(task->task_queue, os_mtx_t, task_queue)\<close>
  is the mutex whose queue the task is in.\<close>

partial_function (option) prio_boost_loop :: "u8 \<Rightarrow> tid \<Rightarrow> kstate \<Rightarrow> kstate kres" where
  "prio_boost_loop task_current_prio t s =
     kbind (let prio_new = os_max (prio_current (task s (task_current s))) task_current_prio
            in os_taskqueue_reprio t prio_new s)
       (\<lambda>s. if TASKSTATE_WAIT \<noteq> state (task s t) \<or> OS_TASKBLOCK_MTX \<noteq> block_type (task s t)
            then ok s
            else case task_queue (task s t) of
                   Some (MtxQ m) \<Rightarrow>
                     (case owner (mtx s m) of
                        None \<Rightarrow> fail Null_deref
                      | Some t' \<Rightarrow> prio_boost_loop task_current_prio t' s)
                 | _ \<Rightarrow> fail Null_deref)"

definition os_mtx_lock_prio_boost :: "mtxid \<Rightarrow> kstate \<Rightarrow> kstate kres" where
  "os_mtx_lock_prio_boost m s =
     (case owner (mtx s m) of
        None \<Rightarrow> fail Null_deref
      | Some t \<Rightarrow>
          let task_current_prio = prio_current (task s (task_current s))
          in if prio_current (task s t) < task_current_prio
             then prio_boost_loop task_current_prio t s
             else ok s)"

text \<open>The loop over the mutexes the current task owns: the new priority.\<close>

partial_function (option) prio_reset_loop :: "kstate \<Rightarrow> mtxnode \<Rightarrow> u8 \<Rightarrow> u8 kres" where
  "prio_reset_loop s itr prio_new =
     (if list_itr_end (MtxList (task_current s)) itr then ok prio_new
      else case itr of
        MtxLink m \<Rightarrow>
          kbind (os_taskqueue_peek (MtxQ m) s)
            (\<lambda>t. prio_reset_loop s (lnext (mxh s) itr)
               (case t of None \<Rightarrow> prio_new
                | Some t \<Rightarrow> os_max prio_new (prio_current (task s t))))
      | _ \<Rightarrow> fail Null_deref)"

definition os_mtx_unlock_prio_reset :: "kstate \<Rightarrow> kstate kres" where
  "os_mtx_unlock_prio_reset s =
     (let t = task_current s
      in if prio_current (task s t) \<noteq> prio_base (task s t)
         then kbind (prio_reset_loop s (list_itr_begin (MtxList t) (mxh s)) (prio_base (task s t)))
                (\<lambda>prio_new. ok (upd_task t (\<lambda>k. k\<lparr>prio_current := prio_new\<rparr>) s))
         else ok s)"

text \<open>\<open>memset(0)\<close> over a mutex.\<close>

definition memset_mtx :: "mtxid \<Rightarrow> kstate \<Rightarrow> kstate" where
  "memset_mtx m s =
     (let s = memset_taskqueue (MtxQ m) s;
          s = s\<lparr>mxh := set_prev (MtxLink m) MtxNull (set_next (MtxLink m) MtxNull (mxh s))\<rparr>
      in upd_mtx m (\<lambda>_. \<lparr>owner = None, recur = 0\<rparr>) s)"

definition os_mtx_create :: "mtxid \<Rightarrow> kstate \<Rightarrow> kstate kres" where
  "os_mtx_create m s =
     os_assert (0 = isr_nesting s) s
     (os_assert (waitqueue_current s = None) s
       (let s = memset_mtx m s
        in ok (os_taskqueue_init (MtxQ m) s)))"

partial_function (option) mtx_destroy_loop :: "mtxid \<Rightarrow> kstate \<Rightarrow> kstate kres" where
  "mtx_destroy_loop m s =
     kbind (os_taskqueue_dequeue (MtxQ m) s)
       (\<lambda>(t, s). case t of
          None \<Rightarrow> ok s
        | Some t \<Rightarrow>
            let s = upd_task t (set_block_code OS_DESTROYED) s
            in mtx_destroy_loop m (os_task_makeready t s))"

definition os_mtx_destroy :: "mtxid \<Rightarrow> kstate \<Rightarrow> (apival outcome \<times> kstate) kres" where
  "os_mtx_destroy m s =
     os_assert (0 = isr_nesting s) s
     (os_assert (waitqueue_current s = None) s
       (let (cristate, s) = os_critical_enter s
        in kbind (if owner (mtx s m) \<noteq> None
                  then os_assert (owner (mtx s m) = Some (task_current s)) s
                         (let s = os_mtx_clear_owner m s
                          in kbind (os_mtx_unlock_prio_reset s) (mtx_destroy_loop m))
                  else ok s)
             (\<lambda>s. let s = memset_mtx m s
                  in kbind (os_schedule (K_Schedule cristate) 1 s) (sched_exit cristate Void))))"

definition os_mtx_lock :: "mtxid \<Rightarrow> kstate \<Rightarrow> (apival outcome \<times> kstate) kres" where
  "os_mtx_lock m s =
     os_assert (0 = isr_nesting s) s
     (os_assert (task_current s \<noteq> task_idle) s
     (os_assert (waitqueue_current s = None) s
       (let (cristate, s) = os_critical_enter s
        in if owner (mtx s m) = None
           then let s = os_mtx_set_owner m (task_current s) s
                in ok (Return (Code OS_OK), os_critical_exit cristate s)
           else if owner (mtx s m) = Some (task_current s)
           then let s = upd_mtx m (\<lambda>k. k\<lparr>recur := recur k + 1\<rparr>) s
                in ok (Return (Code OS_OK), os_critical_exit cristate s)
           else kbind (os_mtx_lock_prio_boost m s)
                  (\<lambda>s. kbind (os_task_block_switch (K_MtxLock cristate) (MtxQ m) OS_TASKBLOCK_MTX s)
                         (\<lambda>s. ok (Switched, s))))))"

text \<open>The rest of \<open>os_task_block_switch\<close> and \<open>os_mtx_lock\<close>, run when the task is resumed.\<close>

definition os_mtx_lock_resume :: "u8 \<Rightarrow> kstate \<Rightarrow> os_retcode \<times> kstate" where
  "os_mtx_lock_resume cristate s =
     (let s = upd_task (task_current s) (\<lambda>k. k\<lparr>state := TASKSTATE_RUNNING\<rparr>) s;
          ret = block_code (task s (task_current s))
      in (ret, os_critical_exit cristate s))"

definition os_mtx_unlock :: "mtxid \<Rightarrow> kstate \<Rightarrow> (apival outcome \<times> kstate) kres" where
  "os_mtx_unlock m s =
     os_assert (0 = isr_nesting s) s
     (os_assert (owner (mtx s m) = Some (task_current s)) s
     (os_assert (waitqueue_current s = None) s
       (let (cristate, s) = os_critical_enter s;
            s = upd_mtx m (\<lambda>k. k\<lparr>recur := recur k - 1\<rparr>) s
        in if recur (mtx s m) > 0
           then ok (Return Void, os_critical_exit cristate s)
           else let s = os_mtx_clear_owner m s
                in kbind (os_mtx_unlock_prio_reset s)
                     (\<lambda>s. kbind (os_taskqueue_dequeue (MtxQ m) s)
                        (\<lambda>(t, s). case t of
                           None \<Rightarrow> ok (Return Void, os_critical_exit cristate s)
                         | Some t \<Rightarrow>
                             let s = os_mtx_set_owner m t s;
                                 s = upd_task t (set_block_code OS_OK) s;
                                 s = os_task_makeready t s
                             in kbind (os_schedule (K_Schedule cristate) 1 s)
                                  (sched_exit cristate Void))))))"

declare prio_boost_loop.simps [code] prio_reset_loop.simps [code] mtx_destroy_loop.simps [code]

section \<open>Owners and waiting tasks\<close>

text \<open>\<open>M t\<close> are the mutexes task \<open>t\<close> owns, in the order of its list; \<open>T\<close> are the tasks whose list is
  initialised.\<close>

definition mown :: "qid set \<Rightarrow> tid set \<Rightarrow> (tid \<Rightarrow> mtxid list) \<Rightarrow> kstate \<Rightarrow> bool" where
  "mown L T M s \<longleftrightarrow>
     (\<forall>t \<in> T. dlist (mxh s) (MtxList t) (map MtxLink (M t))) \<and> (\<forall>t. t \<notin> T \<longrightarrow> M t = []) \<and>
     (\<forall>m t. owner (mtx s m) = Some t \<longleftrightarrow> m \<in> set (M t)) \<and> (\<forall>m t. m \<in> set (M t) \<longrightarrow> MtxQ m \<in> L)"

text \<open>A mutex with waiting tasks has an owner, and its waiters have no timeout guard and an
  initialised list.\<close>

definition minv :: "qid set \<Rightarrow> tid set \<Rightarrow> (tid \<Rightarrow> mtxid list) \<Rightarrow> kstate \<Rightarrow> bool" where
  "minv L T M s \<longleftrightarrow> mown L T M s \<and>
     (\<forall>t m. task_queue (task s t) = Some (MtxQ m) \<longrightarrow>
        owner (mtx s m) \<noteq> None \<and> timer (task s t) = None \<and> t \<in> T)"

lemma mownD:
  assumes "mown L T M s"
  shows "t \<in> T \<Longrightarrow> dlist (mxh s) (MtxList t) (map MtxLink (M t))" and "t \<notin> T \<Longrightarrow> M t = []"
    and "owner (mtx s m) = Some t \<longleftrightarrow> m \<in> set (M t)" and "m \<in> set (M t) \<Longrightarrow> MtxQ m \<in> L"
  using assms by (auto simp: mown_def)

lemma minvD:
  assumes "minv L T M s"
  shows "mown L T M s"
    and "task_queue (task s t) = Some (MtxQ m) \<Longrightarrow> owner (mtx s m) \<noteq> None \<and> timer (task s t) = None \<and> t \<in> T"
  using assms by (auto simp: minv_def)

lemma mown_cong:
  assumes "mown L T M s" and "mxh s' = mxh s" "\<And>m. owner (mtx s' m) = owner (mtx s m)"
  shows "mown L T M s'"
  using assms unfolding mown_def by simp

lemma minv_cong:
  assumes "minv L T M s" and "mxh s' = mxh s" "\<And>m. owner (mtx s' m) = owner (mtx s m)"
    and "\<And>t m. task_queue (task s' t) = Some (MtxQ m) \<Longrightarrow>
      task_queue (task s t) = Some (MtxQ m) \<and> timer (task s' t) = timer (task s t)"
  shows "minv L T M s'"
proof -
  have "owner (mtx s' m) \<noteq> None \<and> timer (task s' t) = None \<and> t \<in> T" if "task_queue (task s' t) = Some (MtxQ m)" for t m
    using minvD(2) [OF assms(1), of t m] assms(3,4) that by simp
  then show ?thesis using mown_cong [OF minvD(1) [OF assms(1)] assms(2,3)] unfolding minv_def by simp
qed

lemma mown_unique: "mown L T M s \<Longrightarrow> m \<in> set (M t) \<Longrightarrow> m \<in> set (M u) \<Longrightarrow> u = t"
  using mownD(3) [of L T M s m t] mownD(3) [of L T M s m u] by simp

lemma mown_T: "mown L T M s \<Longrightarrow> m \<in> set (M t) \<Longrightarrow> t \<in> T"
  using mownD(2) [of L T M s t] by (cases "t \<in> T") auto

lemma mown_distinct: "mown L T M s \<Longrightarrow> distinct (M t)"
  using dlist_distinct [OF mownD(1), of L T M s t] mownD(2) [of L T M s t]
  by (cases "t \<in> T") (auto simp: distinct_map)

text \<open>Taking and releasing a mutex.\<close>

lemma other_mtx_nodes:
  assumes "mown L T M s" and "u \<noteq> t" and "n \<in> set (MtxList u # map MtxLink (M u))"
  shows "n \<notin> set (MtxList t # map MtxLink (M t))"
  using assms mown_unique [OF assms(1)] by auto

lemma set_owner_result:
  assumes inv: "mown L T M s" and t: "t \<in> T" and m: "owner (mtx s m) = None" "MtxQ m \<in> L"
    and s': "s' = os_mtx_set_owner m t s"
  shows "mown L T (M(t := M t @ [m])) s'"
    and "s' = s\<lparr>mxh := list_append (MtxList t) (MtxLink m) (mxh s), mtx := (mtx s)(m := \<lparr>owner = Some t, recur = 1\<rparr>)\<rparr>"
proof -
  have free: "m \<notin> set (M u)" for u using mownD(3) [OF inv, of m u] m by simp
  have d: "dlist (mxh s') (MtxList u) (map MtxLink ((M(t := M t @ [m])) u))" if "u \<in> T" for u
  proof (cases "u = t")
    case True
    then show ?thesis
      using dlist_append [OF mownD(1) [OF inv t], of "MtxLink m"] free
      by (auto simp: s' os_mtx_set_owner_def upd_mtx_def)
  next
    case False
    have "same_links (mxh s) (list_append (MtxList t) (MtxLink m) (mxh s)) n"
      if "n \<in> set (MtxList u # map MtxLink (M u))" for n
      using append_frame [OF mownD(1) [OF inv t], of n "MtxLink m"] other_mtx_nodes [OF inv False that] that free by auto
    then have "dlist (list_append (MtxList t) (MtxLink m) (mxh s)) (MtxList u) (map MtxLink (M u))"
      using mownD(1) [OF inv \<open>u \<in> T\<close>] dlist_cong [of "MtxList u" "map MtxLink (M u)" "mxh s"] by blast
    then show ?thesis using False by (simp add: s' os_mtx_set_owner_def upd_mtx_def)
  qed
  show "mown L T (M(t := M t @ [m])) s'"
    using d inv t m free unfolding mown_def by (auto simp: s' os_mtx_set_owner_def upd_mtx_def)
  show "s' = s\<lparr>mxh := list_append (MtxList t) (MtxLink m) (mxh s), mtx := (mtx s)(m := \<lparr>owner = Some t, recur = 1\<rparr>)\<rparr>"
    by (cases "mtx s m") (simp add: s' os_mtx_set_owner_def upd_mtx_def)
qed

lemma clear_owner_result:
  assumes inv: "mown L T M s" and m: "owner (mtx s m) = Some t" and s': "s' = os_mtx_clear_owner m s"
  shows "mown L T (M(t := remove1 m (M t))) s'"
    and "s' = s\<lparr>mxh := list_unlink (MtxLink m) (mxh s), mtx := (mtx s)(m := (mtx s m)\<lparr>owner := None\<rparr>)\<rparr>"
proof -
  have mt: "m \<in> set (M t)" using mownD(3) [OF inv] m by simp
  have t: "t \<in> T" by (rule mown_T [OF inv mt])
  have d: "dlist (mxh s') (MtxList u) (map MtxLink ((M(t := remove1 m (M t))) u))" if u: "u \<in> T" for u
  proof (cases "u = t")
    case True
    then show ?thesis
      using dlist_unlink [OF mownD(1) [OF inv t], of "MtxLink m"] mt
      by (simp add: s' os_mtx_clear_owner_def upd_mtx_def map_remove1_inj inj_def)
  next
    case False
    have "same_links (mxh s) (list_unlink (MtxLink m) (mxh s)) n"
      if "n \<in> set (MtxList u # map MtxLink (M u))" for n
      using unlink_frame [OF mownD(1) [OF inv t], of "MtxLink m" n] other_mtx_nodes [OF inv False that] mt by auto
    then have "dlist (list_unlink (MtxLink m) (mxh s)) (MtxList u) (map MtxLink (M u))"
      using mownD(1) [OF inv u] dlist_cong [of "MtxList u" "map MtxLink (M u)" "mxh s"] by blast
    then show ?thesis using False by (simp add: s' os_mtx_clear_owner_def upd_mtx_def)
  qed
  have "owner (mtx s' k) = Some u \<longleftrightarrow> k \<in> set ((M(t := remove1 m (M t))) u)" for k u
  proof -
    have "owner (mtx s' k) = (if k = m then None else owner (mtx s k))"
      by (simp add: s' os_mtx_clear_owner_def upd_mtx_def)
    moreover have "k \<in> set ((M(t := remove1 m (M t))) u) \<longleftrightarrow> k \<noteq> m \<and> k \<in> set (M u)"
      using mown_unique [OF inv mt, of u] mown_distinct [OF inv, of t] by (cases "u = t") auto
    ultimately show ?thesis using mownD(3) [OF inv, of k u] by simp
  qed
  moreover have "MtxQ k \<in> L" if "k \<in> set ((M(t := remove1 m (M t))) u)" for k u
    using mownD(4) [OF inv, of k u] that set_remove1_subset [of m "M t"] by (auto split: if_splits)
  ultimately show "mown L T (M(t := remove1 m (M t))) s'"
    using d mownD(2) [OF inv] unfolding mown_def by auto
  show "s' = s\<lparr>mxh := list_unlink (MtxLink m) (mxh s), mtx := (mtx s)(m := (mtx s m)\<lparr>owner := None\<rparr>)\<rparr>"
    by (simp add: s' os_mtx_clear_owner_def upd_mtx_def)
qed

section \<open>Priority reset\<close>

text \<open>The priority a task inherits: the highest of its base priority and the current priorities of
  all tasks that wait for one of the mutexes \<open>ms\<close>.\<close>

definition inherited :: "kstate \<Rightarrow> mtxid list \<Rightarrow> u8 \<Rightarrow> u8" where
  "inherited s ms base =
     Max (insert base ((\<lambda>u. prio_current (task s u)) ` {u. \<exists>m \<in> set ms. task_queue (task s u) = Some (MtxQ m)}))"

lemma peek_flat:
  assumes "kinv L Q ts s" and "q \<in> L"
  shows "os_taskqueue_peek q s = ok (case flat (Q q) of [] \<Rightarrow> None | t # _ \<Rightarrow> Some t)"
proof (cases "top_bucket (Q q)")
  case None
  then show ?thesis
    using peek_result [OF sched_invD(1) [OF kinvD(1) [OF assms(1)]] assms(2)] flat_None [of "Q q"] by simp
next
  case (Some p)
  then show ?thesis
    using peek_result [OF sched_invD(1) [OF kinvD(1) [OF assms(1)]] assms(2)] flat_top [OF Some] by simp
qed

lemma waiters_finite:
  assumes "kinv L Q ts s"
  shows "finite {u. \<exists>m \<in> set ms. task_queue (task s u) = Some (MtxQ m)}"
proof -
  have "{u. \<exists>m \<in> set ms. task_queue (task s u) = Some (MtxQ m)} = (\<Union>m \<in> set ms. set (flat (Q (MtxQ m))))"
    using kinv_members [OF assms] by auto
  then show ?thesis by simp
qed

lemma inherited_Cons:
  assumes inv: "kinv L Q ts s"
  shows "inherited s (m # ms) base =
    inherited s ms (case flat (Q (MtxQ m)) of [] \<Rightarrow> base | t # _ \<Rightarrow> max base (prio_current (task s t)))"
proof -
  let ?pr = "\<lambda>u. prio_current (task s u)" and ?W = "\<lambda>ms. {u. \<exists>m \<in> set ms. task_queue (task s u) = Some (MtxQ m)}"
  have W: "?W (m # ms) = set (flat (Q (MtxQ m))) \<union> ?W ms" using kinv_members [OF inv] by auto
  have fin: "finite (?pr ` ?W ms)" using waiters_finite [OF inv] by blast
  show ?thesis
  proof (cases "flat (Q (MtxQ m))")
    case Nil
    then show ?thesis using W by (simp add: inherited_def)
  next
    case (Cons t us)
    have top: "?pr u \<le> ?pr t" if "u \<in> set (t # us)" for u
      using flat_sorted [OF sched_invD(1) [OF kinvD(1) [OF inv]], of "MtxQ m"] that
      by (auto simp: Cons prio_sorted_def)
    have "Max (insert base (?pr ` (set (t # us) \<union> ?W ms))) = Max (insert (max base (?pr t)) (?pr ` ?W ms))"
    proof (rule Max_eq_if)
      show "\<forall>a \<in> insert base (?pr ` (set (t # us) \<union> ?W ms)). \<exists>b \<in> insert (max base (?pr t)) (?pr ` ?W ms). a \<le> b"
        using top by (auto simp: le_max_iff_disj)
      show "\<forall>b \<in> insert (max base (?pr t)) (?pr ` ?W ms). \<exists>a \<in> insert base (?pr ` (set (t # us) \<union> ?W ms)). b \<le> a"
        by (auto simp: max_def)
    qed (use fin in \<open>simp_all add: image_Un\<close>)
    then show ?thesis unfolding inherited_def W unfolding Cons by simp
  qed
qed

lemma prio_reset_loop_result:
  assumes inv: "kinv L Q ts s" and d: "dlist (mxh s) (MtxList (task_current s)) (map MtxLink (xs @ ys))"
    and q: "\<forall>m \<in> set ys. MtxQ m \<in> L"
  shows "prio_reset_loop s (hd (map MtxLink ys @ [MtxList (task_current s)])) base = ok (inherited s ys base)"
  using d q
proof (induction ys arbitrary: xs base)
  case Nil
  then show ?case by (subst prio_reset_loop.simps) (simp add: list_itr_end_def inherited_def)
next
  case (Cons m ys)
  have "lnext (mxh s) (MtxLink m) = hd (map MtxLink ys @ [MtxList (task_current s)])"
    using dlist_neighbours(2) [of "mxh s" _ "map MtxLink xs" "MtxLink m"] Cons.prems(1) by simp
  then show ?case
    using Cons.IH [of "xs @ [m]"] Cons.prems peek_flat [OF inv, of "MtxQ m"] inherited_Cons [OF inv, of m ys base]
    by (subst prio_reset_loop.simps) (auto simp: list_itr_end_def split: list.splits)
qed

lemma prio_reset_result:
  assumes inv: "kinv L Q ts s" and d: "dlist (mxh s) (MtxList (task_current s)) (map MtxLink ms)"
    and q: "\<forall>m \<in> set ms. MtxQ m \<in> L"
  shows "\<exists>p. os_mtx_unlock_prio_reset s = ok (upd_task (task_current s) (\<lambda>k. k\<lparr>prio_current := p\<rparr>) s) \<and>
    p = (if prio_current (task s (task_current s)) = prio_base (task s (task_current s))
      then prio_base (task s (task_current s)) else inherited s ms (prio_base (task s (task_current s))))"
proof (cases "prio_current (task s (task_current s)) = prio_base (task s (task_current s))")
  case True
  let ?c = "task_current s"
  have "upd_task ?c (\<lambda>k. k\<lparr>prio_current := prio_base (task s ?c)\<rparr>) s = s"
    using True [symmetric] by (cases s) (simp add: upd_task_def)
  then show ?thesis using True by (simp add: os_mtx_unlock_prio_reset_def)
next
  case False
  have "list_itr_begin (MtxList (task_current s)) (mxh s) = hd (map MtxLink ms @ [MtxList (task_current s)])"
    using dlist_next [OF d] by (simp add: list_itr_begin_def)
  then show ?thesis
    using False prio_reset_loop_result [OF inv, of "[]" ms] d q by (simp add: os_mtx_unlock_prio_reset_def Let_def)
qed

lemma inherited_bound:
  assumes inv: "kinv L Q ts s" and "unat base < OS_CONFIG_PRIOCNT"
  shows "unat (inherited s ms base) < OS_CONFIG_PRIOCNT"
proof -
  have "inherited s ms base \<in> insert base ((\<lambda>u. prio_current (task s u)) ` {u. \<exists>m \<in> set ms. task_queue (task s u) = Some (MtxQ m)})"
    unfolding inherited_def by (rule Max_in) (use waiters_finite [OF inv] in auto)
  then show ?thesis using assms(2) sched_inv_prio [OF kinvD(1) [OF inv]] by auto
qed

lemma kinv_current_prio:
  assumes inv: "kinv L Q ts s" and p: "unat p < OS_CONFIG_PRIOCNT"
  shows "kinv L Q ts (upd_task (task_current s) (\<lambda>k. k\<lparr>prio_current := p\<rparr>) s)"
proof -
  let ?c = "task_current s" and ?s = "upd_task (task_current s) (\<lambda>k. k\<lparr>prio_current := p\<rparr>) s"
  have free: "task_queue (task s ?c) = None" "state (task s ?c) \<noteq> TASKSTATE_WAIT"
    using sched_invD(4,5) [OF kinvD(1) [OF inv]] by auto
  have "task_ok ((task s ?c)\<lparr>prio_current := p\<rparr>)"
    using sched_invD(3) [OF kinvD(1) [OF inv], of ?c] p by (simp add: task_ok_def)
  then have "sched_inv L Q ?s" "floating ?s = {}"
    using sched_inv_upd_free [OF kinvD(1) [OF inv] free(1), of "\<lambda>k. k\<lparr>prio_current := p\<rparr>"] free kinvD(3) [OF inv] by auto
  moreover have "block_inv {} ts ?s"
    by (rule block_inv_cong [OF kinvD(2) [OF inv]])
      (use block_invD(4) [OF kinvD(2) [OF inv]] in \<open>auto simp: task_upd_task\<close>)
  ultimately show ?thesis by (simp add: kinv_def)
qed

section \<open>Unlock\<close>

text \<open>The priority the current task gets when it still owns the mutexes \<open>ms\<close>.\<close>

definition reset_prio :: "kstate \<Rightarrow> mtxid list \<Rightarrow> u8" where
  "reset_prio s ms =
     (if prio_current (task s (task_current s)) = prio_base (task s (task_current s))
      then prio_base (task s (task_current s)) else inherited s ms (prio_base (task s (task_current s))))"

lemma release_result:
  assumes inv: "kinv L Q ts s" and mi: "mown L T M s" and m: "owner (mtx s m) = Some (task_current s)"
    and p: "p = reset_prio s (remove1 m (M (task_current s)))"
  shows "\<exists>s'. os_mtx_unlock_prio_reset (os_mtx_clear_owner m s) = ok s' \<and> kinv L Q ts s' \<and>
    mown L T (M(task_current s := remove1 m (M (task_current s)))) s' \<and>
    s' = s\<lparr>task := (task s)(task_current s := (task s (task_current s))\<lparr>prio_current := p\<rparr>),
      mxh := mxh s', mtx := (mtx s)(m := (mtx s m)\<lparr>owner := None\<rparr>)\<rparr>"
proof -
  let ?c = "task_current s" and ?s1 = "os_mtx_clear_owner m s"
  let ?M = "M(task_current s := remove1 m (M (task_current s)))"
  note cl = clear_owner_result [OF mi m refl]
  have f1: "task ?s1 = task s" "task_current ?s1 = ?c" using cl(2) by (metis kstate.select_convs(1,13) kstate.surjective kstate.update_convs(11,14))+
  have inv1: "kinv L Q ts ?s1" by (subst cl(2)) (rule kinv_same [OF inv], simp_all)
  have cT: "?c \<in> T" using mown_T [OF mi] mownD(3) [OF mi] m by blast
  obtain p' where p': "os_mtx_unlock_prio_reset ?s1 = ok (upd_task (task_current ?s1) (\<lambda>k. k\<lparr>prio_current := p'\<rparr>) ?s1)"
    "p' = (if prio_current (task ?s1 ?c) = prio_base (task ?s1 ?c) then prio_base (task ?s1 ?c)
       else inherited ?s1 (?M ?c) (prio_base (task ?s1 ?c)))"
    using prio_reset_result [OF inv1, of "?M ?c"] mownD(1) [OF cl(1) cT] mownD(4) [OF cl(1), of _ ?c] unfolding f1(2) by blast
  have pp: "p' = p" using p'(2) by (simp add: p reset_prio_def inherited_def f1)
  have "unat p < OS_CONFIG_PRIOCNT"
    using inherited_bound [OF inv, of "prio_base (task s ?c)"] sched_invD(3) [OF kinvD(1) [OF inv], of ?c]
    by (auto simp: p reset_prio_def task_ok_def)
  from kinv_current_prio [OF inv1 this]
  have inv2: "kinv L Q ts (upd_task ?c (\<lambda>k. k\<lparr>prio_current := p\<rparr>) ?s1)" unfolding f1(2) .
  have "mown L T ?M (upd_task ?c (\<lambda>k. k\<lparr>prio_current := p\<rparr>) ?s1)" by (rule mown_cong [OF cl(1)]) simp_all
  moreover have "upd_task ?c (\<lambda>k. k\<lparr>prio_current := p\<rparr>) ?s1 =
    s\<lparr>task := (task s)(?c := (task s ?c)\<lparr>prio_current := p\<rparr>), mxh := mxh (upd_task ?c (\<lambda>k. k\<lparr>prio_current := p\<rparr>) ?s1),
      mtx := (mtx s)(m := (mtx s m)\<lparr>owner := None\<rparr>)\<rparr>"
    by (simp add: os_mtx_clear_owner_def upd_mtx_def upd_task_def)
  ultimately show ?thesis using p'(1) pp f1(2) inv2 by metis
qed

lemma makeready_other_fields:
  "os_task_makeready t (upd_task t f (s\<lparr>mxh := a, mtx := b\<rparr>)) =
     (os_task_makeready t (upd_task t f s))\<lparr>mxh := a, mtx := b\<rparr>"
  by (simp add: os_task_makeready_def os_taskqueue_enqueue_def upd_task_def Let_def)

text \<open>The first waiting task gets the mutex and becomes ready.\<close>

lemma handover_result:
  assumes inv: "kinv L Q ts s" and mi: "mown L T M s" and m: "MtxQ m \<in> L" "owner (mtx s m) = None"
    and fl: "flat (Q (MtxQ m)) = t # us" and t: "t \<in> T" "timer (task s t) = None"
  shows "\<exists>s1 s2 Q' ts'. os_taskqueue_dequeue (MtxQ m) s = ok (Some t, s1) \<and>
    os_task_makeready t (upd_task t (set_block_code OS_OK) (os_mtx_set_owner m t s1)) = s2 \<and>
    kinv L Q' ts' s2 \<and> mown L T (M(t := M t @ [m])) s2 \<and> mtx s2 = (mtx s)(m := \<lparr>owner = Some t, recur = 1\<rparr>) \<and>
    (\<exists>a. all_woken OS_OK (MtxQ m) [t] (Q, ts, s\<lparr>mxh := a, mtx := mtx s2\<rparr>) (Q', ts', s2)) \<and> t \<noteq> task_current s"
proof -
  obtain s1 s2 Q' ts' where s1: "os_taskqueue_dequeue (MtxQ m) s = ok (Some t, s1)" "wake OS_OK t s1 = ok s2"
    "kinv L Q' ts' s2" "all_woken OS_OK (MtxQ m) [t] (Q, ts, s) (Q', ts', s2)" "t \<noteq> task_current s"
    "timer (task s1 t) = None"
    using wake_first [OF inv m(1) _ fl, of OS_OK] t(2) by auto
  have s2: "s2 = os_task_makeready t (upd_task t (set_block_code OS_OK) s1)"
    using s1(2) wake_unguarded [OF s1(6)] by simp
  have cf: "mxh s1 = mxh s" "mtx s1 = mtx s"
    using s1(4) makeready_fields(2) [of "upd_task t (set_block_code OS_OK) s1" t]
    by (auto simp: all_woken_def core_frame_def s2 tq_frame_iff)
  have mi1: "mown L T M s1" by (rule mown_cong [OF mi]) (simp_all add: cf)
  let ?a = "list_append (MtxList t) (MtxLink m) (mxh s)" and ?b = "(mtx s)(m := \<lparr>owner = Some t, recur = 1\<rparr>)"
  note so = set_owner_result [OF mi1 t(1) _ m(1) refl, unfolded cf, OF m(2)]
  have eq: "os_task_makeready t (upd_task t (set_block_code OS_OK) (os_mtx_set_owner m t s1)) = s2\<lparr>mxh := ?a, mtx := ?b\<rparr>"
    unfolding so(2) makeready_other_fields s2 ..
  have "kinv L Q' ts' (s2\<lparr>mxh := ?a, mtx := ?b\<rparr>)" by (rule kinv_same [OF s1(3)]) simp_all
  moreover have "mown L T (M(t := M t @ [m])) (s2\<lparr>mxh := ?a, mtx := ?b\<rparr>)"
    by (rule mown_cong [OF so(1)]) (simp_all add: so(2))
  moreover have "all_woken OS_OK (MtxQ m) [t] (Q, ts, s\<lparr>mxh := ?a, mtx := ?b\<rparr>) (Q', ts', s2\<lparr>mxh := ?a, mtx := ?b\<rparr>)"
    using s1(4) unfolding all_woken_def core_frame_def prod.case by (simp cong: if_cong)
  ultimately show ?thesis using s1(1,5) eq
    by (intro exI [of _ s1] exI [of _ "s2\<lparr>mxh := ?a, mtx := ?b\<rparr>"] exI [of _ Q'] exI [of _ ts']) auto
qed

lemma unlock_rec:
  assumes "isr_nesting s = 0" "waitqueue_current s = None" "owner (mtx s m) = Some (task_current s)" "recur (mtx s m) - 1 > 0"
  shows "os_mtx_unlock m s = ok (Return Void, upd_mtx m (\<lambda>k. k\<lparr>recur := recur k - 1\<rparr>) s)"
  using assms by (cases s) (simp add: os_mtx_unlock_def upd_mtx_def)

lemma unlock_run:
  assumes g: "isr_nesting s = 0" "waitqueue_current s = None" "owner (mtx s m) = Some (task_current s)"
    and r: "\<not> recur (mtx s m) - 1 > 0"
  shows "os_mtx_unlock m s = kbind (os_mtx_unlock_prio_reset (os_mtx_clear_owner m
      (upd_mtx m (\<lambda>k. k\<lparr>recur := 0\<rparr>) (s\<lparr>sreg := arch_dint (sreg s)\<rparr>))))
    (\<lambda>s'. kbind (os_taskqueue_dequeue (MtxQ m) s') (\<lambda>(t, s'). case t of
       None \<Rightarrow> ok (Return Void, s'\<lparr>sreg := sreg s\<rparr>)
     | Some t \<Rightarrow> kbind (os_schedule (K_Schedule (sreg s)) 1
         (os_task_makeready t (upd_task t (set_block_code OS_OK) (os_mtx_set_owner m t s'))))
         (sched_exit (sreg s) Void)))"
proof -
  have "recur (mtx s m) - 1 = 0" using r by (simp add: word_gt_0)
  then show ?thesis using g by (simp add: os_mtx_unlock_def upd_mtx_def Let_def cong: option.case_cong)
qed

text \<open>The state after the release, before the next owner is chosen.\<close>

lemma unlock_release:
  assumes inv: "kinv L Q ts s" and mi: "minv L T M s"
    and g: "isr_nesting s = 0" "waitqueue_current s = None" "owner (mtx s m) = Some (task_current s)"
    and p: "p = reset_prio s (remove1 m (M (task_current s)))"
  shows "\<exists>s1. os_mtx_unlock_prio_reset (os_mtx_clear_owner m
      (upd_mtx m (\<lambda>k. k\<lparr>recur := 0\<rparr>) (s\<lparr>sreg := arch_dint (sreg s)\<rparr>))) = ok s1 \<and> kinv L Q ts s1 \<and>
    mown L T (M(task_current s := remove1 m (M (task_current s)))) s1 \<and> MtxQ m \<in> L \<and>
    task s1 = (task s)(task_current s := (task s (task_current s))\<lparr>prio_current := p\<rparr>) \<and>
    owner (mtx s1 m) = None \<and> task_current s1 = task_current s \<and> sreg s1 = arch_dint (sreg s) \<and>
    isr_nesting s1 = 0 \<and> sched_lock s1 = sched_lock s \<and> waitqueue_current s1 = None \<and> sem s1 = sem s \<and>
    (\<forall>k. k \<noteq> m \<longrightarrow> mtx s1 k = mtx s k)"
proof -
  let ?c = "task_current s" and ?s0 = "upd_mtx m (\<lambda>k. k\<lparr>recur := 0\<rparr>) (s\<lparr>sreg := arch_dint (sreg s)\<rparr>)"
  have inv0: "kinv L Q ts ?s0" by (rule kinv_same [OF inv]) (simp_all add: upd_mtx_def)
  have mi0: "mown L T M ?s0" by (rule mown_cong [OF minvD(1) [OF mi]]) (simp_all add: upd_mtx_def)
  have p0: "p = reset_prio ?s0 (remove1 m (M (task_current ?s0)))"
    by (simp add: p reset_prio_def inherited_def upd_mtx_def)
  have o0: "owner (mtx ?s0 m) = Some (task_current ?s0)" using g(3) by (simp add: upd_mtx_def)
  obtain s1 where s1: "os_mtx_unlock_prio_reset (os_mtx_clear_owner m ?s0) = ok s1" "kinv L Q ts s1"
    "mown L T (M(?c := remove1 m (M ?c))) s1" "s1 = ?s0\<lparr>task := (task s)(?c := (task s ?c)\<lparr>prio_current := p\<rparr>), mxh := mxh s1,
      mtx := (mtx ?s0)(m := (mtx ?s0 m)\<lparr>owner := None\<rparr>)\<rparr>"
    using release_result [OF inv0 mi0 o0 p0] by (auto simp: upd_mtx_def)
  have mL: "MtxQ m \<in> L" using mownD(3,4) [OF minvD(1) [OF mi]] g(3) by blast
  have f1: "task s1 = (task s)(?c := (task s ?c)\<lparr>prio_current := p\<rparr>)" "owner (mtx s1 m) = None"
    "task_current s1 = ?c" "sreg s1 = arch_dint (sreg s)" "isr_nesting s1 = 0" "sched_lock s1 = sched_lock s"
    "waitqueue_current s1 = None" "sem s1 = sem s" "\<forall>k. k \<noteq> m \<longrightarrow> mtx s1 k = mtx s k"
    by (subst s1(4), simp add: upd_mtx_def g)+
  show ?thesis using s1(1-3) mL f1 by blast
qed

text \<open>Waiting tasks after the mutex \<open>m\<close> changed hands.\<close>

lemma minv_transfer:
  assumes mi: "minv L T M s" and mo: "mown L T M' s'"
    and "\<And>k. k \<noteq> m \<Longrightarrow> owner (mtx s' k) = owner (mtx s k)"
    and "\<And>u k. task_queue (task s' u) = Some (MtxQ k) \<Longrightarrow>
      task_queue (task s u) = Some (MtxQ k) \<and> timer (task s' u) = timer (task s u) \<and> (k = m \<longrightarrow> owner (mtx s' m) \<noteq> None)"
  shows "minv L T M' s'"
  unfolding minv_def
proof (intro conjI allI impI mo)
  fix u k assume a: "task_queue (task s' u) = Some (MtxQ k)"
  show "owner (mtx s' k) \<noteq> None" "timer (task s' u) = None" "u \<in> T"
    using assms(4) [OF a] minvD(2) [OF mi, of u k] assms(3) [of k] by (cases "k = m"; auto)+
qed

text \<open>A context switch does not touch the mutexes.\<close>

lemma minv_switch:
  assumes mi: "minv L T M s" and inv: "kinv L Q ts s" "kinv L Q' ts' s'"
    and "\<forall>q. q \<noteq> ReadyQ \<longrightarrow> Q' q = Q q" and "sched_frame s s'" and "same_tasks s s'"
  shows "minv L T M s'"
proof (rule minv_cong [OF mi])
  fix t m assume "task_queue (task s' t) = Some (MtxQ m)"
  then have "t \<in> set (flat (Q (MtxQ m)))" using kinv_members [OF inv(2), of t "MtxQ m"] assms(4) by simp
  then show "task_queue (task s t) = Some (MtxQ m) \<and> timer (task s' t) = timer (task s t)"
    using kinv_members [OF inv(1), of t "MtxQ m"] assms(6) by (simp add: same_tasks_def same_tcb_def)
qed (use assms(5) in \<open>simp_all add: sched_frame_iff\<close>)

lemma unlock_free:
  assumes inv: "kinv L Q ts s" and mi: "minv L T M s"
    and g: "isr_nesting s = 0" "waitqueue_current s = None" "owner (mtx s m) = Some (task_current s)"
    and r: "\<not> recur (mtx s m) - 1 > 0" and p: "p = reset_prio s (remove1 m (M (task_current s)))"
    and fl: "flat (Q (MtxQ m)) = []"
  shows "\<exists>s'. os_mtx_unlock m s = ok (Return Void, s') \<and> kinv L Q ts s' \<and>
    minv L T (M(task_current s := remove1 m (M (task_current s)))) s' \<and> owner (mtx s' m) = None \<and>
    task_current s' = task_current s \<and> sreg s' = sreg s \<and>
    task s' = (task s)(task_current s := (task s (task_current s))\<lparr>prio_current := p\<rparr>) \<and>
    isr_nesting s' = 0 \<and> sched_lock s' = sched_lock s \<and> waitqueue_current s' = None \<and> sem s' = sem s"
proof -
  let ?c = "task_current s" and ?M = "M(task_current s := remove1 m (M (task_current s)))"
  obtain s1 where s1: "os_mtx_unlock_prio_reset (os_mtx_clear_owner m
      (upd_mtx m (\<lambda>k. k\<lparr>recur := 0\<rparr>) (s\<lparr>sreg := arch_dint (sreg s)\<rparr>))) = ok s1" "kinv L Q ts s1"
    "mown L T ?M s1" "MtxQ m \<in> L" "task s1 = (task s)(?c := (task s ?c)\<lparr>prio_current := p\<rparr>)"
    "owner (mtx s1 m) = None" "task_current s1 = ?c" "\<forall>k. k \<noteq> m \<longrightarrow> mtx s1 k = mtx s k"
    "isr_nesting s1 = 0" "sched_lock s1 = sched_lock s" "waitqueue_current s1 = None" "sem s1 = sem s"
    using unlock_release [OF inv mi g p] by blast
  let ?s' = "s1\<lparr>sreg := sreg s\<rparr>"
  have "os_taskqueue_dequeue (MtxQ m) s1 = ok (None, s1)"
    by (rule dequeue_inv_empty [OF kinvD(1) [OF s1(2)] s1(4) fl])
  then have run: "os_mtx_unlock m s = ok (Return Void, ?s')" unfolding unlock_run [OF g r] using s1(1) by simp
  have "mown L T ?M ?s'" by (rule mown_cong [OF s1(3)]) simp_all
  then have "minv L T ?M ?s'"
  proof (rule minv_transfer [OF mi, where m = m])
    fix u k assume "task_queue (task ?s' u) = Some (MtxQ k)"
    then have tq: "task_queue (task s u) = Some (MtxQ k)" by (auto simp: s1(5) split: if_splits)
    moreover have "k \<noteq> m" using kinv_members [OF inv, of u "MtxQ m"] fl tq by auto
    ultimately show "task_queue (task s u) = Some (MtxQ k) \<and> timer (task ?s' u) = timer (task s u) \<and>
        (k = m \<longrightarrow> owner (mtx ?s' m) \<noteq> None)" by (auto simp: s1(5))
  qed (use s1(8) in simp)
  then show ?thesis using run kinv_dint [OF s1(2), of "sreg s"] s1(5-7,9-12) by (intro exI [of _ ?s']) simp
qed

text \<open>With a waiting task: the state in which the mutex has been handed over, before the scheduling.\<close>

lemma unlock_handover_run:
  assumes inv: "kinv L Q ts s" and mi: "minv L T M s"
    and g: "isr_nesting s = 0" "waitqueue_current s = None" "owner (mtx s m) = Some (task_current s)"
    and r: "\<not> recur (mtx s m) - 1 > 0" and p: "p = reset_prio s (remove1 m (M (task_current s)))"
    and fl: "flat (Q (MtxQ m)) = t # us"
  shows "\<exists>s3 Q3 ts3. os_mtx_unlock m s = kbind (os_schedule (K_Schedule (sreg s)) 1 s3) (sched_exit (sreg s) Void) \<and>
    kinv L Q3 ts3 s3 \<and> minv L T (M(task_current s := remove1 m (M (task_current s)), t := M t @ [m])) s3 \<and>
    t \<noteq> task_current s \<and> task_queue (task s t) = Some (MtxQ m) \<and> mtx s3 m = \<lparr>owner = Some t, recur = 1\<rparr> \<and>
    (\<forall>k. k \<noteq> m \<longrightarrow> mtx s3 k = mtx s k) \<and>
    task s3 = (task s)(task_current s := (task s (task_current s))\<lparr>prio_current := p\<rparr>,
      t := (task s t)\<lparr>timer := None, ret_block := retcode_value OS_OK, state := TASKSTATE_READY, task_queue := Some ReadyQ\<rparr>) \<and>
    ready Q3 = prio_insert (\<lambda>t. prio_current (task s t)) t (ready Q) \<and> flat (Q3 (MtxQ m)) = us \<and>
    (\<forall>q. q \<notin> {MtxQ m, ReadyQ} \<longrightarrow> Q3 q = Q q) \<and> task_current s3 = task_current s \<and> sreg s3 = arch_dint (sreg s) \<and>
    isr_nesting s3 = 0 \<and> sched_lock s3 = sched_lock s \<and> waitqueue_current s3 = None \<and> sem s3 = sem s"
proof -
  let ?c = "task_current s" and ?M = "M(task_current s := remove1 m (M (task_current s)))"
  let ?rd = "prio_insert (\<lambda>t. prio_current (task s t)) t (ready Q)"
  obtain s1 where s1: "os_mtx_unlock_prio_reset (os_mtx_clear_owner m
      (upd_mtx m (\<lambda>k. k\<lparr>recur := 0\<rparr>) (s\<lparr>sreg := arch_dint (sreg s)\<rparr>))) = ok s1" "kinv L Q ts s1"
    "mown L T ?M s1" "MtxQ m \<in> L" "task s1 = (task s)(?c := (task s ?c)\<lparr>prio_current := p\<rparr>)"
    "owner (mtx s1 m) = None" "task_current s1 = ?c" "sreg s1 = arch_dint (sreg s)" "isr_nesting s1 = 0"
    "sched_lock s1 = sched_lock s" "waitqueue_current s1 = None" "sem s1 = sem s" "\<forall>k. k \<noteq> m \<longrightarrow> mtx s1 k = mtx s k"
    using unlock_release [OF inv mi g p] by blast
  have tq: "task_queue (task s t) = Some (MtxQ m)" using kinv_members [OF inv, of t "MtxQ m"] fl by simp
  have tc: "t \<noteq> ?c" using tq sched_invD(4) [OF kinvD(1) [OF inv]] by auto
  have t: "t \<in> T" "timer (task s1 t) = None" using minvD(2) [OF mi tq] s1(5) by auto
  obtain s2 s3 Q3 ts3 a where s3: "os_taskqueue_dequeue (MtxQ m) s1 = ok (Some t, s2)"
    "os_task_makeready t (upd_task t (set_block_code OS_OK) (os_mtx_set_owner m t s2)) = s3" "kinv L Q3 ts3 s3"
    "mown L T (?M(t := ?M t @ [m])) s3" "mtx s3 = (mtx s1)(m := \<lparr>owner = Some t, recur = 1\<rparr>)"
    "all_woken OS_OK (MtxQ m) [t] (Q, ts, s1\<lparr>mxh := a, mtx := mtx s3\<rparr>) (Q3, ts3, s3)"
    using handover_result [OF s1(2,3,4,6) fl t] by blast
  have "?c \<notin> insert t (set (ready Q))"
    using tc kinv_members [OF inv, of ?c ReadyQ] sched_invD(4) [OF kinvD(1) [OF inv]] by auto
  then have "prio_insert (\<lambda>u. prio_current (task s1 u)) t (ready Q) = ?rd"
    by (intro prio_insert_cong) (auto simp: s1(5))
  then have f3: "ready Q3 = ?rd" "task_current s3 = ?c" "sreg s3 = arch_dint (sreg s)" "isr_nesting s3 = 0"
    "sched_lock s3 = sched_lock s" "waitqueue_current s3 = None" "sem s3 = sem s" "flat (Q3 (MtxQ m)) = us"
    "\<forall>q. q \<notin> {MtxQ m, ReadyQ} \<longrightarrow> Q3 q = Q q"
    using s3(6) s1(7-12) fl by (auto simp: all_woken_def core_frame_def)
  have tk3: "task s3 = (task s)(?c := (task s ?c)\<lparr>prio_current := p\<rparr>,
      t := (task s t)\<lparr>timer := None, ret_block := retcode_value OS_OK, state := TASKSTATE_READY, task_queue := Some ReadyQ\<rparr>)"
    using s3(6) tc by (simp add: all_woken_def fun_eq_iff s1(5))
  have mi3: "minv L T (?M(t := M t @ [m])) s3"
    by (rule minv_transfer [OF mi, where m = m])
      (use s3(4) s1(13) tc in \<open>auto simp: s3(5) tk3 split: if_splits\<close>)
  have run: "os_mtx_unlock m s = kbind (os_schedule (K_Schedule (sreg s)) 1 s3) (sched_exit (sreg s) Void)"
    unfolding unlock_run [OF g r] using s1(1) s3(1,2) by simp
  have "mtx s3 m = \<lparr>owner = Some t, recur = 1\<rparr>" "\<forall>k. k \<noteq> m \<longrightarrow> mtx s3 k = mtx s k" using s3(5) s1(13) by simp_all
  then show ?thesis using run s3(3) mi3 tc tq tk3 f3 by (intro exI [of _ s3] exI [of _ Q3] exI [of _ ts3]) blast
qed

lemma unlock_handover:
  assumes inv: "kinv L Q ts s" and mi: "minv L T M s"
    and g: "isr_nesting s = 0" "waitqueue_current s = None" "owner (mtx s m) = Some (task_current s)"
    and r: "\<not> recur (mtx s m) - 1 > 0" and p: "p = reset_prio s (remove1 m (M (task_current s)))"
    and fl: "flat (Q (MtxQ m)) = t # us" and rd: "rd = prio_insert (\<lambda>t. prio_current (task s t)) t (ready Q)"
  shows "\<exists>r s' Q' ts'. os_mtx_unlock m s = ok (r, s') \<and> kinv L Q' ts' s' \<and>
    minv L T (M(task_current s := remove1 m (M (task_current s)), t := M t @ [m])) s' \<and>
    mtx s' m = \<lparr>owner = Some t, recur = 1\<rparr> \<and> flat (Q' (MtxQ m)) = us \<and> block_code (task s' t) = OS_OK \<and>
    prio_current (task s' (task_current s)) = p \<and> (\<forall>u. u \<noteq> task_current s \<longrightarrow> prio_current (task s' u) = prio_current (task s u)) \<and>
    (\<forall>q. q \<notin> {MtxQ m, ReadyQ} \<longrightarrow> Q' q = Q q) \<and>
    (if sched_lock s = 0 \<and> p < prio_current (task s (hd rd))
     then r = Switched \<and> task_current s' = hd rd
     else r = Return Void \<and> task_current s' = task_current s \<and> ready Q' = rd)"
proof -
  let ?c = "task_current s"
  obtain s3 Q3 ts3 where s3: "os_mtx_unlock m s = kbind (os_schedule (K_Schedule (sreg s)) 1 s3) (sched_exit (sreg s) Void)"
    "kinv L Q3 ts3 s3" "minv L T (M(?c := remove1 m (M ?c), t := M t @ [m])) s3" "t \<noteq> ?c" "task_queue (task s t) = Some (MtxQ m)"
    "mtx s3 m = \<lparr>owner = Some t, recur = 1\<rparr>"
    "task s3 = (task s)(?c := (task s ?c)\<lparr>prio_current := p\<rparr>,
      t := (task s t)\<lparr>timer := None, ret_block := retcode_value OS_OK, state := TASKSTATE_READY, task_queue := Some ReadyQ\<rparr>)"
    "ready Q3 = rd" "flat (Q3 (MtxQ m)) = us" "\<forall>q. q \<notin> {MtxQ m, ReadyQ} \<longrightarrow> Q3 q = Q q" "task_current s3 = ?c"
    "sreg s3 = arch_dint (sreg s)" "isr_nesting s3 = 0" "sched_lock s3 = sched_lock s"
    using unlock_handover_run [OF inv mi g r p fl] unfolding rd by blast
  obtain r s' Q' where s': "kbind (os_schedule (K_Schedule (sreg s)) 1 s3) (sched_exit (sreg s) Void) = ok (r, s')"
    "kinv L Q' ts3 s'" "sched_frame s3 s'" "same_tasks s3 s'" "\<forall>q. q \<noteq> ReadyQ \<longrightarrow> Q' q = Q3 q"
    "if preempts 1 s3 (ready Q3) then task_current s' = hd (ready Q3) \<and> (r = Switched \<longleftrightarrow> isr_nesting s3 = 0) \<and>
       ready Q' = prio_insert (\<lambda>t. prio_current (task s3 t)) (task_current s3) (tl (ready Q3))
     else r = Return Void \<and> s' = s3\<lparr>sreg := sreg s\<rparr> \<and> Q' = Q3"
    using kinv_schedule_exit [OF s3(2), of "K_Schedule (sreg s)" 1 "sreg s" Void] s3(12) by auto
  have "?c \<notin> insert t (set (ready Q))"
    using s3(4) kinv_members [OF inv, of ?c ReadyQ] sched_invD(4) [OF kinvD(1) [OF inv]] by auto
  then have ne: "rd \<noteq> []" "hd rd \<noteq> ?c"
    using prio_insert_hd [of "\<lambda>t. prio_current (task s t)" t "ready Q"] rd by auto
  have pr: "prio_current (task s3 ?c) = p" "prio_current (task s3 u) = prio_current (task s u)" if "u \<noteq> ?c" for u
    using s3(4) that by (auto simp: s3(7))
  have pre: "preempts 1 s3 (ready Q3) \<longleftrightarrow> sched_lock s = 0 \<and> p < prio_current (task s (hd rd))"
    using preempts_higher [OF s3(2)] s3(8,11,13,14) ne(1) pr(1) [OF ne(2)] pr(2) [OF ne(2)] by auto
  have "minv L T (M(?c := remove1 m (M ?c), t := M t @ [m])) s'" by (rule minv_switch [OF s3(3,2) s'(2,5,3,4)])
  moreover have "block_code (task s' t) = OS_OK"
    using s'(4) by (simp add: same_tasks_def same_tcb_def block_code_def s3(7) del: retcode_value.simps)
  moreover have "\<forall>u. prio_current (task s' u) = prio_current (task s3 u)" using s'(4) by (simp add: same_tasks_def same_tcb_def)
  moreover have "mtx s' = mtx s3" using s'(3) by (simp add: sched_frame_iff)
  moreover have "\<forall>q. q \<notin> {MtxQ m, ReadyQ} \<longrightarrow> Q' q = Q q" using s3(10) s'(5) by simp
  ultimately show ?thesis
    using s3(1,6,8,9,11,13) s'(1,2,5,6) pr ne(2) pre by (intro exI [of _ r] exI [of _ s'] exI [of _ Q'] exI [of _ ts3]) auto
qed

text \<open>Priority inheritance: the owner of a mutex has at least the priority of every task that waits
  for it.\<close>

definition prio_inherited :: "kstate \<Rightarrow> bool" where
  "prio_inherited s \<longleftrightarrow> (\<forall>m u t. task_queue (task s u) = Some (MtxQ m) \<longrightarrow> owner (mtx s m) = Some t \<longrightarrow>
     prio_current (task s u) \<le> prio_current (task s t))"

lemma reset_prio_waiters:
  assumes inv: "kinv L Q ts s" and mi: "mown L T M s" and pi: "prio_inherited s"
    and ms: "set ms \<subseteq> set (M (task_current s))"
    and "m \<in> set ms" and "task_queue (task s u) = Some (MtxQ m)"
  shows "prio_current (task s u) \<le> reset_prio s ms"
proof (cases "prio_current (task s (task_current s)) = prio_base (task s (task_current s))")
  case True
  have "owner (mtx s m) = Some (task_current s)" using mownD(3) [OF mi] ms assms(5) by blast
  then have "prio_current (task s u) \<le> prio_current (task s (task_current s))"
    using pi assms(6) unfolding prio_inherited_def by blast
  then show ?thesis using True by (simp add: reset_prio_def)
next
  case False
  have "prio_current (task s u) \<le> inherited s ms base" for base
    unfolding inherited_def by (rule Max_ge) (use waiters_finite [OF inv] assms(5,6) in auto)
  then show ?thesis using False by (simp add: reset_prio_def)
qed

lemma unlock_free_inherits:
  assumes inv: "kinv L Q ts s" "kinv L Q ts s'" and mi: "minv L T M s" "minv L T (M(task_current s := remove1 m (M (task_current s)))) s'"
    and pi: "prio_inherited s"
    and tk: "task s' = (task s)(task_current s := (task s (task_current s))\<lparr>prio_current := reset_prio s (remove1 m (M (task_current s)))\<rparr>)"
  shows "prio_inherited s'"
  unfolding prio_inherited_def
proof (intro allI impI)
  let ?c = "task_current s"
  fix k u t assume u: "task_queue (task s' u) = Some (MtxQ k)" and o: "owner (mtx s' k) = Some t"
  have uc: "u \<noteq> ?c" "task_queue (task s u) = Some (MtxQ k)"
    using u sched_invD(4) [OF kinvD(1) [OF inv(1)]] by (auto simp: tk split: if_splits)
  have k: "k \<in> set ((M(?c := remove1 m (M ?c))) t)" using mownD(3) [OF minvD(1) [OF mi(2)]] o by simp
  show "prio_current (task s' u) \<le> prio_current (task s' t)"
  proof (cases "t = ?c")
    case True
    then show ?thesis
      using reset_prio_waiters [OF inv(1) minvD(1) [OF mi(1)] pi, of "remove1 m (M ?c)" k u] k uc
      by (auto simp: tk set_remove1_subset)
  next
    case False
    then have "owner (mtx s k) = Some t" using mownD(3) [OF minvD(1) [OF mi(1)]] k by simp
    then show ?thesis using pi uc False by (auto simp: tk prio_inherited_def)
  qed
qed

lemma unlock_handover_inherits:
  assumes inv: "kinv L Q ts s" "kinv L Q' ts' s'" and mi: "minv L T M s"
    and mi': "minv L T (M(task_current s := remove1 m (M (task_current s)), t := M t @ [m])) s'"
    and pi: "prio_inherited s" and fl: "flat (Q (MtxQ m)) = t # us" "flat (Q' (MtxQ m)) = us"
    and Q': "\<forall>q. q \<notin> {MtxQ m, ReadyQ} \<longrightarrow> Q' q = Q q"
    and pr: "prio_current (task s' (task_current s)) = reset_prio s (remove1 m (M (task_current s)))"
      "\<forall>u. u \<noteq> task_current s \<longrightarrow> prio_current (task s' u) = prio_current (task s u)"
  shows "prio_inherited s'"
  unfolding prio_inherited_def
proof (intro allI impI)
  let ?c = "task_current s"
  fix k u v assume u: "task_queue (task s' u) = Some (MtxQ k)" and o: "owner (mtx s' k) = Some v"
  have tc: "t \<noteq> ?c"
    using kinv_members [OF inv(1), of t "MtxQ m"] fl(1) sched_invD(4) [OF kinvD(1) [OF inv(1)]] by auto
  have "u \<in> set (flat (Q' (MtxQ k)))" using kinv_members [OF inv(2)] u by blast
  moreover have "k \<noteq> m \<Longrightarrow> Q' (MtxQ k) = Q (MtxQ k)" using Q' by simp
  ultimately have uQ: "u \<in> set (flat (Q (MtxQ k)))" "k = m \<Longrightarrow> u \<in> set us"
    using fl by (cases "k = m"; simp)+
  have us: "task_queue (task s u) = Some (MtxQ k)" using kinv_members [OF inv(1)] uQ(1) by blast
  have uc: "u \<noteq> ?c" using us sched_invD(4) [OF kinvD(1) [OF inv(1)]] by auto
  have k: "k \<in> set ((M(?c := remove1 m (M ?c), t := M t @ [m])) v)" using mownD(3) [OF minvD(1) [OF mi']] o by simp
  show "prio_current (task s' u) \<le> prio_current (task s' v)"
  proof (cases "k = m")
    case True
    have "v = t" by (rule mown_unique [OF minvD(1) [OF mi'], of m]) (use k True in simp_all)
    moreover have "prio_current (task s u) \<le> prio_current (task s t)"
      using flat_sorted [OF sched_invD(1) [OF kinvD(1) [OF inv(1)]], of "MtxQ m"] uQ(2) True fl by (auto simp: prio_sorted_def)
    ultimately show ?thesis using pr(2) uc tc by simp
  next
    case False
    show ?thesis
    proof (cases "v = ?c")
      case True
      then show ?thesis
        using reset_prio_waiters [OF inv(1) minvD(1) [OF mi] pi, of "remove1 m (M ?c)" k u] k us uc tc pr
        by (auto simp: set_remove1_subset)
    next
      case other: False
      then have "owner (mtx s k) = Some v" using mownD(3) [OF minvD(1) [OF mi]] k False by (auto split: if_splits)
      then have "prio_current (task s u) \<le> prio_current (task s v)" using pi us unfolding prio_inherited_def by blast
      then show ?thesis using pr(2) uc other by simp
    qed
  qed
qed

text \<open>C9. \<open>os_mtx_unlock\<close> by the owner. In a recursive lock only the recursion count goes down. The last
  unlock gives the caller the highest of its base priority and the priorities of all tasks waiting
  for the mutexes it still owns, and passes the mutex on: without waiters it becomes free;
  otherwise the first waiter (highest priority, first-in first-out) owns it with recursion count 1
  and becomes ready with \<open>OS_OK\<close>, and preempts the caller exactly if a ready task has a higher
  priority than the caller's new one. If every owner had inherited the priorities of its waiters
  before, this holds afterwards too. An unlock by another task, or in an interrupt, halts.\<close>

theorem mtx_unlock_transfers:
  assumes inv: "kinv L Q ts s" and mi: "minv L T M s"
  shows "(if isr_nesting s = 0 \<and> owner (mtx s m) = Some (task_current s) \<and> waitqueue_current s = None
    then if recur (mtx s m) - 1 > 0
      then os_mtx_unlock m s = ok (Return Void, upd_mtx m (\<lambda>k. k\<lparr>recur := recur k - 1\<rparr>) s)
      else \<exists>r s' Q' ts' M'. os_mtx_unlock m s = ok (r, s') \<and> kinv L Q' ts' s' \<and> minv L T M' s' \<and>
        (prio_inherited s \<longrightarrow> prio_inherited s') \<and>
        prio_current (task s' (task_current s)) = reset_prio s (remove1 m (M (task_current s))) \<and>
        (case flat (Q (MtxQ m)) of
           [] \<Rightarrow> r = Return Void \<and> owner (mtx s' m) = None \<and> task_current s' = task_current s \<and> Q' = Q
         | t # us \<Rightarrow> mtx s' m = \<lparr>owner = Some t, recur = 1\<rparr> \<and> block_code (task s' t) = OS_OK \<and>
             flat (Q' (MtxQ m)) = us \<and>
             (let rd = prio_insert (\<lambda>t. prio_current (task s t)) t (ready Q)
              in if sched_lock s = 0 \<and> reset_prio s (remove1 m (M (task_current s))) < prio_current (task s (hd rd))
                 then r = Switched \<and> task_current s' = hd rd
                 else r = Return Void \<and> task_current s' = task_current s \<and> ready Q' = rd))
    else os_mtx_unlock m s = os_halt s)"
proof (cases "isr_nesting s = 0 \<and> owner (mtx s m) = Some (task_current s) \<and> waitqueue_current s = None")
  case False
  then show ?thesis by (auto simp: os_mtx_unlock_def os_assert_def)
next
  case True
  then have g: "isr_nesting s = 0" "waitqueue_current s = None" "owner (mtx s m) = Some (task_current s)" by auto
  show ?thesis
  proof (cases "recur (mtx s m) - 1 > 0")
    case rec: True
    then show ?thesis using True unlock_rec [OF g rec] by simp
  next
    case last: False
    show ?thesis
    proof (cases "flat (Q (MtxQ m))")
      case Nil
      obtain s' where s': "os_mtx_unlock m s = ok (Return Void, s')" "kinv L Q ts s'"
        "minv L T (M(task_current s := remove1 m (M (task_current s)))) s'" "owner (mtx s' m) = None"
        "task_current s' = task_current s" "task s' = (task s)(task_current s :=
          (task s (task_current s))\<lparr>prio_current := reset_prio s (remove1 m (M (task_current s)))\<rparr>)"
        using unlock_free [OF inv mi g last refl Nil] by blast
      then show ?thesis unfolding if_P [OF True] if_not_P [OF last] Nil list.case
        using unlock_free_inherits [OF inv s'(2) mi s'(3) _ s'(6)]
        by (intro exI [of _ "Return Void"] exI [of _ s'] exI [of _ Q] exI [of _ ts] exI conjI impI) (assumption | simp)+
    next
      case (Cons t us)
      let ?rd = "prio_insert (\<lambda>t. prio_current (task s t)) t (ready Q)"
      obtain r s' Q' ts' where s': "os_mtx_unlock m s = ok (r, s')" "kinv L Q' ts' s'"
        "minv L T (M(task_current s := remove1 m (M (task_current s)), t := M t @ [m])) s'"
        "mtx s' m = \<lparr>owner = Some t, recur = 1\<rparr>" "flat (Q' (MtxQ m)) = us" "block_code (task s' t) = OS_OK"
        "prio_current (task s' (task_current s)) = reset_prio s (remove1 m (M (task_current s)))"
        "\<forall>u. u \<noteq> task_current s \<longrightarrow> prio_current (task s' u) = prio_current (task s u)"
        "\<forall>q. q \<notin> {MtxQ m, ReadyQ} \<longrightarrow> Q' q = Q q"
        "if sched_lock s = 0 \<and> reset_prio s (remove1 m (M (task_current s))) < prio_current (task s (hd ?rd))
         then r = Switched \<and> task_current s' = hd ?rd
         else r = Return Void \<and> task_current s' = task_current s \<and> ready Q' = ?rd"
        using unlock_handover [OF inv mi g last refl Cons refl] by blast
      then show ?thesis unfolding if_P [OF True] if_not_P [OF last] Cons list.case Let_def
        using unlock_handover_inherits [OF inv s'(2) mi s'(3) _ Cons s'(5,9,7,8)] by blast
    qed
  qed
qed

section \<open>Priority boost\<close>

lemma kinv_reprio:
  assumes inv: "kinv L Q ts s" and np: "unat np < OS_CONFIG_PRIOCNT"
  shows "\<exists>s' Q'. os_taskqueue_reprio t np s = ok s' \<and> kinv L Q' ts s' \<and> tq_frame s s' \<and>
    task s' = (task s)(t := (task s t)\<lparr>prio_current := np\<rparr>)"
proof -
  note sinv = kinvD(1) [OF inv]
  obtain s' Q' where s': "os_taskqueue_reprio t np s = ok s'" "tq_frame s s'"
    "task s' = (task s)(t := (task s t)\<lparr>prio_current := np\<rparr>)" "tq_rel L Q' s'"
    using reprio_result [OF sched_invD(1) [OF sinv] np] by blast
  have "task_ok (task s' u)" for u
    using sched_invD(3) [OF sinv, of u] np by (auto simp: s'(3) task_ok_def)
  then have "sched_inv L Q' s'" "floating s' = {}"
    using s'(2-4) sched_invD(2,4-6) [OF sinv] kinvD(3) [OF inv] by (auto simp: sched_inv_def floating_def tq_frame_iff)
  moreover have "block_inv {} ts s'"
    by (rule block_inv_cong [OF kinvD(2) [OF inv]])
      (use s'(2,3) block_invD(4) [OF kinvD(2) [OF inv]] in \<open>auto simp: tq_frame_iff\<close>)
  ultimately show ?thesis using s'(1-3) by (auto simp: kinv_def)
qed

text \<open>The task that a task waiting for a mutex waits for, and the chain of these tasks up to one
  that does not wait for a mutex.\<close>

definition waits_mtx :: "kstate \<Rightarrow> tid \<Rightarrow> bool" where
  "waits_mtx s t \<longleftrightarrow> state (task s t) = TASKSTATE_WAIT \<and> block_type (task s t) = OS_TASKBLOCK_MTX"

definition blocker :: "kstate \<Rightarrow> tid \<Rightarrow> tid option" where
  "blocker s t = (case task_queue (task s t) of Some (MtxQ m) \<Rightarrow> owner (mtx s m) | _ \<Rightarrow> None)"

fun bchain :: "kstate \<Rightarrow> tid list \<Rightarrow> bool" where
  "bchain s [] = False"
| "bchain s [t] = (\<not> waits_mtx s t)"
| "bchain s (t # u # us) = (waits_mtx s t \<and> blocker s t = Some u \<and> bchain s (u # us))"

lemma bchain_cong:
  assumes "\<And>t. state (task s' t) = state (task s t)" "\<And>t. block_type (task s' t) = block_type (task s t)"
    "\<And>t. task_queue (task s' t) = task_queue (task s t)" "mtx s' = mtx s"
  shows "bchain s' us = bchain s us" and "waits_mtx s' t = waits_mtx s t" and "blocker s' t = blocker s t"
proof -
  show wb: "waits_mtx s' t = waits_mtx s t" "blocker s' t = blocker s t" for t
    by (simp_all add: waits_mtx_def blocker_def assms cong: option.case_cong qid.case_cong)
  show "bchain s' us = bchain s us"
  proof (induction us)
    case (Cons t us)
    then show ?case by (cases us) (simp_all add: wb)
  qed simp
qed

lemma prio_boost_loop_step:
  assumes "os_taskqueue_reprio t p s = ok s'" and "prio_current (task s (task_current s)) = p"
  shows "prio_boost_loop p t s = (if \<not> waits_mtx s' t then ok s' else case blocker s' t of
      None \<Rightarrow> fail Null_deref | Some u \<Rightarrow> prio_boost_loop p u s')"
  by (subst prio_boost_loop.simps)
    (simp add: assms waits_mtx_def blocker_def split: option.splits qid.splits)

lemma prio_boost_loop_result:
  assumes "kinv L Q ts s" and "bchain s us" and "us = t # us'" and "p = prio_current (task s (task_current s))"
  shows "\<exists>s' Q'. prio_boost_loop p t s = ok s' \<and> kinv L Q' ts s' \<and> tq_frame s s' \<and>
    task s' = (\<lambda>u. if u \<in> set us then (task s u)\<lparr>prio_current := p\<rparr> else task s u)"
  using assms
proof (induction us arbitrary: s Q t us')
  case (Cons v us)
  have vt: "v = t" using Cons.prems(3) by simp
  have np: "unat p < OS_CONFIG_PRIOCNT" using sched_inv_prio [OF kinvD(1) [OF Cons.prems(1)]] Cons.prems(4) by simp
  obtain s1 Q1 where s1: "os_taskqueue_reprio t p s = ok s1" "kinv L Q1 ts s1" "tq_frame s s1"
    "task s1 = (task s)(t := (task s t)\<lparr>prio_current := p\<rparr>)"
    using kinv_reprio [OF Cons.prems(1) np] by blast
  have "mtx s1 = mtx s" using s1(3) by (simp add: tq_frame_iff)
  then have ch: "bchain s1 xs = bchain s xs" "waits_mtx s1 t = waits_mtx s t" "blocker s1 t = blocker s t" for xs
    by (intro bchain_cong; simp add: s1(4))+
  note step = prio_boost_loop_step [OF s1(1) Cons.prems(4) [symmetric], unfolded ch(2,3)]
  show ?case
  proof (cases us)
    case Nil
    have "prio_boost_loop p t s = ok s1" using Cons.prems(2) Nil vt unfolding step by simp
    then show ?thesis using s1(2-4) Nil vt by (intro exI [of _ s1] exI [of _ Q1]) auto
  next
    case (Cons u us2)
    have b: "waits_mtx s t" "blocker s t = Some u" "bchain s1 us" using Cons.prems(2) Cons vt ch(1) by auto
    have p1: "p = prio_current (task s1 (task_current s1))"
      using Cons.prems(4) s1(3,4) by (auto simp: tq_frame_iff)
    obtain s' Q' where s': "prio_boost_loop p u s1 = ok s'" "kinv L Q' ts s'" "tq_frame s1 s'"
      "task s' = (\<lambda>v. if v \<in> set us then (task s1 v)\<lparr>prio_current := p\<rparr> else task s1 v)"
      using Cons.IH [OF s1(2) b(3) Cons p1] by blast
    have "tq_frame s s'" using s1(3) s'(3) by (simp add: tq_frame_iff)
    moreover have "task s' = (\<lambda>w. if w \<in> set (v # us) then (task s w)\<lparr>prio_current := p\<rparr> else task s w)"
      using s'(4) s1(4) vt by (auto simp: fun_eq_iff)
    moreover have "prio_boost_loop p t s = ok s'" unfolding step using b s'(1) by simp
    ultimately show ?thesis using s'(2) by blast
  qed
qed simp

lemma waits_mtx_iff:
  assumes "kinv L Q ts s"
  shows "waits_mtx s t \<longleftrightarrow> (\<exists>m. task_queue (task s t) = Some (MtxQ m))"
proof
  assume w: "waits_mtx s t"
  then obtain q where q: "task_queue (task s t) = Some q" "queue_block q = OS_TASKBLOCK_MTX"
    using waiting_queue [OF kinvD(1,3) [OF assms], of t] by (auto simp: waits_mtx_def)
  then show "\<exists>m. task_queue (task s t) = Some (MtxQ m)" by (cases q) auto
next
  assume "\<exists>m. task_queue (task s t) = Some (MtxQ m)"
  then show "waits_mtx s t" using sched_invD(3) [OF kinvD(1) [OF assms], of t] by (auto simp: task_ok_def waits_mtx_def)
qed

text \<open>The loop returns only at the end of a finite chain.\<close>

lemma prio_boost_loop_chain:
  assumes "prio_boost_loop p t s = Some r" and "kinv L Q ts s" and "minv L T M s"
    and "p = prio_current (task s (task_current s))"
  shows "\<exists>us. bchain s (t # us)"
proof -
  have "(\<forall>Q. kinv L Q ts s \<longrightarrow> minv L T M s \<longrightarrow> p = prio_current (task s (task_current s)) \<longrightarrow> (\<exists>us. bchain s (t # us)))"
    if "prio_boost_loop p t s = Some r" for p t s r
  proof (rule prio_boost_loop.raw_induct [OF _ that], goal_cases)
    case (1 f p t s r)
    show ?case
    proof (intro allI impI)
      fix Q assume inv: "kinv L Q ts s" and mi: "minv L T M s" and p: "p = prio_current (task s (task_current s))"
      obtain s1 Q1 where s1: "os_taskqueue_reprio t p s = ok s1" "kinv L Q1 ts s1" "tq_frame s s1"
        "task s1 = (task s)(t := (task s t)\<lparr>prio_current := p\<rparr>)"
        using kinv_reprio [OF inv, of p t] sched_inv_prio [OF kinvD(1) [OF inv]] p by blast
      have mx: "mtx s1 = mtx s" "mxh s1 = mxh s" "task_current s1 = task_current s" using s1(3) by (simp_all add: tq_frame_iff)
      have ch: "bchain s1 xs = bchain s xs" "waits_mtx s1 t = waits_mtx s t" "blocker s1 t = blocker s t" for xs
        by (intro bchain_cong; simp add: s1(4) mx)+
      have mi1: "minv L T M s1" by (rule minv_cong [OF mi]) (auto simp: mx s1(4) split: if_splits)
      show "\<exists>us. bchain s (t # us)"
      proof (cases "waits_mtx s t")
        case False
        then show ?thesis by (intro exI [of _ "[]"]) simp
      next
        case True
        then obtain m where m: "task_queue (task s t) = Some (MtxQ m)"
          using waits_mtx_iff [OF inv] by blast
        then obtain u where u: "owner (mtx s m) = Some u" using minvD(2) [OF mi m] by auto
        have "f p u s1 = Some r"
          using 1(2) True m u mx p unfolding waits_mtx_def by (simp add: s1(1) [unfolded p] s1(4))
        moreover have "p = prio_current (task s1 (task_current s1))" using p by (simp add: mx s1(4))
        ultimately have "\<exists>us. bchain s1 (u # us)" using 1(1) s1(2) mi1 by blast
        then obtain us where "bchain s (u # us)" using ch(1) by blast
        then have "bchain s (t # u # us)" using True m u by (simp add: blocker_def)
        then show ?thesis by blast
      qed
    qed
  qed
  then show ?thesis using assms by blast
qed

lemma bchain_closed:
  "bchain s us \<Longrightarrow> u \<in> set us \<Longrightarrow> waits_mtx s u \<Longrightarrow> \<exists>v \<in> set us. blocker s u = Some v"
proof (induction us)
  case (Cons t us)
  then show ?case by (cases us) auto
qed simp

lemma lock_boost_result:
  assumes inv: "kinv L Q ts s" and o: "owner (mtx s m) = Some t" and ch: "bchain s (t # us)"
    and pr: "pr = (\<lambda>u. if prio_current (task s t) < prio_current (task s (task_current s)) \<and> u \<in> set (t # us)
      then prio_current (task s (task_current s)) else prio_current (task s u))"
  shows "\<exists>s' Q'. os_mtx_lock_prio_boost m s = ok s' \<and> kinv L Q' ts s' \<and> tq_frame s s' \<and>
    task s' = (\<lambda>u. (task s u)\<lparr>prio_current := pr u\<rparr>)"
proof (cases "prio_current (task s t) < prio_current (task s (task_current s))")
  case True
  obtain s' Q' where s': "prio_boost_loop (prio_current (task s (task_current s))) t s = ok s'" "kinv L Q' ts s'"
    "tq_frame s s'"
    "task s' = (\<lambda>u. if u \<in> set (t # us) then (task s u)\<lparr>prio_current := prio_current (task s (task_current s))\<rparr> else task s u)"
    using prio_boost_loop_result [OF inv ch refl refl] by blast
  have "task s' = (\<lambda>u. (task s u)\<lparr>prio_current := pr u\<rparr>)" by (auto simp: s'(4) pr True fun_eq_iff)
  then show ?thesis using s'(1-3) True o by (auto simp: os_mtx_lock_prio_boost_def)
next
  case False
  have "task s = (\<lambda>u. (task s u)\<lparr>prio_current := pr u\<rparr>)" using False by (auto simp: pr fun_eq_iff)
  then show ?thesis using False o inv by (auto simp: os_mtx_lock_prio_boost_def tq_frame_iff)
qed

section \<open>Lock\<close>

lemma lock_blocks:
  assumes inv: "kinv L Q ts s" and mi: "minv L T M s" and m: "MtxQ m \<in> L" and c: "task_current s \<in> T"
      "timer (task s (task_current s)) = None"
    and g: "isr_nesting s = 0" "task_current s \<noteq> task_idle" "waitqueue_current s = None"
    and o: "owner (mtx s m) = Some t" "t \<noteq> task_current s" and ch: "bchain s (t # us)"
    and pr: "pr = (\<lambda>u. if prio_current (task s t) < prio_current (task s (task_current s)) \<and> u \<in> set (t # us)
      then prio_current (task s (task_current s)) else prio_current (task s u))"
  shows "\<exists>s' Q'. os_mtx_lock m s = ok (Switched, s') \<and> kinv L Q' ts s' \<and> minv L T M s' \<and> mtx s' = mtx s \<and>
    task_queue (task s' (task_current s)) = Some (MtxQ m) \<and>
    ctx_kont (task s' (task_current s)) = K_MtxLock (sreg s) \<and>
    (\<forall>u. prio_current (task s' u) = pr u) \<and>
    (\<forall>u k. u \<noteq> task_current s \<longrightarrow> task_queue (task s' u) = Some (MtxQ k) \<longleftrightarrow> task_queue (task s u) = Some (MtxQ k)) \<and>
    task s' = (\<lambda>u. if u = task_current s
        then (task s u)\<lparr>prio_current := pr u, state := TASKSTATE_WAIT, block_type := OS_TASKBLOCK_MTX,
          task_queue := Some (MtxQ m), ctx_kont := K_MtxLock (sreg s)\<rparr>
        else if u = task_current s' then (task s u)\<lparr>prio_current := pr u, task_queue := None\<rparr>
        else (task s u)\<lparr>prio_current := pr u\<rparr>) \<and>
    task_queue (task s (task_current s')) = Some ReadyQ \<and> core_frame s s' \<and>
    (\<forall>u \<in> set (ready Q'). prio_current (task s' u) \<le> prio_current (task s' (task_current s')))"
proof -
  let ?c = "task_current s" and ?s0 = "s\<lparr>sreg := arch_dint (sreg s)\<rparr>"
  have ch0: "bchain ?s0 (t # us)" using bchain_cong(1) [of ?s0 s] ch by simp
  have pr0: "pr = (\<lambda>u. if prio_current (task ?s0 t) < prio_current (task ?s0 (task_current ?s0)) \<and> u \<in> set (t # us)
      then prio_current (task ?s0 (task_current ?s0)) else prio_current (task ?s0 u))"
    using pr by (simp cong: if_cong)
  have o0: "owner (mtx ?s0 m) = Some t" using o by simp
  obtain s1 Q1 where
    s1: "os_mtx_lock_prio_boost m ?s0 = ok s1" "kinv L Q1 ts s1" "tq_frame ?s0 s1"
      "task s1 = (\<lambda>u. (task ?s0 u)\<lparr>prio_current := pr u\<rparr>)"
    using lock_boost_result [OF kinv_dint [OF inv] o0 ch0 pr0] by blast
  have c1: "task_current s1 = ?c" using s1(3) by (simp add: tq_frame_iff)
  obtain v vs where rd: "ready Q1 = v # vs" using ready_nonempty(2) [OF kinvD(1) [OF s1(2)]] g(2) c1 by auto
  have "block_inv {?c} ts s1"
    by (rule block_inv_cong [OF kinvD(2) [OF s1(2)]]) (use block_invD(4) [OF kinvD(2) [OF s1(2)]] in auto)
  then obtain s' Q' where s': "os_task_block_switch (K_MtxLock (sreg s)) (MtxQ m) OS_TASKBLOCK_MTX s1 = ok s'" "kinv L Q' ts s'"
    "sched_frame s1 s'"
    "task s' = (task s1)(v := (task s1 v)\<lparr>task_queue := None\<rparr>,
      ?c := (task s1 ?c)\<lparr>state := TASKSTATE_WAIT, block_type := OS_TASKBLOCK_MTX, task_queue := Some (MtxQ m), ctx_kont := K_MtxLock (sreg s)\<rparr>)"
    "task_current s' = v" "ready Q' = vs"
    using kinv_block_switch [OF kinvD(1,3) [OF s1(2)] _ m _ _ rd, of ts "K_MtxLock (sreg s)"] c1 g(2) by auto
  have v: "task_queue (task s1 v) = Some ReadyQ" using kinv_members [OF s1(2), of v ReadyQ] rd by simp
  have tq: "task_queue (task s' u) = Some (MtxQ k) \<longleftrightarrow> task_queue (task s u) = Some (MtxQ k)" if "u \<noteq> ?c" for u k
    using that v by (auto simp: s'(4) s1(4))
  have mx: "mtx s' = mtx s" "mxh s' = mxh s" using s'(3) s1(3) by (simp_all add: sched_frame_iff tq_frame_iff)
  have "minv L T M s'"
    unfolding minv_def
  proof (intro conjI allI impI)
    show "mown L T M s'" by (rule mown_cong [OF minvD(1) [OF mi]]) (simp_all add: mx)
    fix u k assume u: "task_queue (task s' u) = Some (MtxQ k)"
    show "owner (mtx s' k) \<noteq> None" "timer (task s' u) = None" "u \<in> T"
      using u o c tq [of u k] minvD(2) [OF mi, of u k] by (cases "u = ?c"; auto simp: s'(4) s1(4) mx)+
  qed
  moreover have "os_mtx_lock m s = ok (Switched, s')" using g o s1(1) s'(1) by (simp add: os_mtx_lock_def)
  moreover have vc: "v \<noteq> ?c" using v sched_invD(4) [OF kinvD(1) [OF s1(2)]] c1 by auto
  then have "task s' = (\<lambda>u. if u = ?c
        then (task s u)\<lparr>prio_current := pr u, state := TASKSTATE_WAIT, block_type := OS_TASKBLOCK_MTX,
          task_queue := Some (MtxQ m), ctx_kont := K_MtxLock (sreg s)\<rparr>
        else if u = task_current s' then (task s u)\<lparr>prio_current := pr u, task_queue := None\<rparr>
        else (task s u)\<lparr>prio_current := pr u\<rparr>)"
    by (auto simp: s'(4,5) s1(4) fun_eq_iff)
  moreover have "core_frame s s'" using s'(3) s1(3) by (simp add: core_frame_def sched_frame_iff tq_frame_iff)
  moreover have "prio_current (task s' u) = prio_current (task s1 u)" for u by (simp add: s'(4))
  then have "\<forall>u \<in> set (ready Q'). prio_current (task s' u) \<le> prio_current (task s' (task_current s'))"
    using ready_le_head [OF sched_invD(1) [OF kinvD(1) [OF s1(2)]] rd] s'(5,6) rd by simp
  moreover have "task_queue (task s (task_current s')) = Some ReadyQ" using v by (simp add: s'(5) s1(4))
  ultimately show ?thesis using s'(2) tq mx(1) by (intro exI [of _ s'] exI [of _ Q']) (auto simp: s'(5))
qed

text \<open>Inheritance is kept when the task blocks, unless the boost lowers a task of the chain.\<close>

lemma lock_inherits:
  assumes inv: "kinv L Q ts s" and pi: "prio_inherited s"
    and o: "owner (mtx s m) = Some t" and ch: "bchain s (t # us)"
    and le: "\<forall>u \<in> set us. prio_current (task s u) \<le> prio_current (task s (task_current s))"
    and pr: "pr = (\<lambda>u. if prio_current (task s t) < prio_current (task s (task_current s)) \<and> u \<in> set (t # us)
      then prio_current (task s (task_current s)) else prio_current (task s u))"
    and s': "mtx s' = mtx s" "task_queue (task s' (task_current s)) = Some (MtxQ m)" "\<forall>u. prio_current (task s' u) = pr u"
      "\<forall>u k. u \<noteq> task_current s \<longrightarrow> task_queue (task s' u) = Some (MtxQ k) \<longleftrightarrow> task_queue (task s u) = Some (MtxQ k)"
  shows "prio_inherited s'"
  unfolding prio_inherited_def
proof (intro allI impI)
  let ?c = "task_current s" and ?p = "\<lambda>u. prio_current (task s u)"
  fix k u v assume u: "task_queue (task s' u) = Some (MtxQ k)" and v: "owner (mtx s' k) = Some v"
  have up: "?p w \<le> pr w" for w
    using le by (auto simp: pr intro: less_imp_le)
  have "pr u \<le> pr v"
  proof (cases "u = ?c")
    case True
    then have "k = m" using u s'(2) by simp
    then have "v = t" using v o s'(1) by simp
    then show ?thesis using True by (auto simp: pr not_less)
  next
    case False
    then have us: "task_queue (task s u) = Some (MtxQ k)" using u s'(4) by blast
    have pv: "?p u \<le> ?p v" using pi us v s'(1) unfolding prio_inherited_def by simp
    show ?thesis
    proof (cases "?p t < ?p ?c \<and> u \<in> set (t # us)")
      case True
      have "waits_mtx s u" using waits_mtx_iff [OF inv] us by blast
      moreover have "blocker s u = Some v" using us v s'(1) by (simp add: blocker_def)
      ultimately have "v \<in> set (t # us)" using bchain_closed [OF ch, of u] True by auto
      then show ?thesis using True by (simp add: pr)
    next
      case no: False
      then have "pr u = ?p u" by (auto simp: pr)
      then show ?thesis using pv up [of v] by simp
    qed
  qed
  then show "prio_current (task s' u) \<le> prio_current (task s' v)" using s'(3) by simp
qed

lemma lock_waits:
  assumes inv: "kinv L Q ts s" and mi: "minv L T M s" and m: "MtxQ m \<in> L" and c: "task_current s \<in> T"
      "timer (task s (task_current s)) = None"
    and g: "isr_nesting s = 0" "task_current s \<noteq> task_idle" "waitqueue_current s = None"
    and o: "owner (mtx s m) = Some t" "t \<noteq> task_current s" and ch: "bchain s (t # us)"
  shows "\<exists>s' Q'. os_mtx_lock m s = ok (Switched, s') \<and> kinv L Q' ts s' \<and> minv L T M s' \<and> mtx s' = mtx s \<and>
    task_queue (task s' (task_current s)) = Some (MtxQ m) \<and>
    ctx_kont (task s' (task_current s)) = K_MtxLock (sreg s) \<and>
    (\<forall>u. prio_current (task s' u) =
      (if prio_current (task s t) < prio_current (task s (task_current s)) \<and> u \<in> set (t # us)
       then prio_current (task s (task_current s)) else prio_current (task s u))) \<and>
    (prio_inherited s \<and> (\<forall>u \<in> set us. prio_current (task s u) \<le> prio_current (task s (task_current s))) \<longrightarrow>
      prio_inherited s')"
proof -
  define pr where "pr = (\<lambda>u. if prio_current (task s t) < prio_current (task s (task_current s)) \<and> u \<in> set (t # us)
    then prio_current (task s (task_current s)) else prio_current (task s u))"
  obtain s' Q' where s': "os_mtx_lock m s = ok (Switched, s')" "kinv L Q' ts s'" "minv L T M s'" "mtx s' = mtx s"
    "task_queue (task s' (task_current s)) = Some (MtxQ m)" "ctx_kont (task s' (task_current s)) = K_MtxLock (sreg s)"
    "\<forall>u. prio_current (task s' u) = pr u"
    "\<forall>u k. u \<noteq> task_current s \<longrightarrow> task_queue (task s' u) = Some (MtxQ k) \<longleftrightarrow> task_queue (task s u) = Some (MtxQ k)"
    using lock_blocks [OF inv mi m c g o ch pr_def] by blast
  have "prio_inherited s \<and> (\<forall>u \<in> set us. prio_current (task s u) \<le> prio_current (task s (task_current s))) \<longrightarrow> prio_inherited s'"
    using lock_inherits [OF inv _ o(1) ch _ pr_def s'(4,5,7,8)] by blast
  with s'(1-6) s'(7) [unfolded pr_def] show ?thesis by (intro exI conjI) assumption+
qed

lemma lock_free:
  assumes inv: "kinv L Q ts s" and mi: "minv L T M s" and m: "MtxQ m \<in> L" "owner (mtx s m) = None" and c: "task_current s \<in> T"
    and g: "isr_nesting s = 0" "task_current s \<noteq> task_idle" "waitqueue_current s = None"
  shows "\<exists>h. os_mtx_lock m s = ok (Return (Code OS_OK), s\<lparr>mxh := h, mtx := (mtx s)(m := \<lparr>owner = Some (task_current s), recur = 1\<rparr>)\<rparr>) \<and>
    kinv L Q ts (s\<lparr>mxh := h, mtx := (mtx s)(m := \<lparr>owner = Some (task_current s), recur = 1\<rparr>)\<rparr>) \<and>
    minv L T (M(task_current s := M (task_current s) @ [m]))
      (s\<lparr>mxh := h, mtx := (mtx s)(m := \<lparr>owner = Some (task_current s), recur = 1\<rparr>)\<rparr>)"
proof -
  let ?h = "list_append (MtxList (task_current s)) (MtxLink m) (mxh s)" and ?s' = "os_mtx_set_owner m (task_current s) s"
  note so = set_owner_result [OF minvD(1) [OF mi] c m(2,1) refl]
  have "os_mtx_lock m s = ok (Return (Code OS_OK), ?s')"
    using g m(2) by (cases s) (simp add: os_mtx_lock_def os_mtx_set_owner_def upd_mtx_def)
  moreover have "kinv L Q ts ?s'" by (subst so(2), rule kinv_same [OF inv]) simp_all
  moreover have "minv L T (M(task_current s := M (task_current s) @ [m])) ?s'"
    by (rule minv_transfer [OF mi so(1), where m = m]) (auto simp: so(2))
  ultimately show ?thesis unfolding so(2) by blast
qed

lemma lock_own:
  assumes "isr_nesting s = 0" "task_current s \<noteq> task_idle" "waitqueue_current s = None"
    "owner (mtx s m) = Some (task_current s)"
  shows "os_mtx_lock m s = ok (Return (Code OS_OK), upd_mtx m (\<lambda>k. k\<lparr>recur := recur k + 1\<rparr>) s)"
  using assms by (cases s) (simp add: os_mtx_lock_def upd_mtx_def)

text \<open>C10. \<open>os_mtx_lock\<close> on every branch. A free mutex is taken with recursion count 1 and appended to the
  caller's list; the owner's own lock only counts the recursion. Otherwise the caller waits for the
  mutex; if its priority is higher than the owner's, the owner and every task down the chain of
  blocked owners get the caller's priority, and all other priorities stay. If each owner had
  inherited the priorities of its waiters, and no task behind the first of the chain has a higher
  priority than the caller, inheritance holds afterwards. A call in an interrupt, by the idle task or
  after \<open>os_waitqueue_prepare\<close> halts.\<close>

theorem mtx_lock_cases:
  assumes inv: "kinv L Q ts s" and mi: "minv L T M s" and m: "MtxQ m \<in> L" and c: "task_current s \<in> T"
      "timer (task s (task_current s)) = None"
  shows "(if isr_nesting s = 0 \<and> task_current s \<noteq> task_idle \<and> waitqueue_current s = None
    then case owner (mtx s m) of
        None \<Rightarrow> \<exists>s'. os_mtx_lock m s = ok (Return (Code OS_OK), s') \<and> kinv L Q ts s' \<and>
          minv L T (M(task_current s := M (task_current s) @ [m])) s' \<and> task s' = task s \<and>
          mtx s' = (mtx s)(m := \<lparr>owner = Some (task_current s), recur = 1\<rparr>)
      | Some t \<Rightarrow> if t = task_current s
          then os_mtx_lock m s = ok (Return (Code OS_OK), upd_mtx m (\<lambda>k. k\<lparr>recur := recur k + 1\<rparr>) s)
          else \<forall>us. bchain s (t # us) \<longrightarrow>
            (\<exists>s' Q'. os_mtx_lock m s = ok (Switched, s') \<and> kinv L Q' ts s' \<and> minv L T M s' \<and> mtx s' = mtx s \<and>
              task_queue (task s' (task_current s)) = Some (MtxQ m) \<and>
              ctx_kont (task s' (task_current s)) = K_MtxLock (sreg s) \<and>
              (\<forall>u. prio_current (task s' u) =
                (if prio_current (task s t) < prio_current (task s (task_current s)) \<and> u \<in> set (t # us)
                 then prio_current (task s (task_current s)) else prio_current (task s u))) \<and>
              (prio_inherited s \<and> (\<forall>u \<in> set us. prio_current (task s u) \<le> prio_current (task s (task_current s))) \<longrightarrow>
                prio_inherited s'))
    else os_mtx_lock m s = os_halt s)"
proof (cases "isr_nesting s = 0 \<and> task_current s \<noteq> task_idle \<and> waitqueue_current s = None")
  case False
  then show ?thesis by (auto simp: os_mtx_lock_def os_assert_def)
next
  case True
  then have g: "isr_nesting s = 0" "task_current s \<noteq> task_idle" "waitqueue_current s = None" by auto
  show ?thesis
  proof (cases "owner (mtx s m)")
    case None
    then show ?thesis using True lock_free [OF inv mi m None c(1) g] by auto
  next
    case (Some t)
    show ?thesis
    proof (cases "t = task_current s")
      case own: True
      then show ?thesis using True Some lock_own [OF g, of m] by simp
    next
      case other: False
      show ?thesis unfolding if_P [OF True] Some option.case if_not_P [OF other]
      proof (intro allI impI)
        fix us assume ch: "bchain s (t # us)"
        show "\<exists>s' Q'. os_mtx_lock m s = ok (Switched, s') \<and> kinv L Q' ts s' \<and> minv L T M s' \<and> mtx s' = mtx s \<and>
            task_queue (task s' (task_current s)) = Some (MtxQ m) \<and>
            ctx_kont (task s' (task_current s)) = K_MtxLock (sreg s) \<and>
            (\<forall>u. prio_current (task s' u) =
              (if prio_current (task s t) < prio_current (task s (task_current s)) \<and> u \<in> set (t # us)
               then prio_current (task s (task_current s)) else prio_current (task s u))) \<and>
            (prio_inherited s \<and> (\<forall>u \<in> set us. prio_current (task s u) \<le> prio_current (task s (task_current s))) \<longrightarrow>
              prio_inherited s')"
          by (rule lock_waits [OF inv mi m c g Some other ch])
      qed
    qed
  qed
qed

section \<open>Termination of the boost\<close>

lemma bchain_deadlock:
  "bchain s us \<Longrightarrow> \<forall>u \<in> C. \<exists>v \<in> C. waits_mtx s u \<and> blocker s u = Some v \<Longrightarrow> hd us \<notin> C"
proof (induction us)
  case (Cons t us)
  then show ?case by (cases us) auto
qed simp

text \<open>C21. A lock that has to boost the owner returns exactly if the chain of blocked owners ends: if
  the chain runs into a deadlock (a set of tasks that wait for mutexes of each other), the call never
  returns, with interrupts disabled.\<close>

theorem mtx_lock_returns_iff:
  assumes inv: "kinv L Q ts s" and mi: "minv L T M s" and m: "MtxQ m \<in> L" and c: "task_current s \<in> T"
      "timer (task s (task_current s)) = None"
    and g: "isr_nesting s = 0" "task_current s \<noteq> task_idle" "waitqueue_current s = None"
    and o: "owner (mtx s m) = Some t" "t \<noteq> task_current s"
    and p: "prio_current (task s t) < prio_current (task s (task_current s))"
  shows "((\<exists>r. os_mtx_lock m s = Some r) \<longleftrightarrow> (\<exists>us. bchain s (t # us))) \<and>
    (\<forall>C. t \<in> C \<and> (\<forall>u \<in> C. \<exists>v \<in> C. waits_mtx s u \<and> blocker s u = Some v) \<longrightarrow> os_mtx_lock m s = None)"
proof -
  let ?s0 = "s\<lparr>sreg := arch_dint (sreg s)\<rparr>"
  have "\<exists>us. bchain s (t # us)" if "os_mtx_lock m s = Some r" for r
  proof -
    have "os_mtx_lock_prio_boost m ?s0 \<noteq> None" using that g o by (cases "os_mtx_lock_prio_boost m ?s0") (auto simp: os_mtx_lock_def)
    then obtain r' where "prio_boost_loop (prio_current (task ?s0 (task_current ?s0))) t ?s0 = Some r'"
      using o p by (auto simp: os_mtx_lock_prio_boost_def)
    then have "\<exists>us. bchain ?s0 (t # us)"
      by (rule prio_boost_loop_chain [OF _ kinv_dint [OF inv] _ refl, where M = M and T = T])
        (rule minv_cong [OF mi], simp_all)
    then show ?thesis using bchain_cong(1) [of ?s0 s] by auto
  qed
  moreover have "\<exists>r. os_mtx_lock m s = Some r" if "bchain s (t # us)" for us
    using lock_waits [OF inv mi m c g o that] by blast
  moreover have "\<not> bchain s (t # us)" if "t \<in> C" "\<forall>u \<in> C. \<exists>v \<in> C. waits_mtx s u \<and> blocker s u = Some v" for C us
    using bchain_deadlock [of s "t # us" C] that by auto
  ultimately show ?thesis by (metis not_None_eq)
qed

section \<open>Destroy\<close>

text \<open>The loop of \<open>os_mtx_destroy\<close>: the tasks in the queue of a mutex have no guard.\<close>

definition unguarded :: "qid set \<Rightarrow> qid \<Rightarrow> tid list \<Rightarrow> gstate \<Rightarrow> bool" where
  "unguarded L q us = (\<lambda>(Q, ts, s). waiters L q us (Q, ts, s) \<and> (\<forall>u \<in> set us. timer (task s u) = None))"

interpretation mtxwake: drain "unguarded L (MtxQ m)" "\<lambda>(Q, ts, s). mtx_destroy_loop m s" "\<lambda>(Q, ts, s). ok s"
  "all_woken OS_DESTROYED (MtxQ m)" for L m
proof unfold_locales
  fix t us x
  show "unguarded L (MtxQ m) [] x \<Longrightarrow> (case x of (Q, ts, s) \<Rightarrow> mtx_destroy_loop m s) = (case x of (Q, ts, s) \<Rightarrow> ok s)"
    by (cases x) (simp add: no_waiter mtx_destroy_loop.simps unguarded_def)
  assume w: "unguarded L (MtxQ m) (t # us) x"
  obtain Q ts s where x: "x = (Q, ts, s)" by (cases x)
  obtain s1 Q' ts' s' where s1: "os_taskqueue_dequeue (MtxQ m) s = ok (Some t, s1)" "wake OS_DESTROYED t s1 = ok s'"
    "timer (task s1 t) = timer (task s t)" "waiters L (MtxQ m) us (Q', ts', s')" "all_woken OS_DESTROYED (MtxQ m) [t] x (Q', ts', s')"
    using wake_first_waiter [of L "MtxQ m" t us Q ts s OS_DESTROYED] w by (auto simp: x unguarded_def)
  have "wake OS_DESTROYED t s1 = ok (os_task_makeready t (upd_task t (set_block_code OS_DESTROYED) s1))"
    by (rule wake_unguarded) (use s1(3) w in \<open>simp add: x unguarded_def\<close>)
  then have "mtx_destroy_loop m s = mtx_destroy_loop m s'"
    using s1(1,2) by (subst mtx_destroy_loop.simps) simp
  moreover have "unguarded L (MtxQ m) us (Q', ts', s')"
    using s1(4,5) w by (auto simp: x unguarded_def all_woken_def)
  ultimately show "\<exists>x'. (case x of (Q, ts, s) \<Rightarrow> mtx_destroy_loop m s) = (case x' of (Q, ts, s) \<Rightarrow> mtx_destroy_loop m s) \<and>
      unguarded L (MtxQ m) us x' \<and> all_woken OS_DESTROYED (MtxQ m) [t] x x'"
    using s1(5) by (intro exI [of _ "(Q', ts', s')"]) (simp add: x)
qed (fact all_woken_nil all_woken_cons)+

lemma destroy_loop_result:
  assumes "kinv L Q ts s" and "MtxQ m \<in> L" and "\<forall>u. task_queue (task s u) = Some (MtxQ m) \<longrightarrow> timer (task s u) = None"
  shows "\<exists>s' Q' ts'. mtx_destroy_loop m s = ok s' \<and> kinv L Q' ts' s' \<and> flat (Q' (MtxQ m)) = [] \<and>
    all_woken OS_DESTROYED (MtxQ m) (flat (Q (MtxQ m))) (Q, ts, s) (Q', ts', s')"
proof -
  have "unguarded L (MtxQ m) (flat (Q (MtxQ m))) (Q, ts, s)"
    using assms kinv_members [OF assms(1), of _ "MtxQ m"] by (auto simp: unguarded_def waiters_def)
  from mtxwake.drains [OF this] show ?thesis by (auto simp: unguarded_def waiters_def)
qed

lemma memset_mtx_result:
  assumes inv: "kinv L Q ts s" and e: "flat (Q (MtxQ m)) = []" and mo: "mown L T M s" "owner (mtx s m) = None"
  shows "kinv (L - {MtxQ m}) Q ts (memset_mtx m s)" and "mown (L - {MtxQ m}) T M (memset_mtx m s)"
    and "task (memset_mtx m s) = task s" and "mtx (memset_mtx m s) = (mtx s)(m := \<lparr>owner = None, recur = 0\<rparr>)"
    and "task_current (memset_mtx m s) = task_current s" and "sreg (memset_mtx m s) = sreg s"
    and "isr_nesting (memset_mtx m s) = isr_nesting s" and "sched_lock (memset_mtx m s) = sched_lock s"
    and "sem (memset_mtx m s) = sem s" and "waitqueue_current (memset_mtx m s) = waitqueue_current s"
proof -
  let ?s = "memset_mtx m s"
  have free: "m \<notin> set (M t)" for t using mownD(3) [OF mo(1), of m t] mo(2) by simp
  show "kinv (L - {MtxQ m}) Q ts ?s"
    by (rule kinv_same [OF kinv_memset_queue [OF inv _ e]]) (simp_all add: memset_mtx_def upd_mtx_def Let_def)
  have "dlist (mxh ?s) (MtxList t) (map MtxLink (M t))" if "t \<in> T" for t
  proof -
    have "same_links (mxh s) (mxh ?s) n" if "n \<in> set (MtxList t # map MtxLink (M t))" for n
      using that free [of t] by (auto simp: memset_mtx_def upd_mtx_def memset_taskqueue_def same_links_def set_next_def set_prev_def Let_def)
    then show ?thesis using mownD(1) [OF mo(1) that] dlist_cong [of "MtxList t" "map MtxLink (M t)" "mxh s"] by blast
  qed
  then show "mown (L - {MtxQ m}) T M ?s"
    using mo free unfolding mown_def by (auto simp: memset_mtx_def upd_mtx_def memset_taskqueue_def Let_def)
qed (simp_all add: memset_mtx_def upd_mtx_def memset_taskqueue_def Let_def)

text \<open>The body of \<open>os_mtx_destroy\<close> before the object is cleared.\<close>

definition mtx_evict :: "mtxid \<Rightarrow> kstate \<Rightarrow> kstate kres" where
  "mtx_evict m s =
     (if owner (mtx s m) \<noteq> None
      then os_assert (owner (mtx s m) = Some (task_current s)) s
             (let s = os_mtx_clear_owner m s in kbind (os_mtx_unlock_prio_reset s) (mtx_destroy_loop m))
      else ok s)"

lemma evict_result:
  assumes inv: "kinv L Q ts s" and mi: "minv L T M s" and m: "MtxQ m \<in> L"
    and o: "owner (mtx s m) \<in> {None, Some (task_current s)}"
  shows "\<exists>s' Q' ts'. mtx_evict m s = ok s' \<and> kinv L Q' ts' s' \<and> flat (Q' (MtxQ m)) = [] \<and>
    mown L T (M(task_current s := remove1 m (M (task_current s)))) s' \<and> owner (mtx s' m) = None \<and>
    (\<forall>k. k \<noteq> m \<longrightarrow> mtx s' k = mtx s k) \<and> task_current s' = task_current s \<and> sreg s' = sreg s \<and>
    isr_nesting s' = isr_nesting s \<and> sched_lock s' = sched_lock s \<and> set (flat (Q (MtxQ m))) \<subseteq> set (ready Q') \<and>
    (\<forall>t. task_queue (task s t) = Some (MtxQ m) \<longrightarrow> block_code (task s' t) = OS_DESTROYED) \<and>
    (\<forall>t. task_queue (task s t) \<noteq> Some (MtxQ m) \<longrightarrow>
      task_queue (task s' t) = task_queue (task s t) \<and> timer (task s' t) = timer (task s t)) \<and>
    task s' = (\<lambda>t. if task_queue (task s t) = Some (MtxQ m)
      then (task s t)\<lparr>timer := None, ret_block := retcode_value OS_DESTROYED, state := TASKSTATE_READY, task_queue := Some ReadyQ\<rparr>
      else if t = task_current s \<and> owner (mtx s m) \<noteq> None
      then (task s t)\<lparr>prio_current := reset_prio s (remove1 m (M (task_current s)))\<rparr> else task s t) \<and>
    waitqueue_current s' = waitqueue_current s \<and> sem s' = sem s"
proof (cases "owner (mtx s m)")
  case None
  have nw: "task_queue (task s t) \<noteq> Some (MtxQ m)" for t using minvD(2) [OF mi, of t m] None by auto
  then have "flat (Q (MtxQ m)) = []" using kinv_members [OF inv, of _ "MtxQ m"] by (cases "flat (Q (MtxQ m))") auto
  moreover have "m \<notin> set (M (task_current s))" using mownD(3) [OF minvD(1) [OF mi], of m "task_current s"] None by simp
  then have "mown L T (M(task_current s := remove1 m (M (task_current s)))) s"
    using minvD(1) [OF mi] by (simp add: remove1_idem)
  ultimately show ?thesis using None inv nw by (intro exI [of _ s] exI [of _ Q] exI [of _ ts]) (simp add: mtx_evict_def)
next
  case (Some c)
  then have c: "c = task_current s" using o by simp
  let ?c = "task_current s" and ?p = "reset_prio s (remove1 m (M (task_current s)))"
  have own: "owner (mtx s m) = Some ?c" using Some c by simp
  obtain s1 where s1: "os_mtx_unlock_prio_reset (os_mtx_clear_owner m s) = ok s1" "kinv L Q ts s1"
    "mown L T (M(?c := remove1 m (M ?c))) s1"
    "s1 = s\<lparr>task := (task s)(?c := (task s ?c)\<lparr>prio_current := ?p\<rparr>), mxh := mxh s1, mtx := (mtx s)(m := (mtx s m)\<lparr>owner := None\<rparr>)\<rparr>"
    using release_result [OF inv minvD(1) [OF mi] own refl] by blast
  have f1: "task s1 = (task s)(?c := (task s ?c)\<lparr>prio_current := ?p\<rparr>)" "mtx s1 = (mtx s)(m := (mtx s m)\<lparr>owner := None\<rparr>)"
    "task_current s1 = ?c" "sreg s1 = sreg s" "isr_nesting s1 = isr_nesting s" "sched_lock s1 = sched_lock s"
    "waitqueue_current s1 = waitqueue_current s" "sem s1 = sem s"
    by (subst s1(4), simp)+
  have "\<forall>u. task_queue (task s1 u) = Some (MtxQ m) \<longrightarrow> timer (task s1 u) = None"
    using minvD(2) [OF mi] by (auto simp: f1(1))
  then obtain s' Q' ts' where s': "mtx_destroy_loop m s1 = ok s'" "kinv L Q' ts' s'" "flat (Q' (MtxQ m)) = []"
    "all_woken OS_DESTROYED (MtxQ m) (flat (Q (MtxQ m))) (Q, ts, s1) (Q', ts', s')"
    using destroy_loop_result [OF s1(2) m] by blast
  have run: "mtx_evict m s = ok s'" using own s1(1) s'(1) by (simp add: mtx_evict_def)
  have mem: "t \<in> set (flat (Q (MtxQ m))) \<longleftrightarrow> task_queue (task s t) = Some (MtxQ m)" for t by (rule kinv_members [OF inv])
  have "\<forall>t. task_queue (task s t) = Some (MtxQ m) \<longrightarrow> block_code (task s' t) = OS_DESTROYED"
    using s'(4) mem by (simp add: all_woken_def block_code_def del: retcode_value.simps)
  moreover have "\<forall>t. task_queue (task s t) \<noteq> Some (MtxQ m) \<longrightarrow>
      task_queue (task s' t) = task_queue (task s t) \<and> timer (task s' t) = timer (task s t)"
    using s'(4) mem by (simp add: all_woken_def f1(1))
  moreover have "set (flat (Q (MtxQ m))) \<subseteq> set (ready Q')"
    using kinv_members [OF s'(2), of _ ReadyQ] s'(4) by (auto simp: all_woken_def)
  moreover have "core_frame s1 s'" "task_current s' = ?c" "sreg s' = sreg s" using s'(4) f1(3,4) by (auto simp: all_woken_def)
  moreover have "mown L T (M(?c := remove1 m (M ?c))) s'"
    by (rule mown_cong [OF s1(3)]) (use \<open>core_frame s1 s'\<close> in \<open>simp_all add: core_frame_def\<close>)
  moreover have "task s' = (\<lambda>t. if task_queue (task s t) = Some (MtxQ m)
      then (task s t)\<lparr>timer := None, ret_block := retcode_value OS_DESTROYED, state := TASKSTATE_READY, task_queue := Some ReadyQ\<rparr>
      else if t = task_current s \<and> owner (mtx s m) \<noteq> None then (task s t)\<lparr>prio_current := ?p\<rparr> else task s t)"
    using s'(4) mem sched_invD(4) [OF kinvD(1) [OF inv]] own by (auto simp: all_woken_def f1(1) fun_eq_iff)
  ultimately show ?thesis
    using run s'(2,3) f1(2,5-8) by (intro exI [of _ s'] exI [of _ Q'] exI [of _ ts']) (simp add: core_frame_def)
qed

lemma mtx_destroy_run:
  assumes inv: "kinv L Q ts s" and mi: "minv L T M s" and m: "MtxQ m \<in> L"
    and g: "isr_nesting s = 0" "waitqueue_current s = None" "owner (mtx s m) \<in> {None, Some (task_current s)}"
  shows "\<exists>s1 Q1 ts1. os_mtx_destroy m s = kbind (os_schedule (K_Schedule (sreg s)) 1 s1) (sched_exit (sreg s) Void) \<and>
    kinv (L - {MtxQ m}) Q1 ts1 s1 \<and> minv (L - {MtxQ m}) T (M(task_current s := remove1 m (M (task_current s)))) s1 \<and>
    mtx s1 m = \<lparr>owner = None, recur = 0\<rparr> \<and> (\<forall>k. k \<noteq> m \<longrightarrow> mtx s1 k = mtx s k) \<and>
    task s1 = (\<lambda>t. if task_queue (task s t) = Some (MtxQ m)
      then (task s t)\<lparr>timer := None, ret_block := retcode_value OS_DESTROYED, state := TASKSTATE_READY, task_queue := Some ReadyQ\<rparr>
      else if t = task_current s \<and> owner (mtx s m) \<noteq> None
      then (task s t)\<lparr>prio_current := reset_prio s (remove1 m (M (task_current s)))\<rparr> else task s t) \<and>
    task_current s1 = task_current s \<and> sreg s1 = arch_dint (sreg s) \<and> isr_nesting s1 = 0 \<and>
    sched_lock s1 = sched_lock s \<and> waitqueue_current s1 = None \<and> sem s1 = sem s"
proof -
  let ?s0 = "s\<lparr>sreg := arch_dint (sreg s)\<rparr>" and ?M = "M(task_current s := remove1 m (M (task_current s)))"
  have mi0: "minv L T M ?s0" by (rule minv_cong [OF mi]) simp_all
  have rp: "reset_prio ?s0 = reset_prio s" by (simp add: reset_prio_def inherited_def fun_eq_iff)
  obtain s1 Q1 ts1 where s1: "mtx_evict m ?s0 = ok s1" "kinv L Q1 ts1 s1" "flat (Q1 (MtxQ m)) = []" "mown L T ?M s1"
    "owner (mtx s1 m) = None" "\<forall>k. k \<noteq> m \<longrightarrow> mtx s1 k = mtx s k" "task_current s1 = task_current s"
    "sreg s1 = arch_dint (sreg s)" "isr_nesting s1 = 0" "sched_lock s1 = sched_lock s" "waitqueue_current s1 = None" "sem s1 = sem s"
    "task s1 = (\<lambda>t. if task_queue (task s t) = Some (MtxQ m)
      then (task s t)\<lparr>timer := None, ret_block := retcode_value OS_DESTROYED, state := TASKSTATE_READY, task_queue := Some ReadyQ\<rparr>
      else if t = task_current s \<and> owner (mtx s m) \<noteq> None
      then (task s t)\<lparr>prio_current := reset_prio s (remove1 m (M (task_current s)))\<rparr> else task s t)"
    using evict_result [OF kinv_dint [OF inv] mi0 m] g unfolding rp by (auto cong: if_cong)
  note ms = memset_mtx_result [OF s1(2,3,4,5)]
  have nw: "task_queue (task s1 t) \<noteq> Some (MtxQ m)" for t using kinv_members [OF s1(2), of t "MtxQ m"] s1(3) by simp
  have "minv (L - {MtxQ m}) T ?M (memset_mtx m s1)"
    unfolding minv_def
  proof (intro conjI allI impI ms(2))
    fix t k assume a: "task_queue (task (memset_mtx m s1) t) = Some (MtxQ k)"
    then have k: "k \<noteq> m" "task_queue (task s t) = Some (MtxQ k)" "timer (task s1 t) = timer (task s t)"
      using nw [of t] by (auto simp: ms(3) s1(13) split: if_splits)
    show "owner (mtx (memset_mtx m s1) k) \<noteq> None" "timer (task (memset_mtx m s1) t) = None" "t \<in> T"
      using minvD(2) [OF mi k(2)] k(1,3) s1(6) by (auto simp: ms(3,4))
  qed
  moreover have "os_mtx_destroy m s = kbind (os_schedule (K_Schedule (sreg s)) 1 (memset_mtx m s1)) (sched_exit (sreg s) Void)"
    using g s1(1) by (simp add: os_mtx_destroy_def mtx_evict_def)
  ultimately show ?thesis using ms s1(6-13)
    by (intro exI [of _ "memset_mtx m s1"] exI [of _ Q1] exI [of _ ts1]) auto
qed

text \<open>C23. \<open>os_mtx_destroy\<close> of a free mutex, or by its owner, ends and wakes up every waiting task with the
  code \<open>OS_DESTROYED\<close>; afterwards the mutex is gone from the owner's list and cleared, and the other
  mutexes keep their owners and waiters. The call halts if another task owns the mutex, in an
  interrupt and after \<open>os_waitqueue_prepare\<close>.\<close>

theorem mtx_destroy_wakes_all:
  assumes inv: "kinv L Q ts s" and mi: "minv L T M s" and m: "MtxQ m \<in> L"
  shows "(if isr_nesting s = 0 \<and> waitqueue_current s = None \<and> owner (mtx s m) \<in> {None, Some (task_current s)}
    then \<exists>r s' Q' ts'. os_mtx_destroy m s = ok (r, s') \<and> kinv (L - {MtxQ m}) Q' ts' s' \<and>
      minv (L - {MtxQ m}) T (M(task_current s := remove1 m (M (task_current s)))) s' \<and>
      mtx s' m = \<lparr>owner = None, recur = 0\<rparr> \<and>
      (\<forall>t. task_queue (task s t) = Some (MtxQ m) \<longrightarrow>
        block_code (task s' t) = OS_DESTROYED \<and> (t = task_current s' \<or> t \<in> set (ready Q')))
    else \<exists>s'. os_mtx_destroy m s = fail (Halted s'))"
proof (cases "isr_nesting s = 0 \<and> waitqueue_current s = None \<and> owner (mtx s m) \<in> {None, Some (task_current s)}")
  case False
  then show ?thesis by (auto simp: os_mtx_destroy_def os_assert_def os_halt_def)
next
  case True
  let ?M = "M(task_current s := remove1 m (M (task_current s)))"
  obtain s1 Q1 ts1 where s1: "os_mtx_destroy m s = kbind (os_schedule (K_Schedule (sreg s)) 1 s1) (sched_exit (sreg s) Void)"
    "kinv (L - {MtxQ m}) Q1 ts1 s1" "minv (L - {MtxQ m}) T ?M s1" "mtx s1 m = \<lparr>owner = None, recur = 0\<rparr>"
    "\<forall>t. task_queue (task s t) = Some (MtxQ m) \<longrightarrow> block_code (task s1 t) = OS_DESTROYED \<and> task_queue (task s1 t) = Some ReadyQ"
    "sreg s1 = arch_dint (sreg s)"
    using mtx_destroy_run [OF inv mi m] True by (fastforce simp: block_code_def simp del: retcode_value.simps)
  obtain r s' Q' where s': "kbind (os_schedule (K_Schedule (sreg s)) 1 s1) (sched_exit (sreg s) Void) = ok (r, s')"
    "kinv (L - {MtxQ m}) Q' ts1 s'" "sched_frame s1 s'" "same_tasks s1 s'" "\<forall>q. q \<noteq> ReadyQ \<longrightarrow> Q' q = Q1 q"
    "insert (task_current s') (set (ready Q')) = insert (task_current s1) (set (ready Q1))"
    using kinv_schedule_exit [OF s1(2), of "K_Schedule (sreg s)" 1 "sreg s" Void] s1(6) by auto
  have "minv (L - {MtxQ m}) T ?M s'" by (rule minv_switch [OF s1(3,2) s'(2,5,3,4)])
  moreover have "mtx s' m = \<lparr>owner = None, recur = 0\<rparr>" using s'(3) s1(4) by (simp add: sched_frame_iff)
  moreover have "block_code (task s' t) = OS_DESTROYED \<and> (t = task_current s' \<or> t \<in> set (ready Q'))"
    if "task_queue (task s t) = Some (MtxQ m)" for t
  proof -
    have "t \<in> set (ready Q1)" using s1(5) that kinv_members [OF s1(2), of t ReadyQ] by simp
    then show ?thesis using s1(5) s'(4,6) that by (auto simp: same_tasks_def same_tcb_def block_code_def)
  qed
  ultimately show ?thesis using True s'(1,2) s1(1) by auto
qed

section \<open>Creation, recursion and resumption\<close>

lemma minv_grow:
  assumes "minv L T M s" and "L \<subseteq> L'" and "mxh s' = mxh s" "mtx s' = mtx s" "task s' = task s"
  shows "minv L' T M s'"
  using assms unfolding minv_def mown_def by auto

lemma mtx_create_result:
  assumes inv: "kinv L Q ts s" and mi: "minv L T M s" and m: "MtxQ m \<notin> L"
    and g: "isr_nesting s = 0" "waitqueue_current s = None"
  shows "\<exists>s'. os_mtx_create m s = ok s' \<and> kinv (insert (MtxQ m) L) Q ts s' \<and> minv (insert (MtxQ m) L) T M s' \<and>
    mtx s' m = \<lparr>owner = None, recur = 0\<rparr> \<and> task s' = task s \<and> task_current s' = task_current s \<and>
    sreg s' = sreg s \<and> isr_nesting s' = 0 \<and> sched_lock s' = sched_lock s \<and> waitqueue_current s' = None \<and> sem s' = sem s"
proof -
  have none: "owner (mtx s m) = None"
    using mownD(3,4) [OF minvD(1) [OF mi]] m by (cases "owner (mtx s m)") auto
  note ms = memset_mtx_result [OF inv kinv_init_queue(2) [OF inv m] minvD(1) [OF mi] none]
  have L: "L - {MtxQ m} = L" using m by simp
  let ?s' = "os_taskqueue_init (MtxQ m) (memset_mtx m s)"
  have "minv L T M (memset_mtx m s)"
    by (rule minv_transfer [OF mi ms(2) [unfolded L], where m = m])
      (use minvD(2) [OF mi, of _ m] none in \<open>auto simp: ms(3,4)\<close>)
  then have "minv (insert (MtxQ m) L) T M ?s'"
    by (rule minv_grow) (auto simp: os_taskqueue_init_def Let_def)
  then show ?thesis
    using kinv_init_only [OF ms(1) [unfolded L] m] g ms(3-10)
    by (intro exI [of _ ?s']) (simp add: os_mtx_create_def os_taskqueue_init_def Let_def)
qed

lemma mtx_lock_resume_result:
  assumes inv: "kinv L Q ts s"
  shows "\<exists>s'. os_mtx_lock_resume c s = (block_code (task s (task_current s)), s') \<and> kinv L Q ts s' \<and>
    sreg s' = c \<and> task_current s' = task_current s \<and> core_frame s s' \<and>
    task s' = (task s)(task_current s := (task s (task_current s))\<lparr>state := TASKSTATE_RUNNING\<rparr>)"
proof -
  let ?s1 = "upd_task (task_current s) (\<lambda>k. k\<lparr>state := TASKSTATE_RUNNING\<rparr>) s"
  have "kinv L Q ts ?s1" by (rule kinv_running [OF inv])
  then show ?thesis
    using kinv_dint [of L Q ts ?s1 c]
    by (intro exI [of _ "?s1\<lparr>sreg := c\<rparr>"]) (simp add: os_mtx_lock_resume_def block_code_def core_frame_def task_upd_task)
qed

text \<open>\<open>n\<close> calls in a row, as long as they return.\<close>

fun calls :: "nat \<Rightarrow> (kstate \<Rightarrow> (apival outcome \<times> kstate) kres) \<Rightarrow> kstate \<Rightarrow> kstate kres" where
  "calls 0 f s = ok s"
| "calls (Suc n) f s = kbind (f s) (\<lambda>(r, s). calls n f s)"

lemma lock_own_n:
  assumes "isr_nesting s = 0" "task_current s \<noteq> task_idle" "waitqueue_current s = None"
    "owner (mtx s m) = Some (task_current s)"
  shows "calls n (os_mtx_lock m) s = ok (upd_mtx m (\<lambda>k. k\<lparr>recur := recur k + word_of_nat n\<rparr>) s)"
  using assms
proof (induction n arbitrary: s)
  case (Suc n)
  show ?case using Suc.IH [of "upd_mtx m (\<lambda>k. k\<lparr>recur := recur k + 1\<rparr>) s"] Suc.prems lock_own [OF Suc.prems]
    by (simp add: upd_mtx_def add_ac)
qed (simp add: upd_mtx_def)

text \<open>C22. Recursive locking round trip: the owner of a mutex may lock it \<open>n\<close> times more and unlock it \<open>n\<close>
  times, which restores the state exactly, as long as the 8 bit recursion count does not pass 255.
  At 255 the next lock wraps the count to 0.\<close>

theorem mtx_recursion_roundtrip:
  assumes "isr_nesting s = 0" "task_current s \<noteq> task_idle" "waitqueue_current s = None"
    "owner (mtx s m) = Some (task_current s)"
  shows "(0 < recur (mtx s m) \<and> unat (recur (mtx s m)) + n \<le> 255 \<longrightarrow>
      (\<exists>s1. calls n (os_mtx_lock m) s = ok s1 \<and> unat (recur (mtx s1 m)) = unat (recur (mtx s m)) + n \<and>
        calls n (os_mtx_unlock m) s1 = ok s)) \<and>
    (recur (mtx s m) = 255 \<longrightarrow> (\<exists>s1. os_mtx_lock m s = ok (Return (Code OS_OK), s1) \<and> recur (mtx s1 m) = 0))"
proof (intro conjI impI)
  have undo: "calls n (os_mtx_unlock m) (upd_mtx m (\<lambda>k. k\<lparr>recur := recur k + word_of_nat n\<rparr>) s) = ok s"
    if "0 < recur (mtx s m)" "unat (recur (mtx s m)) + n \<le> 255" for n
    using that
  proof (induction n)
    case (Suc n)
    let ?s = "upd_mtx m (\<lambda>k. k\<lparr>recur := recur k + word_of_nat (Suc n)\<rparr>) s"
    have "unat (recur (mtx s m) + word_of_nat n) = unat (recur (mtx s m)) + n"
      using Suc.prems by (simp add: unat_word_ariths unat_of_nat)
    then have "0 < recur (mtx s m) + word_of_nat n" using Suc.prems by (simp add: word_less_nat_alt)
    then have "os_mtx_unlock m ?s = ok (Return Void, upd_mtx m (\<lambda>k. k\<lparr>recur := recur k + word_of_nat n\<rparr>) s)"
      using assms by (cases s) (simp add: os_mtx_unlock_def upd_mtx_def add_ac)
    then show ?case using Suc by simp
  qed (simp add: upd_mtx_def)
  assume a: "0 < recur (mtx s m) \<and> unat (recur (mtx s m)) + n \<le> 255"
  then have "unat (recur (mtx s m) + word_of_nat n) = unat (recur (mtx s m)) + n"
    by (simp add: unat_word_ariths unat_of_nat)
  then show "\<exists>s1. calls n (os_mtx_lock m) s = ok s1 \<and> unat (recur (mtx s1 m)) = unat (recur (mtx s m)) + n \<and>
      calls n (os_mtx_unlock m) s1 = ok s"
    using lock_own_n [OF assms] undo [of n] a by (simp add: upd_mtx_def)
next
  assume "recur (mtx s m) = 255"
  then show "\<exists>s1. os_mtx_lock m s = ok (Return (Code OS_OK), s1) \<and> recur (mtx s1 m) = 0"
    using lock_own [OF assms] by (simp add: upd_mtx_def)
qed

section \<open>The boost can lower a priority\<close>

text \<open>Task 3 (priority 1) owns mutex 0 and waits for mutex 1 of task 4, whose own priority is 3. When
  task 2 (priority 2) locks mutex 0, the boost of the chain sets task 4 from 3 down to 2, although
  task 4 was not boosted at all.\<close>

definition lower_demo :: kstate where
  "lower_demo = boot\<lparr>task_current := 2,
     task := (\<lambda>t. if t = 2 then zero_task\<lparr>prio_base := 2, prio_current := 2\<rparr>
       else if t = 3 then zero_task\<lparr>prio_base := 1, prio_current := 1, state := TASKSTATE_WAIT,
         task_queue := Some (MtxQ 1), block_type := OS_TASKBLOCK_MTX\<rparr>
       else if t = 4 then zero_task\<lparr>prio_base := 3, prio_current := 3, state := TASKSTATE_READY\<rparr>
       else zero_task),
     mtx := (\<lambda>m. \<lparr>owner = Some (if m = 0 then 3 else 4), recur = 1\<rparr>),
     qmask := (\<lambda>q. if q = MtxQ 1 then 2 else 0),
     tqh := \<lparr>lnext = (\<lambda>n. if n = Bucket (MtxQ 1) 1 then TaskLink 3
               else if n = TaskLink 3 then Bucket (MtxQ 1) 1 else n),
             lprev = (\<lambda>n. if n = Bucket (MtxQ 1) 1 then TaskLink 3
               else if n = TaskLink 3 then Bucket (MtxQ 1) 1 else n)\<rparr>\<rparr>"

lemma boost_lowers_owner:
  "prio_base (task lower_demo 4) = 3 \<and> prio_current (task lower_demo 4) = 3 \<and>
   (case os_mtx_lock_prio_boost 0 lower_demo of
      Some (Inr s') \<Rightarrow> prio_current (task s' 3) = 2 \<and> prio_current (task s' 4) = 2
    | _ \<Rightarrow> False)"
  by code_simp

section \<open>Witnesses\<close>

text \<open>Task 2 runs and mutex 0 belongs to task \<open>t\<close>.\<close>

definition demo_mtx :: "tid \<Rightarrow> kstate" where
  "demo_mtx t = os_mtx_set_owner 0 t (os_taskqueue_init (MtxQ 0)
     (demo_sem\<lparr>mxh := list_init (MtxList 3) (mxh demo_sem)\<rparr>))"

lemma demo_mtx_invs:
  assumes "t \<in> {2, 3}"
  shows "kinv {MtxQ 0, ReadyQ, SemQ (UserSem 0)} demo_queues [] (demo_mtx t)"
    and "minv {MtxQ 0, ReadyQ, SemQ (UserSem 0)} {2, 3} ((\<lambda>_. [])(t := [0])) (demo_mtx t)"
    and "mtx (demo_mtx t) 0 = \<lparr>owner = Some t, recur = 1\<rparr>"
proof -
  let ?s1 = "demo_sem\<lparr>mxh := list_init (MtxList 3) (mxh demo_sem)\<rparr>" and ?L = "{MtxQ 0, ReadyQ, SemQ (UserSem 0)}"
  let ?s2 = "os_taskqueue_init (MtxQ 0) ?s1"
  have "kinv {ReadyQ, SemQ (UserSem 0)} demo_queues [] ?s1" by (rule kinv_same [OF demo_sem_kinv]) simp_all
  then have inv2: "kinv ?L demo_queues [] ?s2" by (rule kinv_init_only) simp
  have mt: "mtx demo_sem = (\<lambda>_. \<lparr>owner = None, recur = 0\<rparr>)" "task demo_sem = task demo_running"
    using makeready_fields(2) [of "upd_task 2 (\<lambda>k. k\<lparr>prio_base := 2, prio_current := 2\<rparr>) (os_init boot)" 0]
    by (simp_all add: demo_sem_def demo_running_def os_taskqueue_init_def Let_def tq_frame_iff os_init_def
        os_timers_init_def os_task_init_def upd_task_def boot_def)
  have "dlist (mxh ?s1) (MtxList u) []" if "u \<in> {2, 3}" for u
    using that by (auto simp: demo_sem_def dlist_Nil list_init_def set_next_def set_prev_def)
  then have mo: "mown ?L {2, 3} (\<lambda>_. []) ?s2" by (auto simp: mown_def mt os_taskqueue_init_def Let_def)
  have "owner (mtx ?s2 0) = None" by (simp add: mt os_taskqueue_init_def Let_def)
  note so = set_owner_result [OF mo assms this _ refl, folded demo_mtx_def, simplified]
  have f: "mtx (demo_mtx t) 0 = \<lparr>owner = Some t, recur = 1\<rparr>" "task (demo_mtx t) = task demo_running"
    by (simp_all add: demo_mtx_def os_mtx_set_owner_def upd_mtx_def mt os_taskqueue_init_def Let_def)
  show "mtx (demo_mtx t) 0 = \<lparr>owner = Some t, recur = 1\<rparr>" by (rule f)
  show "kinv ?L demo_queues [] (demo_mtx t)"
    by (rule kinv_same [OF inv2]) (simp_all add: demo_mtx_def os_mtx_set_owner_def upd_mtx_def)
  show "minv ?L {2, 3} ((\<lambda>_. [])(t := [0])) (demo_mtx t)"
    using so(1) by (simp add: minv_def f demo_running_fields zero_task_def)
qed

lemma demo_mtx_fields:
  "task_current (demo_mtx t) = 2" "isr_nesting (demo_mtx t) = 0" "waitqueue_current (demo_mtx t) = None"
  "sched_lock (demo_mtx t) = 0" "task (demo_mtx t) = task demo_running"
  by (simp_all add: demo_mtx_def os_mtx_set_owner_def upd_mtx_def os_taskqueue_init_def Let_def demo_sem_fields)
    (simp add: demo_sem_def)

lemma demo_mtx_task:
  "timer (task (demo_mtx t) 2) = None" "prio_current (task (demo_mtx t) 2) = 2" "prio_current (task (demo_mtx t) 3) = 0"
  "bchain (demo_mtx t) [3]"
  by (simp_all add: demo_mtx_fields demo_running_fields zero_task_def waits_mtx_def)

lemma demo_owners: "(2 :: tid) \<in> {2, 3}" "(3 :: tid) \<in> {2, 3}"
  by simp_all

lemmas demo2 = demo_mtx_invs [OF demo_owners(1)] and demo3 = demo_mtx_invs [OF demo_owners(2)]

theorem mtx_lock_cases_witness:
  "\<exists>s'. os_mtx_lock 0 (demo_mtx 3) = ok (Switched, s') \<and> prio_current (task s' 3) = 2"
proof -
  have "isr_nesting (demo_mtx 3) = 0 \<and> task_current (demo_mtx 3) \<noteq> task_idle \<and> waitqueue_current (demo_mtx 3) = None"
    by (simp add: demo_mtx_fields task_idle_def)
  then show ?thesis
    using mtx_lock_cases [OF demo3(1,2), of 0] demo3(3) demo_mtx_fields(1) demo_mtx_task [of 3]
    by (auto dest!: spec [of _ "[]"])
qed

theorem mtx_lock_returns_iff_witness: "\<exists>r. os_mtx_lock 0 (demo_mtx 3) = Some r"
proof -
  have "task_current (demo_mtx 3) \<in> {2, 3}" "timer (task (demo_mtx 3) (task_current (demo_mtx 3))) = None"
    "task_current (demo_mtx 3) \<noteq> task_idle" "owner (mtx (demo_mtx 3) 0) = Some 3" "3 \<noteq> task_current (demo_mtx 3)"
    "prio_current (task (demo_mtx 3) 3) < prio_current (task (demo_mtx 3) (task_current (demo_mtx 3)))"
    by (simp_all add: demo_mtx_fields(1) demo_mtx_task demo3(3) task_idle_def)
  note m = mtx_lock_returns_iff [OF demo3(1,2) _ this(1,2) demo_mtx_fields(2) this(3) demo_mtx_fields(3) this(4-6)]
  show ?thesis by (rule m [THEN conjunct1, THEN iffD2]) (simp, rule exI, rule demo_mtx_task(4))
qed

theorem mtx_unlock_transfers_witness:
  "\<exists>s'. os_mtx_unlock 0 (demo_mtx 2) = ok (Return Void, s') \<and> owner (mtx s' 0) = None"
proof -
  have "isr_nesting (demo_mtx 2) = 0 \<and> owner (mtx (demo_mtx 2) 0) = Some (task_current (demo_mtx 2)) \<and>
      waitqueue_current (demo_mtx 2) = None"
    by (simp add: demo_mtx_fields demo2(3))
  moreover have "flat (demo_queues (MtxQ 0)) = []" by (simp add: bucket_upd_def flat_upto_def)
  ultimately show ?thesis
    using mtx_unlock_transfers [OF demo2(1,2), of 0] demo2(3) by auto
qed

theorem mtx_destroy_wakes_all_witness:
  "\<exists>r s'. os_mtx_destroy 0 (demo_mtx 2) = ok (r, s') \<and> owner (mtx s' 0) = None"
proof -
  have "isr_nesting (demo_mtx 2) = 0 \<and> waitqueue_current (demo_mtx 2) = None \<and>
      owner (mtx (demo_mtx 2) 0) \<in> {None, Some (task_current (demo_mtx 2))}"
    by (simp add: demo_mtx_fields demo2(3))
  then show ?thesis using mtx_destroy_wakes_all [OF demo2(1,2), of 0] by auto
qed

theorem mtx_recursion_roundtrip_witness:
  "\<exists>s1. calls 5 (os_mtx_lock 0) (demo_mtx 2) = ok s1 \<and> calls 5 (os_mtx_unlock 0) s1 = ok (demo_mtx 2)"
  using mtx_recursion_roundtrip [of "demo_mtx 2" 0 5] demo2(3)
  by (auto simp: demo_mtx_fields task_idle_def)

end
