(* ===== verification/Waitqueue.thy ===== *)
theory Waitqueue
  imports Sem
begin

text \<open>
  The wait queues of \<^verbatim>\<open>os_waitqueue.c\<close>. A task first prepares (the scheduler is locked and
  \<open>waitqueue_current\<close> is set), checks its condition, and then waits or breaks; an interrupt
  in between may wake it by clearing \<open>waitqueue_current\<close>.
\<close>

section \<open>Model\<close>

definition os_waitqueue_create :: "wqid \<Rightarrow> kstate \<Rightarrow> kstate kres" where
  "os_waitqueue_create w s =
     os_assert (waitqueue_current s = None) s
       (let s = memset_taskqueue (WaitQ w) s
        in ok (os_taskqueue_init (WaitQ w) s))"

definition os_waitqueue_destroy :: "wqid \<Rightarrow> kstate \<Rightarrow> (apival outcome \<times> kstate) kres" where
  "os_waitqueue_destroy w s =
     os_assert (waitqueue_current s = None) s
       (let (cristate, s) = os_critical_enter s
        in kbind (wakeup_all_loop (WaitQ w) s)
             (\<lambda>s. let s = memset_taskqueue (WaitQ w) s
                  in kbind (os_schedule (K_Schedule cristate) 1 s) (sched_exit cristate Void)))"

definition os_waitqueue_prepare :: "wqid \<Rightarrow> kstate \<Rightarrow> kstate kres" where
  "os_waitqueue_prepare w s =
     os_assert (0 = isr_nesting s) s
     (os_assert (task_current s \<noteq> task_idle) s
     (os_assert (list_is_empty (MtxList (task_current s)) (mxh s)) s
     (os_assert (waitqueue_current s = None) s
       (kbind (os_scheduler_lock s)
          (\<lambda>s. let (w', r) = os_atomic_store (sreg s) (Some w) (waitqueue_current s)
               in ok (s\<lparr>waitqueue_current := w', sreg := r\<rparr>))))))"

definition os_waitqueue_break :: "kstate \<Rightarrow> (apival outcome \<times> kstate) kres" where
  "os_waitqueue_break s =
     os_assert (0 = isr_nesting s) s
       (let (w', r) = os_atomic_store (sreg s) None (waitqueue_current s);
            s = s\<lparr>waitqueue_current := w', sreg := r\<rparr>
        in os_scheduler_unlock False s)"

definition os_waitqueue_wait :: "u16 \<Rightarrow> kstate \<Rightarrow> (apival outcome \<times> kstate) kres" where
  "os_waitqueue_wait timeout_ticks s =
     os_assert (0 = isr_nesting s) s
     (os_assert (task_current s \<noteq> task_idle) s
     (os_assert (timeout_ticks > OS_TIMEOUT_TRY) s
     (os_assert (list_is_empty (MtxList (task_current s)) (mxh s)) s
       (let (cristate, s) = os_critical_enter s;
            s = s\<lparr>sched_lock := sched_lock s - 1\<rparr>
        in case waitqueue_current s of
             Some w \<Rightarrow>
               kbind (if OS_TIMEOUT_INFINITE \<noteq> timeout_ticks
                      then os_blocktimer_create (BlockTimer (task_current s)) WaitqueueTimerClbck
                             timeout_ticks s
                      else ok s)
                 (\<lambda>s. let s = s\<lparr>waitqueue_current := None\<rparr>
                      in kbind (os_task_block_switch (K_WaitqueueWait cristate) (WaitQ w)
                                  OS_TASKBLOCK_WAITQUEUE s)
                           (\<lambda>s. ok (Switched, s)))
           | None \<Rightarrow>
               let ret = block_code (task s (task_current s))
               in ok (Return (Code ret), os_critical_exit cristate s)))))"

text \<open>The rest of \<open>os_task_block_switch\<close> and \<open>os_waitqueue_wait\<close>, run when the task is
  resumed.\<close>

definition os_waitqueue_wait_resume :: "u8 \<Rightarrow> kstate \<Rightarrow> (os_retcode \<times> kstate) kres" where
  "os_waitqueue_wait_resume cristate s =
     (let s = upd_task (task_current s) (\<lambda>k. k\<lparr>state := TASKSTATE_RUNNING\<rparr>) s
      in kbind (os_blocktimer_destroy (task_current s) s)
           (\<lambda>s. let ret = block_code (task s (task_current s))
                in ok (ret, os_critical_exit cristate s)))"

text \<open>The wake-up loop: \<open>wakeup_cnt\<close> is tested and decremented by the loop condition. The
  result is the flag \<open>awoken\<close>.\<close>

partial_function (option) waitqueue_wakeup_loop ::
  "wqid \<Rightarrow> u8 \<Rightarrow> bool \<Rightarrow> kstate \<Rightarrow> (bool \<times> kstate) kres" where
  "waitqueue_wakeup_loop w wakeup_cnt awoken s =
     (if OS_WAITQUEUE_ALL = wakeup_cnt \<or> wakeup_cnt > 0
      then let wakeup_cnt = (if OS_WAITQUEUE_ALL = wakeup_cnt then wakeup_cnt else wakeup_cnt - 1)
           in kbind (os_taskqueue_dequeue (WaitQ w) s)
                (\<lambda>(t, s). case t of
                   None \<Rightarrow> ok (awoken, s)
                 | Some t \<Rightarrow>
                     kbind (os_blocktimer_destroy t s)
                       (\<lambda>s. let s = upd_task t (set_block_code OS_OK) s
                            in waitqueue_wakeup_loop w wakeup_cnt True (os_task_makeready t s)))
      else ok (awoken, s))"

definition os_waitqueue_wakeup_sync ::
  "wqid \<Rightarrow> u8 \<Rightarrow> bool \<Rightarrow> kstate \<Rightarrow> (apival outcome \<times> kstate) kres" where
  "os_waitqueue_wakeup_sync w wakeup_cnt sync s =
     os_assert (isr_nesting s > 0 \<or> waitqueue_current s = None) s
     (os_assert (isr_nesting s = 0 \<or> sync = False) s
     (os_assert (wakeup_cnt > 0) s
       (let (cristate, s) = os_critical_enter s;
            (wakeup_cnt, s) =
              (if isr_nesting s > 0 \<and> waitqueue_current s = Some w
               then let s = s\<lparr>waitqueue_current := None\<rparr>
                    in (if OS_WAITQUEUE_ALL \<noteq> wakeup_cnt then wakeup_cnt - 1 else wakeup_cnt, s)
               else (wakeup_cnt, s))
        in kbind (waitqueue_wakeup_loop w wakeup_cnt False s)
             (\<lambda>(awoken, s).
                if \<not> sync \<and> awoken
                then kbind (os_schedule (K_Schedule cristate) 1 s) (sched_exit cristate Void)
                else ok (Return Void, os_critical_exit cristate s)))))"

definition os_waitqueue_wakeup :: "wqid \<Rightarrow> u8 \<Rightarrow> kstate \<Rightarrow> (apival outcome \<times> kstate) kres" where
  "os_waitqueue_wakeup w nbr s = os_waitqueue_wakeup_sync w nbr False s"

definition os_waitqueue_timerclbck :: "timer_param \<Rightarrow> kstate \<Rightarrow> kstate kres" where
  "os_waitqueue_timerclbck prm s =
     (case prm of
        UserParam _ \<Rightarrow> fail Null_deref
      | TaskParam t \<Rightarrow>
          os_assert (TASKSTATE_WAIT = state (task s t)) s
            (kbind (os_taskqueue_unlink t s)
               (\<lambda>s. let s = upd_task t (set_block_code OS_TIMEOUT) s
                    in ok (os_task_makeready t s))))"

section \<open>Waking up a number of tasks\<close>

text \<open>The tasks the loop is going to wake up: all, or the first \<open>n\<close>.\<close>

definition to_wake :: "u8 \<Rightarrow> tid list \<Rightarrow> tid list" where
  "to_wake n us = (if n = OS_WAITQUEUE_ALL then us else take (unat n) us)"

definition counted :: "qid set \<Rightarrow> qid \<Rightarrow> tid list \<Rightarrow> u8 \<times> bool \<times> gstate \<Rightarrow> bool" where
  "counted L q us = (\<lambda>(n, aw, Q, ts, s). waiters L q (flat (Q q)) (Q, ts, s) \<and> us = to_wake n (flat (Q q)))"

definition count_woken :: "qid \<Rightarrow> tid list \<Rightarrow> u8 \<times> bool \<times> gstate \<Rightarrow> u8 \<times> bool \<times> gstate \<Rightarrow> bool" where
  "count_woken q us = (\<lambda>(n, aw, x) (n', aw', x'). aw' = (aw \<or> us \<noteq> []) \<and> all_woken OS_OK q us x x')"

lemma wakeup_loop_wake:
  "waitqueue_wakeup_loop w n aw s =
     (if n = OS_WAITQUEUE_ALL \<or> n > 0
      then kbind (os_taskqueue_dequeue (WaitQ w) s) (\<lambda>(t, s). case t of
          None \<Rightarrow> ok (aw, s)
        | Some t \<Rightarrow> kbind (wake OS_OK t s) (waitqueue_wakeup_loop w (if n = OS_WAITQUEUE_ALL then n else n - 1) True))
      else ok (aw, s))"
  by (subst waitqueue_wakeup_loop.simps) (auto simp: wake_then Let_def cong: option.case_cong)

lemma to_wake_Cons:
  assumes "to_wake n us = t # vs"
  shows "n = OS_WAITQUEUE_ALL \<or> n > 0" and "us = t # tl us"
    and "vs = to_wake (if n = OS_WAITQUEUE_ALL then n else n - 1) (tl us)"
proof -
  have n: "n \<noteq> OS_WAITQUEUE_ALL \<Longrightarrow> n > 0" using assms by (auto simp: to_wake_def word_gt_0)
  then show "n = OS_WAITQUEUE_ALL \<or> n > 0" by blast
  show us: "us = t # tl us"
    using assms by (cases us) (auto simp: to_wake_def take_Cons split: if_splits nat.splits)
  have "unat (n - 1) = unat n - 1" if "n > 0" using that by (simp add: unat_minus_one word_gt_0)
  moreover have "n - 1 \<noteq> OS_WAITQUEUE_ALL" if "n > 0" using that by (auto simp: OS_WAITQUEUE_ALL_def)
  ultimately show "vs = to_wake (if n = OS_WAITQUEUE_ALL then n else n - 1) (tl us)"
    using assms n by (subst (asm) us) (auto simp: to_wake_def take_Cons' split: if_splits)
qed

interpretation wqwake: drain "counted L (WaitQ w)" "\<lambda>(n, aw, Q, ts, s). waitqueue_wakeup_loop w n aw s"
  "\<lambda>(n, aw, Q, ts, s). ok (aw, s)" "count_woken (WaitQ w)" for L w
proof unfold_locales
  fix x :: "u8 \<times> bool \<times> gstate"
  assume c: "counted L (WaitQ w) [] x"
  obtain n aw Q ts s where x: "x = (n, aw, Q, ts, s)" by (cases x) auto
  show "(case x of (n, aw, Q, ts, s) \<Rightarrow> waitqueue_wakeup_loop w n aw s) = (case x of (n, aw, Q, ts, s) \<Rightarrow> ok (aw, s))"
  proof (cases "n = OS_WAITQUEUE_ALL \<or> n > 0")
    case True
    have "flat (Q (WaitQ w)) = []"
      using c True by (auto simp: x counted_def to_wake_def word_gt_0 unat_eq_0 split: if_splits)
    then have "os_taskqueue_dequeue (WaitQ w) s = ok (None, s)" using c no_waiter by (auto simp: x counted_def)
    then show ?thesis by (simp add: x wakeup_loop_wake)
  qed (simp add: x wakeup_loop_wake)
next
  fix t us and x :: "u8 \<times> bool \<times> gstate"
  obtain n aw Q ts s where x: "x = (n, aw, Q, ts, s)" by (cases x) auto
  assume c: "counted L (WaitQ w) (t # us) x"
  then have tw: "to_wake n (flat (Q (WaitQ w))) = t # us" by (simp add: x counted_def)
  note tw = to_wake_Cons [OF tw]
  let ?n = "if n = OS_WAITQUEUE_ALL then n else n - 1"
  have "waiters L (WaitQ w) (t # tl (flat (Q (WaitQ w)))) (Q, ts, s)" using c tw(2) by (simp add: x counted_def)
  from wake_first_waiter [OF this, of OS_OK] obtain s1 Q' ts' s' where
    s1: "os_taskqueue_dequeue (WaitQ w) s = ok (Some t, s1)" "wake OS_OK t s1 = ok s'"
      "waiters L (WaitQ w) (tl (flat (Q (WaitQ w)))) (Q', ts', s')" "all_woken OS_OK (WaitQ w) [t] (Q, ts, s) (Q', ts', s')"
    by blast
  have "flat (Q' (WaitQ w)) = tl (flat (Q (WaitQ w)))" using s1(3) by (simp add: waiters_def)
  then have "counted L (WaitQ w) us (?n, True, Q', ts', s')" using s1(3) tw(3) by (simp add: counted_def)
  then show "\<exists>x'. (case x of (n, aw, Q, ts, s) \<Rightarrow> waitqueue_wakeup_loop w n aw s) =
        (case x' of (n, aw, Q, ts, s) \<Rightarrow> waitqueue_wakeup_loop w n aw s) \<and>
      counted L (WaitQ w) us x' \<and> count_woken (WaitQ w) [t] x x'"
    using s1 tw(1) by (intro exI [of _ "(?n, True, Q', ts', s')"]) (simp add: x wakeup_loop_wake [of w n] count_woken_def)
next
  fix x show "count_woken (WaitQ w) [] x x" by (auto simp: count_woken_def all_woken_nil split: prod.splits)
next
  fix t x x' us x''
  assume "count_woken (WaitQ w) [t] x x'" "count_woken (WaitQ w) us x' x''"
  then show "count_woken (WaitQ w) (t # us) x x''"
    by (auto simp: count_woken_def split: prod.splits intro: all_woken_cons)
qed

lemma wakeup_loop_result:
  assumes "kinv L Q ts s" and "WaitQ w \<in> L"
  shows "\<exists>s' Q' ts'. waitqueue_wakeup_loop w n False s = ok (to_wake n (flat (Q (WaitQ w))) \<noteq> [], s') \<and>
    kinv L Q' ts' s' \<and> all_woken OS_OK (WaitQ w) (to_wake n (flat (Q (WaitQ w)))) (Q, ts, s) (Q', ts', s')"
proof -
  have "counted L (WaitQ w) (to_wake n (flat (Q (WaitQ w)))) (n, False, Q, ts, s)"
    using assms by (simp add: counted_def waiters_def)
  from wqwake.drains [OF this] show ?thesis by (fastforce simp: counted_def count_woken_def waiters_def)
qed

text \<open>The call: the waiters are woken up, then the scheduler runs if there were any and the caller did
  not ask for synchronous mode.\<close>

lemma wakeup_sync_run:
  assumes inv: "kinv L Q ts s" and w: "WaitQ w \<in> L"
    and g: "isr_nesting s > 0 \<or> waitqueue_current s = None" "isr_nesting s = 0 \<or> \<not> sync" "cnt > 0"
    and hit: "hit = (isr_nesting s > 0 \<and> waitqueue_current s = Some w)"
    and us: "us = to_wake (if hit \<and> cnt \<noteq> OS_WAITQUEUE_ALL then cnt - 1 else cnt) (flat (Q (WaitQ w)))"
    and s0: "s0 = (if hit then s\<lparr>sreg := arch_dint (sreg s), waitqueue_current := None\<rparr> else s\<lparr>sreg := arch_dint (sreg s)\<rparr>)"
  shows "\<exists>s1 Q1 ts1. kinv L Q1 ts1 s1 \<and> all_woken OS_OK (WaitQ w) us (Q, ts, s0) (Q1, ts1, s1) \<and>
    os_waitqueue_wakeup_sync w cnt sync s = (if \<not> sync \<and> us \<noteq> []
      then kbind (os_schedule (K_Schedule (sreg s)) 1 s1) (sched_exit (sreg s) Void)
      else ok (Return Void, s1\<lparr>sreg := sreg s\<rparr>))"
proof -
  let ?n = "if hit \<and> cnt \<noteq> OS_WAITQUEUE_ALL then cnt - 1 else cnt"
  have inv0: "kinv L Q ts s0" unfolding s0 by (cases hit) (auto intro!: kinv_same [OF inv])
  obtain s1 Q1 ts1 where s1: "waitqueue_wakeup_loop w ?n False s0 = ok (us \<noteq> [], s1)" "kinv L Q1 ts1 s1"
    "all_woken OS_OK (WaitQ w) us (Q, ts, s0) (Q1, ts1, s1)"
    using wakeup_loop_result [OF inv0 w, of ?n] unfolding us by blast
  have "os_waitqueue_wakeup_sync w cnt sync s = kbind (waitqueue_wakeup_loop w ?n False s0) (\<lambda>(awoken, s1).
      if \<not> sync \<and> awoken then kbind (os_schedule (K_Schedule (sreg s)) 1 s1) (sched_exit (sreg s) Void)
      else ok (Return Void, os_critical_exit (sreg s) s1))"
    unfolding s0 using g hit [symmetric]
    by (cases hit; cases "cnt = OS_WAITQUEUE_ALL") (simp_all add: os_waitqueue_wakeup_sync_def, blast+)
  then have "os_waitqueue_wakeup_sync w cnt sync s = (if \<not> sync \<and> us \<noteq> []
      then kbind (os_schedule (K_Schedule (sreg s)) 1 s1) (sched_exit (sreg s) Void)
      else ok (Return Void, s1\<lparr>sreg := sreg s\<rparr>))"
    unfolding s1(1) by simp
  then show ?thesis using s1(2,3) by blast
qed

lemma wakeup_sync_result:
  assumes inv: "kinv L Q ts s" and w: "WaitQ w \<in> L"
    and g: "isr_nesting s > 0 \<or> waitqueue_current s = None" "isr_nesting s = 0 \<or> \<not> sync" "cnt > 0"
    and hit: "hit = (isr_nesting s > 0 \<and> waitqueue_current s = Some w)"
    and us: "us = to_wake (if hit \<and> cnt \<noteq> OS_WAITQUEUE_ALL then cnt - 1 else cnt) (flat (Q (WaitQ w)))"
    and rd: "rd = fold (prio_insert (\<lambda>t. prio_current (task s t))) us (ready Q)"
  shows "\<exists>r s' Q' ts'. os_waitqueue_wakeup_sync w cnt sync s = ok (r, s') \<and> kinv L Q' ts' s' \<and>
    waitqueue_current s' = (if hit then None else waitqueue_current s) \<and>
    flat (Q (WaitQ w)) = us @ flat (Q' (WaitQ w)) \<and> (\<forall>q. q \<notin> {WaitQ w, ReadyQ} \<longrightarrow> Q' q = Q q) \<and>
    (\<forall>t \<in> set us. block_code (task s' t) = OS_OK \<and> timer (task s' t) = None) \<and>
    set ts' = set ts - BlockTimer ` set us \<and>
    (if \<not> sync \<and> us \<noteq> [] \<and> isr_nesting s \<le> 1 \<and> sched_lock s = 0 \<and> rd \<noteq> [] \<and>
        prio_current (task s (task_current s)) < prio_current (task s (hd rd))
     then task_current s' = hd rd \<and> (r = Switched \<longleftrightarrow> isr_nesting s = 0)
     else r = Return Void \<and> task_current s' = task_current s \<and> ready Q' = rd)"
proof -
  let ?s0 = "if hit then s\<lparr>sreg := arch_dint (sreg s), waitqueue_current := None\<rparr> else s\<lparr>sreg := arch_dint (sreg s)\<rparr>"
  have f0: "task ?s0 = task s" "task_current ?s0 = task_current s" "sreg ?s0 = arch_dint (sreg s)"
    "isr_nesting ?s0 = isr_nesting s" "sched_lock ?s0 = sched_lock s"
    "waitqueue_current ?s0 = (if hit then None else waitqueue_current s)" by auto
  obtain s1 Q1 ts1 where s1: "kinv L Q1 ts1 s1" "all_woken OS_OK (WaitQ w) us (Q, ts, ?s0) (Q1, ts1, s1)"
    and run: "os_waitqueue_wakeup_sync w cnt sync s = (if \<not> sync \<and> us \<noteq> []
      then kbind (os_schedule (K_Schedule (sreg s)) 1 s1) (sched_exit (sreg s) Void)
      else ok (Return Void, s1\<lparr>sreg := sreg s\<rparr>))"
    using wakeup_sync_run [OF assms(1-7) refl] by blast
  have f1: "task_current s1 = task_current s" "sreg s1 = arch_dint (sreg s)" "isr_nesting s1 = isr_nesting s"
    "sched_lock s1 = sched_lock s" "waitqueue_current s1 = (if hit then None else waitqueue_current s)" "ready Q1 = rd"
    "(\<lambda>u. prio_current (task s1 u)) = (\<lambda>u. prio_current (task s u))"
    "\<And>t. t \<in> set us \<Longrightarrow> block_code (task s1 t) = OS_OK \<and> timer (task s1 t) = None"
    "flat (Q (WaitQ w)) = us @ flat (Q1 (WaitQ w))" "\<forall>q. q \<notin> {WaitQ w, ReadyQ} \<longrightarrow> Q1 q = Q q"
    "set ts1 = set ts - BlockTimer ` set us"
    using s1(2) rd unfolding all_woken_def core_frame_def prod.case f0
    by (auto simp: block_code_def simp del: retcode_value.simps)
  show ?thesis
  proof (cases "\<not> sync \<and> us \<noteq> []")
    case False
    then have "os_waitqueue_wakeup_sync w cnt sync s = ok (Return Void, s1\<lparr>sreg := sreg s\<rparr>)" unfolding run by (rule if_not_P)
    then show ?thesis using False f1 kinv_dint [OF s1(1), of "sreg s"]
      by (intro exI [of _ "Return Void"] exI [of _ "s1\<lparr>sreg := sreg s\<rparr>"] exI [of _ Q1] exI [of _ ts1]) auto
  next
    case True
    obtain r s' Q' where s': "kbind (os_schedule (K_Schedule (sreg s)) 1 s1) (sched_exit (sreg s) Void) = ok (r, s')"
      "kinv L Q' ts1 s'" "sched_frame s1 s'" "same_tasks s1 s'" "\<forall>q. q \<noteq> ReadyQ \<longrightarrow> Q' q = Q1 q"
      "if preempts 1 s1 (ready Q1) then task_current s' = hd (ready Q1) \<and> (r = Switched \<longleftrightarrow> isr_nesting s1 = 0) \<and>
         ready Q' = prio_insert (\<lambda>t. prio_current (task s1 t)) (task_current s1) (tl (ready Q1))
       else r = Return Void \<and> s' = s1\<lparr>sreg := sreg s\<rparr> \<and> Q' = Q1"
      using kinv_schedule_exit [OF s1(1), of "K_Schedule (sreg s)" 1 "sreg s" Void] f1(2) by auto
    have "os_waitqueue_wakeup_sync w cnt sync s = ok (r, s')" unfolding run if_P [OF True] by (rule s'(1))
    moreover have "\<forall>t \<in> set us. block_code (task s' t) = OS_OK \<and> timer (task s' t) = None"
      using s'(4) f1(8) by (simp add: same_tasks_def same_tcb_def block_code_def)
    moreover have "preempts 1 s1 (ready Q1) \<longleftrightarrow> isr_nesting s \<le> 1 \<and> sched_lock s = 0 \<and> rd \<noteq> [] \<and>
        prio_current (task s (task_current s)) < prio_current (task s (hd rd))"
      using preempts_higher [OF s1(1)] f1(1,3,4,6) fun_cong [OF f1(7)] by simp
    moreover have "waitqueue_current s' = (if hit then None else waitqueue_current s)"
      using s'(3) f1(5) by (simp add: sched_frame_iff)
    ultimately show ?thesis using True s'(2,5,6) f1(1,3,6,9-11)
      by (intro exI [of _ r] exI [of _ s'] exI [of _ Q'] exI [of _ ts1]) (simp split: if_splits)
  qed
qed

text \<open>C24. \<open>os_waitqueue_wakeup_sync\<close> wakes up exactly the first \<open>cnt\<close> waiting tasks (all of them for
  \<open>OS_WAITQUEUE_ALL\<close>, fewer if fewer wait) in the order of the queue, with the code \<open>OS_OK\<close> and without
  their guards. From an interrupt that hit the task which prepared to wait on this queue, it clears
  the prepared state instead and counts that task as one of them. The caller is preempted exactly if
  it woke up a task, did not ask for synchronous mode, and a ready task has a higher priority.
  Synchronous mode in an interrupt, a prepared caller and the count 0 halt.\<close>

theorem waitqueue_wakeup_counts:
  assumes "kinv L Q ts s" and "WaitQ w \<in> L"
  shows "(if (isr_nesting s > 0 \<or> waitqueue_current s = None) \<and> (isr_nesting s = 0 \<or> \<not> sync) \<and> cnt > 0
    then let hit = (isr_nesting s > 0 \<and> waitqueue_current s = Some w);
        us = to_wake (if hit \<and> cnt \<noteq> OS_WAITQUEUE_ALL then cnt - 1 else cnt) (flat (Q (WaitQ w)));
        rd = fold (prio_insert (\<lambda>t. prio_current (task s t))) us (ready Q)
      in \<exists>r s' Q' ts'. os_waitqueue_wakeup_sync w cnt sync s = ok (r, s') \<and> kinv L Q' ts' s' \<and>
        waitqueue_current s' = (if hit then None else waitqueue_current s) \<and>
        flat (Q (WaitQ w)) = us @ flat (Q' (WaitQ w)) \<and> (\<forall>q. q \<notin> {WaitQ w, ReadyQ} \<longrightarrow> Q' q = Q q) \<and>
        (\<forall>t \<in> set us. block_code (task s' t) = OS_OK \<and> timer (task s' t) = None) \<and>
        set ts' = set ts - BlockTimer ` set us \<and>
        (if \<not> sync \<and> us \<noteq> [] \<and> isr_nesting s \<le> 1 \<and> sched_lock s = 0 \<and> rd \<noteq> [] \<and>
            prio_current (task s (task_current s)) < prio_current (task s (hd rd))
         then task_current s' = hd rd \<and> (r = Switched \<longleftrightarrow> isr_nesting s = 0)
         else r = Return Void \<and> task_current s' = task_current s \<and> ready Q' = rd)
    else os_waitqueue_wakeup_sync w cnt sync s = os_halt s)"
proof (cases "(isr_nesting s > 0 \<or> waitqueue_current s = None) \<and> (isr_nesting s = 0 \<or> \<not> sync) \<and> cnt > 0")
  case True
  show ?thesis unfolding if_P [OF True] Let_def
    by (rule wakeup_sync_result [OF assms _ _ _ refl refl refl]) (use True in auto)
next
  case False
  then show ?thesis by (auto simp: os_waitqueue_wakeup_sync_def os_assert_def)
qed

section \<open>Prepare, break and wait\<close>

lemma prepare_result:
  assumes g: "isr_nesting s = 0" "task_current s \<noteq> task_idle" "list_is_empty (MtxList (task_current s)) (mxh s)"
    "waitqueue_current s = None"
  shows "os_waitqueue_prepare w s = ok (s\<lparr>sched_lock := sched_lock s + 1, waitqueue_current := Some w\<rparr>)"
  using g by (cases s) (simp add: os_waitqueue_prepare_def os_scheduler_lock_def os_atomic_inc_def os_atomic_inc_load_def
      os_atomic_store_def arch_critical_enter_def arch_critical_exit_def Let_def)

lemma break_result:
  assumes inv: "kinv L Q ts s" and g: "isr_nesting s = 0"
    and s1: "s1 = s\<lparr>sched_lock := sched_lock s + 1, waitqueue_current := w\<rparr>" and s0: "s0 = s\<lparr>waitqueue_current := None\<rparr>"
  shows "\<exists>r s' Q'. os_waitqueue_break s1 = ok (r, s') \<and> kinv L Q' ts s' \<and> waitqueue_current s' = None \<and>
    sched_lock s' = sched_lock s \<and>
    (if sched_lock s = 0 \<and> ready Q \<noteq> [] \<and> prio_current (task s (task_current s)) < prio_current (task s (hd (ready Q)))
     then r = Switched \<and> task_current s' = hd (ready Q)
     else r = Return Void \<and> s' = s0)"
proof -
  note defs = os_waitqueue_break_def os_scheduler_unlock_def os_atomic_dec_load_def os_atomic_store_def
    arch_critical_enter_def arch_critical_exit_def Let_def
  have inv0: "kinv L Q ts s0" unfolding s0 by (rule kinv_same [OF inv]) simp_all
  show ?thesis
  proof (cases "sched_lock s = 0")
    case False
    then have "os_waitqueue_break s1 = ok (Return Void, s0)" using g by (cases s) (simp add: defs s1 s0)
    then show ?thesis using False inv0 by (intro exI [of _ "Return Void"] exI [of _ s0] exI [of _ Q]) (simp add: s0)
  next
    case True
    let ?d = "s0\<lparr>sreg := arch_dint (sreg s)\<rparr>"
    have run: "os_waitqueue_break s1 = kbind (os_schedule (K_Schedule (sreg s)) 1 ?d) (sched_exit (sreg s) Void)"
      using g True by (cases s) (simp add: defs s1 s0)
    obtain r s' Q' where s': "kbind (os_schedule (K_Schedule (sreg s)) 1 ?d) (sched_exit (sreg s) Void) = ok (r, s')"
      "kinv L Q' ts s'" "sched_frame ?d s'"
      "if preempts 1 ?d (ready Q) then task_current s' = hd (ready Q) \<and> (r = Switched \<longleftrightarrow> isr_nesting ?d = 0) \<and>
         ready Q' = prio_insert (\<lambda>t. prio_current (task ?d t)) (task_current ?d) (tl (ready Q))
       else r = Return Void \<and> s' = ?d\<lparr>sreg := sreg s\<rparr> \<and> Q' = Q"
      using kinv_schedule_exit [OF kinv_dint [OF inv0], of "arch_dint (sreg s)" "K_Schedule (sreg s)" 1 "sreg s" Void] by auto
    have pre: "preempts 1 ?d (ready Q) \<longleftrightarrow> sched_lock s = 0 \<and> ready Q \<noteq> [] \<and>
        prio_current (task s (task_current s)) < prio_current (task s (hd (ready Q)))"
      using preempts_higher [OF kinv_dint [OF inv0], of "arch_dint (sreg s)"] g by (simp add: s0)
    have "?d\<lparr>sreg := sreg s\<rparr> = s0" by (simp add: s0)
    then show ?thesis using run s' g unfolding pre
      by (intro exI [of _ r] exI [of _ s'] exI [of _ Q']) (simp add: sched_frame_iff s0 split: if_splits)
  qed
qed

text \<open>\<open>os_waitqueue_prepare\<close> marks the queue and locks the scheduler, so that no call of \<open>os_schedule\<close>
  switches the task while it tests its condition; \<open>os_waitqueue_break\<close> undoes this exactly, except
  that it gives way to a ready task of higher priority if that was the last lock.\<close>

theorem waitqueue_prepare_break:
  assumes inv: "kinv L Q ts s" and g: "isr_nesting s = 0" "task_current s \<noteq> task_idle"
      "list_is_empty (MtxList (task_current s)) (mxh s)" "waitqueue_current s = None"
    and n: "unat (sched_lock s) < 255"
  shows "\<exists>s1. os_waitqueue_prepare w s = ok s1 \<and> waitqueue_current s1 = Some w \<and> sched_lock s1 = sched_lock s + 1 \<and>
    (\<forall>k h r. arch_is_dint r \<longrightarrow> os_schedule k h (s1\<lparr>sreg := r\<rparr>) = ok (Return (), s1\<lparr>sreg := r\<rparr>)) \<and>
    (\<exists>r s' Q'. os_waitqueue_break s1 = ok (r, s') \<and> kinv L Q' ts s' \<and> waitqueue_current s' = None \<and>
      sched_lock s' = sched_lock s \<and>
      (if sched_lock s = 0 \<and> ready Q \<noteq> [] \<and> prio_current (task s (task_current s)) < prio_current (task s (hd (ready Q)))
       then r = Switched \<and> task_current s' = hd (ready Q)
       else r = Return Void \<and> s' = s))"
proof -
  let ?s1 = "s\<lparr>sched_lock := sched_lock s + 1, waitqueue_current := Some w\<rparr>"
  have "sched_lock s + 1 \<noteq> 0" using n by (auto simp: u8_eq_iff_unat unat_word_ariths)
  then have stay: "\<forall>k h r. arch_is_dint r \<longrightarrow> os_schedule k h (?s1\<lparr>sreg := r\<rparr>) = ok (Return (), ?s1\<lparr>sreg := r\<rparr>)"
    by (simp add: os_schedule_def)
  have eq: "s\<lparr>waitqueue_current := None\<rparr> = s" using g(4) by (cases s) simp
  show ?thesis
    by (intro exI [of _ ?s1] conjI prepare_result [OF g] stay break_result [OF inv g(1) refl refl, of "Some w", unfolded eq]) simp_all
qed

lemma wait_blocks:
  assumes inv: "kinv L Q ts s" and w: "waitqueue_current s = Some w" "WaitQ w \<in> L"
    and none: "timer (task s (task_current s)) = None"
    and g: "isr_nesting s = 0" "task_current s \<noteq> task_idle" "list_is_empty (MtxList (task_current s)) (mxh s)"
    and to: "timeout > OS_TIMEOUT_TRY" "timeout \<noteq> OS_TIMEOUT_INFINITE \<Longrightarrow> timeout < OS_TIMER_TICKSREM_MAX"
  shows "\<exists>s' Q' ts'. os_waitqueue_wait timeout s = ok (Switched, s') \<and> kinv L Q' ts' s' \<and>
    waitqueue_current s' = None \<and> sched_lock s' = sched_lock s - 1 \<and> isr_nesting s' = 0 \<and>
    task_current s' = hd (ready Q) \<and> ready Q' = tl (ready Q) \<and>
    flat (Q' (WaitQ w)) = prio_insert (\<lambda>t. prio_current (task s t)) (task_current s) (flat (Q (WaitQ w))) \<and>
    (\<forall>q. q \<notin> {WaitQ w, ReadyQ} \<longrightarrow> Q' q = Q q) \<and>
    state (task s' (task_current s)) = TASKSTATE_WAIT \<and> ctx_kont (task s' (task_current s)) = K_WaitqueueWait (sreg s) \<and>
    (\<exists>g. task s' = (task s)(hd (ready Q) := (task s (hd (ready Q)))\<lparr>task_queue := None\<rparr>,
       task_current s := (task s (task_current s))\<lparr>timer := g, state := TASKSTATE_WAIT, block_type := OS_TASKBLOCK_WAITQUEUE,
         task_queue := Some (WaitQ w), ctx_kont := K_WaitqueueWait (sreg s)\<rparr>)) \<and>
    sem s' = sem s \<and> mxh s' = mxh s \<and> mtx s' = mtx s \<and>
    (if timeout = OS_TIMEOUT_INFINITE then ts' = ts
     else set ts' = insert (BlockTimer (task_current s)) (set ts) \<and>
       ticks_left s' (BlockTimer (task_current s)) = unat timeout \<and>
       clbck (tmr s' (BlockTimer (task_current s))) = WaitqueueTimerClbck)"
proof -
  let ?c = "task_current s" and ?s0 = "s\<lparr>sreg := arch_dint (sreg s), sched_lock := sched_lock s - 1\<rparr>"
  have to0: "0 < timeout" using to(1) by (simp add: OS_TIMEOUT_TRY_def)
  have inv0: "kinv L Q ts ?s0" by (rule kinv_same [OF inv]) simp_all
  obtain s1 ts' where s1: "(if OS_TIMEOUT_INFINITE \<noteq> timeout
      then os_blocktimer_create (BlockTimer ?c) WaitqueueTimerClbck timeout ?s0 else ok ?s0) = ok s1"
    "sched_inv L Q s1" "floating s1 = {}" "block_inv {?c} ts' s1" "core_frame ?s0 s1" "task_current s1 = ?c"
    "\<exists>g. task s1 = (task s)(?c := (task s ?c)\<lparr>timer := g\<rparr>)"
    "if timeout = OS_TIMEOUT_INFINITE then ts' = ts
     else set ts' = insert (BlockTimer ?c) (set ts) \<and> ticks_left s1 (BlockTimer ?c) = unat timeout \<and>
       clbck (tmr s1 (BlockTimer ?c)) = WaitqueueTimerClbck"
    using block_guard_result [OF inv0, of ?c timeout WaitqueueTimerClbck] none to0 to(2) by auto
  let ?s2 = "s1\<lparr>waitqueue_current := None\<rparr>"
  have inv2: "sched_inv L Q ?s2" "floating ?s2 = {}"
    using sched_inv_same [OF s1(2), of ?s2] s1(3) sched_inv_cong(2) [of ?s2 s1] by auto
  have b2: "block_inv {?c} ts' ?s2"
    by (rule block_inv_cong [OF s1(4)]) (use block_invD(4) [OF s1(4)] in auto)
  obtain t us where rd: "ready Q = t # us" using ready_nonempty(2) [OF kinvD(1) [OF inv] g(2)] by blast
  have pr: "(\<lambda>t. prio_current (task s1 t)) = (\<lambda>t. prio_current (task s t))" using s1(7) by auto
  obtain s' Q' where s': "os_task_block_switch (K_WaitqueueWait (sreg s)) (WaitQ w) OS_TASKBLOCK_WAITQUEUE ?s2 = ok s'"
    "kinv L Q' ts' s'" "sched_frame ?s2 s'" "task_current s' = t"
    "task s' = (task s1)(t := (task s1 t)\<lparr>task_queue := None\<rparr>, ?c := (task s1 ?c)\<lparr>state := TASKSTATE_WAIT,
      block_type := OS_TASKBLOCK_WAITQUEUE, task_queue := Some (WaitQ w), ctx_kont := K_WaitqueueWait (sreg s)\<rparr>)"
    "flat (Q' (WaitQ w)) = prio_insert (\<lambda>t. prio_current (task s t)) ?c (flat (Q (WaitQ w)))"
    "ready Q' = us" "\<forall>q'. q' \<notin> {WaitQ w, ReadyQ} \<longrightarrow> Q' q' = Q q'"
    using kinv_block_switch [OF inv2 _ w(2) _ _ rd, of ts' "K_WaitqueueWait (sreg s)"] b2 s1(6) g(2) pr by auto
  have "os_waitqueue_wait timeout s = ok (Switched, s')"
    using g w(1) to(1) s1(1) s'(1) by (simp add: os_waitqueue_wait_def split: if_splits)
  moreover have "ticks_left s' = ticks_left s1" "tmr s' = tmr s1" "waitqueue_current s' = None" "sched_lock s' = sched_lock s - 1" "isr_nesting s' = 0"
    "sem s' = sem s" "mxh s' = mxh s" "mtx s' = mtx s"
    using s'(3) s1(5) g(1) by (auto simp: ticks_left_def sched_frame_iff core_frame_def fun_eq_iff)
  moreover have "\<exists>g. task s' = (task s)(t := (task s t)\<lparr>task_queue := None\<rparr>,
       ?c := (task s ?c)\<lparr>timer := g, state := TASKSTATE_WAIT, block_type := OS_TASKBLOCK_WAITQUEUE,
         task_queue := Some (WaitQ w), ctx_kont := K_WaitqueueWait (sreg s)\<rparr>)"
    using s'(5) s1(7) ready_not_current [OF inv rd] by auto
  ultimately show ?thesis using s' s1(8) rd
    by (intro exI [of _ s'] exI [of _ Q'] exI [of _ ts']) simp
qed

lemma wait_returns:
  assumes g: "isr_nesting s = 0" "task_current s \<noteq> task_idle" "list_is_empty (MtxList (task_current s)) (mxh s)"
    and to: "timeout > OS_TIMEOUT_TRY" and "waitqueue_current s = None"
  shows "os_waitqueue_wait timeout s =
    ok (Return (Code (block_code (task s (task_current s)))), s\<lparr>sched_lock := sched_lock s - 1\<rparr>)"
  using assms by (cases s) (simp add: os_waitqueue_wait_def)

text \<open>C25. \<open>os_waitqueue_wait\<close> of a prepared task puts it into the queue it prepared for, behind the waiters
  of at least its priority and with a guard of exactly the given ticks (none if it waits for ever),
  releases the scheduler lock and the prepared state, and runs the first ready task. If the prepared
  state is gone, because an interrupt woke the task up, it does not block. In an interrupt, for the
  idle task, while holding a mutex, with timeout 0 or beyond the range of the timers it halts.\<close>

theorem waitqueue_wait_cases:
  assumes inv: "kinv L Q ts s" and live: "\<forall>w. waitqueue_current s = Some w \<longrightarrow> WaitQ w \<in> L"
    and none: "timer (task s (task_current s)) = None"
  shows "(if isr_nesting s = 0 \<and> task_current s \<noteq> task_idle \<and> timeout > OS_TIMEOUT_TRY \<and>
      list_is_empty (MtxList (task_current s)) (mxh s)
    then case waitqueue_current s of
        None \<Rightarrow> os_waitqueue_wait timeout s =
          ok (Return (Code (block_code (task s (task_current s)))), s\<lparr>sched_lock := sched_lock s - 1\<rparr>)
      | Some w \<Rightarrow> if timeout < OS_TIMER_TICKSREM_MAX \<or> timeout = OS_TIMEOUT_INFINITE
          then \<exists>s' Q' ts'. os_waitqueue_wait timeout s = ok (Switched, s') \<and> kinv L Q' ts' s' \<and>
            waitqueue_current s' = None \<and> sched_lock s' = sched_lock s - 1 \<and> isr_nesting s' = 0 \<and>
            task_current s' = hd (ready Q) \<and> ready Q' = tl (ready Q) \<and>
            flat (Q' (WaitQ w)) = prio_insert (\<lambda>t. prio_current (task s t)) (task_current s) (flat (Q (WaitQ w))) \<and>
            (\<forall>q. q \<notin> {WaitQ w, ReadyQ} \<longrightarrow> Q' q = Q q) \<and>
            state (task s' (task_current s)) = TASKSTATE_WAIT \<and>
            ctx_kont (task s' (task_current s)) = K_WaitqueueWait (sreg s) \<and>
            (if timeout = OS_TIMEOUT_INFINITE then ts' = ts
             else set ts' = insert (BlockTimer (task_current s)) (set ts) \<and>
               ticks_left s' (BlockTimer (task_current s)) = unat timeout \<and>
               clbck (tmr s' (BlockTimer (task_current s))) = WaitqueueTimerClbck)
          else \<exists>s'. os_waitqueue_wait timeout s = fail (Halted s')
    else os_waitqueue_wait timeout s = os_halt s)"
proof (cases "isr_nesting s = 0 \<and> task_current s \<noteq> task_idle \<and> timeout > OS_TIMEOUT_TRY \<and>
      list_is_empty (MtxList (task_current s)) (mxh s)")
  case False
  then show ?thesis by (auto simp: os_waitqueue_wait_def os_assert_def)
next
  case True
  then have g: "isr_nesting s = 0" "task_current s \<noteq> task_idle" "list_is_empty (MtxList (task_current s)) (mxh s)"
    "timeout > OS_TIMEOUT_TRY" by auto
  show ?thesis
  proof (cases "waitqueue_current s")
    case None
    then show ?thesis using True wait_returns [OF g None] by simp
  next
    case (Some w)
    show ?thesis
    proof (cases "timeout < OS_TIMER_TICKSREM_MAX \<or> timeout = OS_TIMEOUT_INFINITE")
      case fits: True
      show ?thesis unfolding if_P [OF True] Some option.case if_P [OF fits]
        using wait_blocks [OF inv Some _ none g] live Some fits by blast
    next
      case long: False
      let ?s0 = "s\<lparr>sreg := arch_dint (sreg s), sched_lock := sched_lock s - 1\<rparr>"
      have "os_blocktimer_create b WaitqueueTimerClbck timeout ?s0 = os_halt ?s0" for b
        using none long by (simp add: os_blocktimer_create_def os_timer_create_def os_halt_def os_assert_def)
      then have "os_waitqueue_wait timeout s = os_halt ?s0"
        using g Some long by (auto simp: os_waitqueue_wait_def os_halt_def Let_def)
      then show ?thesis using True Some long by (simp add: os_halt_def)
    qed
  qed
qed

section \<open>Wake-ups in the window between prepare and wait\<close>

text \<open>A single interrupt that wakes up \<open>cnt\<close> tasks of a queue.\<close>

definition wakeup_isr :: "wqid \<Rightarrow> u8 \<Rightarrow> kstate \<Rightarrow> (unit outcome \<times> kstate) kres" where
  "wakeup_isr w cnt s =
     kbind (os_waitqueue_wakeup w cnt (arch_contextstore_i s)) (\<lambda>(r, s). ok (arch_contextrestore_i s))"

lemma wakeup_isr_result:
  assumes inv: "kinv L Q ts s" and w: "WaitQ w \<in> L" and g: "isr_nesting s = 0" "waitqueue_current s = Some w"
    "sched_lock s \<noteq> 0" "cnt > 0"
  shows "\<exists>s' Q' ts'. wakeup_isr w cnt s = ok (Switched, s') \<and> kinv L Q' ts' s' \<and> waitqueue_current s' = None \<and>
    task_current s' = task_current s \<and> sched_lock s' = sched_lock s \<and> isr_nesting s' = 0 \<and> mxh s' = mxh s \<and>
    sreg s' = sreg s OR 0x80 \<and> block_code (task s' (task_current s)) = block_code (task s (task_current s))"
proof -
  let ?s1 = "arch_contextstore_i s" and ?n = "if cnt \<noteq> OS_WAITQUEUE_ALL then cnt - 1 else cnt"
  have f1: "isr_nesting ?s1 = 1" "waitqueue_current ?s1 = Some w" "task_current ?s1 = task_current s"
    "sched_lock ?s1 = sched_lock s" "mxh ?s1 = mxh s"
    "task ?s1 = (task s)(task_current s := (task s (task_current s))\<lparr>ctx_kont := K_Isr (sreg s OR 0x80)\<rparr>)"
    using g by (simp_all add: arch_contextstore_i_def Let_def task_upd_task)
  let ?s0 = "?s1\<lparr>sreg := arch_dint (sreg ?s1), waitqueue_current := None\<rparr>"
  have inv0: "kinv L Q ts ?s0" by (rule kinv_same [OF kinv_isr_enter [OF inv]]) simp_all
  obtain s2 Q2 ts2 where s2: "waitqueue_wakeup_loop w ?n False ?s0 = ok (to_wake ?n (flat (Q (WaitQ w))) \<noteq> [], s2)"
    "kinv L Q2 ts2 s2" "all_woken OS_OK (WaitQ w) (to_wake ?n (flat (Q (WaitQ w)))) (Q, ts, ?s0) (Q2, ts2, s2)"
    using wakeup_loop_result [OF inv0 w] by blast
  have f2: "task_current s2 = task_current s" "isr_nesting s2 = 1" "sched_lock s2 = sched_lock s" "mxh s2 = mxh s"
    "waitqueue_current s2 = None" "sreg s2 = arch_dint (sreg ?s1)"
    using s2(3) f1 by (auto simp: all_woken_def core_frame_def)
  have cur: "task s2 (task_current s) = task ?s1 (task_current s)"
  proof -
    have "task_queue (task s (task_current s)) = None" by (rule sched_invD(4) [OF kinvD(1) [OF inv]])
    then have "task_current s \<notin> set (flat (Q (WaitQ w)))" using kinv_members [OF inv] by simp
    then have "task_current s \<notin> set (to_wake ?n (flat (Q (WaitQ w))))" by (auto simp: to_wake_def dest: in_set_takeD)
    then show ?thesis using s2(3) by (simp add: all_woken_def)
  qed
  have "os_schedule (K_Schedule (sreg ?s1)) 1 s2 = ok (Return (), s2)"
    by (rule schedule_stays [OF kinvD(1) [OF s2(2)]]) (use f2(3,6) g(3) in \<open>auto simp: preempts_def\<close>)
  then have "os_waitqueue_wakeup w cnt ?s1 = ok (Return Void, s2\<lparr>sreg := sreg ?s1\<rparr>)"
    using g(4) s2(1) f1(1,2) by (auto simp: os_waitqueue_wakeup_def os_waitqueue_wakeup_sync_def sched_exit_def)
  then have "wakeup_isr w cnt s = ok (arch_contextrestore_i (s2\<lparr>sreg := sreg ?s1\<rparr>))" by (simp add: wakeup_isr_def)
  moreover have "kinv L Q2 ts2 (snd (arch_contextrestore_i (s2\<lparr>sreg := sreg ?s1\<rparr>)))"
    by (rule kinv_isr_leave [OF kinv_dint [OF s2(2)]])
  ultimately show ?thesis
    using f2 cur f1(6) by (intro exI [of _ "snd (arch_contextrestore_i (s2\<lparr>sreg := sreg ?s1\<rparr>))"] exI [of _ Q2] exI [of _ ts2])
      (simp add: arch_contextrestore_i_def Let_def block_code_def)
qed

text \<open>C11. No wake-up is lost: if an interrupt signals the queue after a task has prepared to wait on it and
  before it waits, the interrupt returns to the same task (whose scheduler lock still holds), and the
  wait returns at once instead of blocking, with the scheduler lock released. The code it returns is
  whatever the last blocking call of the task left in \<open>block_code\<close>.\<close>

theorem waitqueue_no_lost_wakeup:
  assumes inv: "kinv L Q ts s" and w: "WaitQ w \<in> L" and g: "isr_nesting s = 0" "task_current s \<noteq> task_idle"
      "list_is_empty (MtxList (task_current s)) (mxh s)" "waitqueue_current s = None"
    and n: "unat (sched_lock s) < 255" and c: "cnt > 0" and to: "timeout > OS_TIMEOUT_TRY"
  shows "\<exists>s1 s2 s3 Q' ts'. os_waitqueue_prepare w s = ok s1 \<and> wakeup_isr w cnt s1 = ok (Switched, s2) \<and>
    task_current s2 = task_current s \<and>
    os_waitqueue_wait timeout s2 = ok (Return (Code (block_code (task s (task_current s)))), s3) \<and>
    kinv L Q' ts' s3 \<and> sched_lock s3 = sched_lock s \<and> waitqueue_current s3 = None \<and> task_current s3 = task_current s"
proof -
  let ?s1 = "s\<lparr>sched_lock := sched_lock s + 1, waitqueue_current := Some w\<rparr>"
  have inv1: "kinv L Q ts ?s1" by (rule kinv_same [OF inv]) simp_all
  have "sched_lock s + 1 \<noteq> 0" using n by (auto simp: u8_eq_iff_unat unat_word_ariths)
  then have l: "sched_lock ?s1 \<noteq> 0" by simp
  have g1: "isr_nesting ?s1 = 0" "waitqueue_current ?s1 = Some w" using g by auto
  obtain s2 Q2 ts2 where s2: "wakeup_isr w cnt ?s1 = ok (Switched, s2)" "kinv L Q2 ts2 s2" "waitqueue_current s2 = None"
    "task_current s2 = task_current s" "sched_lock s2 = sched_lock s + 1" "isr_nesting s2 = 0" "mxh s2 = mxh s"
    "block_code (task s2 (task_current s)) = block_code (task s (task_current s))"
    using wakeup_isr_result [OF inv1 w g1 l c] by auto
  have "os_waitqueue_wait timeout s2 = ok (Return (Code (block_code (task s (task_current s)))), s2\<lparr>sched_lock := sched_lock s\<rparr>)"
    using wait_returns [OF s2(6) _ _ to s2(3)] s2(4,5,7,8) g(2,3) by simp
  moreover have "kinv L Q2 ts2 (s2\<lparr>sched_lock := sched_lock s\<rparr>)" by (rule kinv_same [OF s2(2)]) simp_all
  ultimately show ?thesis using prepare_result [OF g, of w] s2(1,3,4) by fastforce
qed

section \<open>Creation, destruction and resumption\<close>

lemma waitqueue_create_result:
  assumes inv: "kinv L Q ts s" and "WaitQ w \<notin> L" and "waitqueue_current s = None"
  shows "\<exists>s'. os_waitqueue_create w s = ok s' \<and> kinv (insert (WaitQ w) L) Q ts s' \<and> tq_frame s s' \<and> task s' = task s"
  using kinv_init_queue(1) [OF inv assms(2)] assms(3)
  by (simp add: os_waitqueue_create_def memset_taskqueue_def os_taskqueue_init_def Let_def tq_frame_iff)

lemma waitqueue_destroy_run:
  assumes inv: "kinv L Q ts s" and w: "WaitQ w \<in> L" and g: "waitqueue_current s = None"
  shows "\<exists>s1 Q1 ts'. kinv L Q1 ts' s1 \<and> kinv (L - {WaitQ w}) Q1 ts' (memset_taskqueue (WaitQ w) s1) \<and>
    all_woken OS_DESTROYED (WaitQ w) (flat (Q (WaitQ w))) (Q, ts, s\<lparr>sreg := arch_dint (sreg s)\<rparr>) (Q1, ts', s1) \<and>
    os_waitqueue_destroy w s =
      kbind (os_schedule (K_Schedule (sreg s)) 1 (memset_taskqueue (WaitQ w) s1)) (sched_exit (sreg s) Void)"
proof -
  obtain s1 Q1 ts' where s1: "wakeup_all_loop (WaitQ w) (s\<lparr>sreg := arch_dint (sreg s)\<rparr>) = ok s1" "kinv L Q1 ts' s1"
    "flat (Q1 (WaitQ w)) = []"
    "all_woken OS_DESTROYED (WaitQ w) (flat (Q (WaitQ w))) (Q, ts, s\<lparr>sreg := arch_dint (sreg s)\<rparr>) (Q1, ts', s1)"
    using wakeup_all_result [OF kinv_dint [OF inv] w, of "arch_dint (sreg s)"] by auto
  moreover from this have "kinv (L - {WaitQ w}) Q1 ts' (memset_taskqueue (WaitQ w) s1)"
    by (intro kinv_memset_queue) simp_all
  ultimately show ?thesis using g by (intro exI [of _ s1] exI [of _ Q1] exI [of _ ts']) (simp add: os_waitqueue_destroy_def)
qed

lemma waitqueue_destroy_result:
  assumes inv: "kinv L Q ts s" and w: "WaitQ w \<in> L" and g: "waitqueue_current s = None"
  shows "\<exists>r s' Q' ts'. os_waitqueue_destroy w s = ok (r, s') \<and> kinv (L - {WaitQ w}) Q' ts' s' \<and>
    (\<forall>q. q \<notin> {WaitQ w, ReadyQ} \<longrightarrow> Q' q = Q q) \<and>
    (\<forall>t \<in> set (flat (Q (WaitQ w))). block_code (task s' t) = OS_DESTROYED \<and> timer (task s' t) = None \<and>
      (t = task_current s' \<or> t \<in> set (ready Q'))) \<and>
    (r = Switched \<longrightarrow> isr_nesting s = 0)"
proof -
  let ?s0 = "s\<lparr>sreg := arch_dint (sreg s)\<rparr>" and ?us = "flat (Q (WaitQ w))"
  obtain s1 Q1 ts' where s1: "kinv L Q1 ts' s1" "kinv (L - {WaitQ w}) Q1 ts' (memset_taskqueue (WaitQ w) s1)"
    "all_woken OS_DESTROYED (WaitQ w) ?us (Q, ts, ?s0) (Q1, ts', s1)"
    "os_waitqueue_destroy w s =
      kbind (os_schedule (K_Schedule (sreg s)) 1 (memset_taskqueue (WaitQ w) s1)) (sched_exit (sreg s) Void)"
    using waitqueue_destroy_run [OF assms] by blast
  let ?s2 = "memset_taskqueue (WaitQ w) s1"
  note inv2 = s1(2)
  have f2: "sreg ?s2 = arch_dint (sreg s)" "isr_nesting ?s2 = isr_nesting s" "\<forall>q. q \<notin> {WaitQ w, ReadyQ} \<longrightarrow> Q1 q = Q q"
    "\<And>t. t \<in> set ?us \<Longrightarrow> block_code (task ?s2 t) = OS_DESTROYED \<and> timer (task ?s2 t) = None \<and> task_queue (task s1 t) = Some ReadyQ"
    using s1(3) by (auto simp: all_woken_def core_frame_def block_code_def memset_taskqueue_def simp del: retcode_value.simps)
  obtain r s' Q' where s': "kbind (os_schedule (K_Schedule (sreg s)) 1 ?s2) (sched_exit (sreg s) Void) = ok (r, s')"
    "kinv (L - {WaitQ w}) Q' ts' s'" "same_tasks ?s2 s'" "\<forall>q. q \<noteq> ReadyQ \<longrightarrow> Q' q = Q1 q"
    "insert (task_current s') (set (ready Q')) = insert (task_current ?s2) (set (ready Q1))"
    "if preempts 1 ?s2 (ready Q1) then task_current s' = hd (ready Q1) \<and> (r = Switched \<longleftrightarrow> isr_nesting ?s2 = 0) \<and>
       ready Q' = prio_insert (\<lambda>t. prio_current (task ?s2 t)) (task_current ?s2) (tl (ready Q1))
     else r = Return Void \<and> s' = ?s2\<lparr>sreg := sreg s\<rparr> \<and> Q' = Q1"
    using kinv_schedule_exit [OF inv2, of "K_Schedule (sreg s)" 1 "sreg s" Void] f2(1) by auto
  have sw: "r = Switched \<longrightarrow> isr_nesting s = 0" using s'(6) f2(2) by (auto split: if_splits)
  have "os_waitqueue_destroy w s = ok (r, s')" using s1(4) s'(1) by simp
  moreover have "block_code (task s' t) = OS_DESTROYED \<and> timer (task s' t) = None \<and> (t = task_current s' \<or> t \<in> set (ready Q'))"
    if t: "t \<in> set ?us" for t
  proof -
    have "t \<in> set (ready Q1)" using kinv_members [OF s1(1), of t ReadyQ] f2(4) [OF t] by simp
    then have "t \<in> insert (task_current s') (set (ready Q'))" using s'(5) by blast
    then show ?thesis using f2(4) [OF t] s'(3) by (auto simp: same_tasks_def same_tcb_def block_code_def)
  qed
  ultimately show ?thesis using s'(2,4) f2(3) sw by (intro exI [of _ r] exI [of _ s'] exI [of _ Q'] exI [of _ ts']) simp
qed

text \<open>\<open>os_waitqueue_destroy\<close> ends and wakes up every waiting task with the code \<open>OS_DESTROYED\<close>, without its
  guard; the queue is given up and the other queues are untouched. After \<open>os_waitqueue_prepare\<close> it
  halts. (Nothing in the code stops a call from an interrupt.)\<close>

theorem waitqueue_destroy_wakes_all:
  assumes "kinv L Q ts s" and "WaitQ w \<in> L"
  shows "(if waitqueue_current s = None
    then \<exists>r s' Q' ts'. os_waitqueue_destroy w s = ok (r, s') \<and> kinv (L - {WaitQ w}) Q' ts' s' \<and>
      (\<forall>q. q \<notin> {WaitQ w, ReadyQ} \<longrightarrow> Q' q = Q q) \<and>
      (\<forall>t \<in> set (flat (Q (WaitQ w))). block_code (task s' t) = OS_DESTROYED \<and> timer (task s' t) = None \<and>
        (t = task_current s' \<or> t \<in> set (ready Q'))) \<and>
      (r = Switched \<longrightarrow> isr_nesting s = 0)
    else os_waitqueue_destroy w s = os_halt s)"
proof (cases "waitqueue_current s = None")
  case True
  show ?thesis unfolding if_P [OF True] by (rule waitqueue_destroy_result [OF assms True])
qed (auto simp: os_waitqueue_destroy_def)

lemma waitqueue_wait_resume_eq: "os_waitqueue_wait_resume c s = os_sem_down_resume c s"
  by (simp add: os_waitqueue_wait_resume_def os_sem_down_resume_def)

lemma waitqueue_timerclbck_eq: "os_waitqueue_timerclbck prm s = os_sem_timerclbck prm s"
  by (simp add: os_waitqueue_timerclbck_def os_sem_timerclbck_def)

section \<open>Witnesses\<close>

text \<open>Task 2 runs, with wait queue 0 created.\<close>

definition demo_wq :: kstate where
  "demo_wq = os_taskqueue_init (WaitQ 0) demo_sem"

lemma demo_wq_kinv: "kinv {WaitQ 0, ReadyQ, SemQ (UserSem 0)} demo_queues [] demo_wq"
  unfolding demo_wq_def by (rule kinv_init_only [OF demo_sem_kinv]) simp

lemma demo_wq_fields:
  "task_current demo_wq = 2" "isr_nesting demo_wq = 0" "sched_lock demo_wq = 0" "waitqueue_current demo_wq = None"
  "prio_current (task demo_wq 0) = 0" "prio_current (task demo_wq 2) = 2" "timer (task demo_wq 2) = None"
  "list_is_empty (MtxList 2) (mxh demo_wq)" "task_current demo_wq \<noteq> task_idle" "block_code (task demo_wq 2) = OS_OK"
  by (simp_all add: demo_wq_def os_taskqueue_init_def Let_def demo_sem_fields task_idle_def)
    (simp add: demo_sem_def demo_running_fields zero_task_def block_code_def retcode_of_def)

theorem waitqueue_prepare_break_witness:
  "\<exists>s1. os_waitqueue_prepare 0 demo_wq = ok s1 \<and> os_waitqueue_break s1 = ok (Return Void, demo_wq)"
proof -
  have "list_is_empty (MtxList (task_current demo_wq)) (mxh demo_wq)" "unat (sched_lock demo_wq) < 255"
    by (simp_all add: demo_wq_fields)
  from waitqueue_prepare_break [OF demo_wq_kinv demo_wq_fields(2,9) this(1) demo_wq_fields(4) this(2), of 0]
  show ?thesis using demo_wq_fields(1,5,6) demo_running_fields(11) by auto
qed

theorem waitqueue_no_lost_wakeup_witness:
  "\<exists>s1 s2 s3. os_waitqueue_prepare 0 demo_wq = ok s1 \<and> wakeup_isr 0 1 s1 = ok (Switched, s2) \<and>
     os_waitqueue_wait 10 s2 = ok (Return (Code OS_OK), s3)"
proof -
  have a: "list_is_empty (MtxList (task_current demo_wq)) (mxh demo_wq)" "unat (sched_lock demo_wq) < 255"
    "(0 :: u8) < 1" "OS_TIMEOUT_TRY < 10"
    by (simp_all add: demo_wq_fields OS_TIMEOUT_TRY_def)
  from waitqueue_no_lost_wakeup [OF demo_wq_kinv _ demo_wq_fields(2,9) a(1) demo_wq_fields(4) a(2-4), of 0]
  show ?thesis using demo_wq_fields(1,10) by auto
qed

text \<open>Task 2 prepared for wait queue 0.\<close>

definition demo_prepared :: kstate where
  "demo_prepared = demo_wq\<lparr>sched_lock := 1, waitqueue_current := Some 0\<rparr>"

lemma demo_prepared_kinv: "kinv {WaitQ 0, ReadyQ, SemQ (UserSem 0)} demo_queues [] demo_prepared"
  unfolding demo_prepared_def by (rule kinv_same [OF demo_wq_kinv]) simp_all

lemma demo_waiting:
  "\<exists>s' Q'. os_waitqueue_wait OS_TIMEOUT_INFINITE demo_prepared = ok (Switched, s') \<and>
     kinv {WaitQ 0, ReadyQ, SemQ (UserSem 0)} Q' [] s' \<and> waitqueue_current s' = None \<and> isr_nesting s' = 0 \<and> flat (Q' (WaitQ 0)) = [2]"
proof -
  have a: "WaitQ 0 \<in> {WaitQ 0, ReadyQ, SemQ (UserSem 0)}" "waitqueue_current demo_prepared = Some 0"
    "timer (task demo_prepared (task_current demo_prepared)) = None" "isr_nesting demo_prepared = 0"
    "task_current demo_prepared \<noteq> task_idle" "list_is_empty (MtxList (task_current demo_prepared)) (mxh demo_prepared)"
    "OS_TIMEOUT_INFINITE > OS_TIMEOUT_TRY" "flat (demo_queues (WaitQ 0)) = []" "task_current demo_prepared = 2"
    by (simp_all add: demo_prepared_def demo_wq_fields task_idle_def OS_TIMEOUT_INFINITE_def OS_TIMEOUT_TRY_def OS_TICKS_MAX_def
        bucket_upd_def flat_upto_def)
  show ?thesis using wait_blocks [OF demo_prepared_kinv a(2,1,3-7)] a(8,9) by auto
qed

theorem waitqueue_wait_cases_witness:
  "\<exists>s'. os_waitqueue_wait 10 demo_prepared = ok (Switched, s') \<and> ticks_left s' (BlockTimer 2) = 10"
proof -
  have a: "\<forall>w. waitqueue_current demo_prepared = Some w \<longrightarrow> WaitQ w \<in> {WaitQ 0, ReadyQ, SemQ (UserSem 0)}"
    "timer (task demo_prepared (task_current demo_prepared)) = None"
    "isr_nesting demo_prepared = 0 \<and> task_current demo_prepared \<noteq> task_idle \<and> 10 > OS_TIMEOUT_TRY \<and>
      list_is_empty (MtxList (task_current demo_prepared)) (mxh demo_prepared)"
    "waitqueue_current demo_prepared = Some 0" "task_current demo_prepared = 2"
    by (simp_all add: demo_prepared_def demo_wq_fields task_idle_def OS_TIMEOUT_TRY_def)
  show ?thesis using waitqueue_wait_cases [OF demo_prepared_kinv a(1,2), of 10] a(3-5)
    by (auto simp: OS_TIMER_TICKSREM_MAX_def OS_TIMER_UNSYNCH_MAX_def OS_TIMEOUT_INFINITE_def OS_TICKS_MAX_def)
qed

theorem waitqueue_wakeup_counts_witness:
  "\<exists>s r s'. os_waitqueue_wait OS_TIMEOUT_INFINITE demo_prepared = ok (Switched, s) \<and>
     os_waitqueue_wakeup_sync 0 1 True s = ok (r, s') \<and> block_code (task s' 2) = OS_OK"
proof -
  obtain s Q where s: "os_waitqueue_wait OS_TIMEOUT_INFINITE demo_prepared = ok (Switched, s)"
    "kinv {WaitQ 0, ReadyQ, SemQ (UserSem 0)} Q [] s" "waitqueue_current s = None" "isr_nesting s = 0" "flat (Q (WaitQ 0)) = [2]"
    using demo_waiting by blast
  have "\<exists>r s'. os_waitqueue_wakeup_sync 0 1 True s = ok (r, s') \<and> block_code (task s' 2) = OS_OK"
    using waitqueue_wakeup_counts [OF s(2), of 0 True 1] s(3-5)
    by (auto simp: Let_def to_wake_def OS_WAITQUEUE_ALL_def)
  then show ?thesis using s(1) by blast
qed

theorem waitqueue_destroy_wakes_all_witness:
  "\<exists>s r s'. os_waitqueue_wait OS_TIMEOUT_INFINITE demo_prepared = ok (Switched, s) \<and>
     os_waitqueue_destroy 0 s = ok (r, s') \<and> block_code (task s' 2) = OS_DESTROYED"
proof -
  obtain s Q where s: "os_waitqueue_wait OS_TIMEOUT_INFINITE demo_prepared = ok (Switched, s)"
    "kinv {WaitQ 0, ReadyQ, SemQ (UserSem 0)} Q [] s" "waitqueue_current s = None" "flat (Q (WaitQ 0)) = [2]"
    using demo_waiting by blast
  have "\<exists>r s'. os_waitqueue_destroy 0 s = ok (r, s') \<and> block_code (task s' 2) = OS_DESTROYED"
    using waitqueue_destroy_wakes_all [OF s(2), of 0] s(3,4) by auto
  then show ?thesis using s(1) by blast
qed

end
