(* ===== verification/Task_Life.thy ===== *)
theory Task_Life
  imports Mtx Waitqueue
begin

text \<open>
  The end of a task in \<^verbatim>\<open>os_sched.c\<close>: \<open>os_task_exit\<close> and \<open>os_task_join\<close>, which are built on
  the semaphores, and the code that runs when the scheduler gives the CPU back to a suspended
  task: \<open>resume\<close> continues the kernel function in which the task left the CPU.
\<close>

section \<open>Model\<close>

definition os_task_exit :: "int \<Rightarrow> kstate \<Rightarrow> (unit outcome \<times> kstate) kres" where
  "os_task_exit retv s =
     (let (cristate, s) = os_critical_enter s;
          s = upd_task (task_current s) (\<lambda>k. k\<lparr>ret_block := retv\<rparr>) s;
          s = upd_task (task_current s) (\<lambda>k. k\<lparr>state := TASKSTATE_DESTROYED\<rparr>) s
      in kbind (case join_sem (task s (task_current s)) of
                  None \<Rightarrow> ok (Return Void, s)
                | Some m \<Rightarrow> os_sem_up_sync m True s)
           (\<lambda>(_, s). kbind (os_taskqueue_dequeue ReadyQ s)
              (\<lambda>(new_task, s). case new_task of
                 None \<Rightarrow> fail Null_deref
               | Some new_task \<Rightarrow> ok (Switched, arch_context_switch K_Exit new_task s))))"

text \<open>The end of \<open>os_task_join\<close>, from the double check on.\<close>

definition os_task_join_tail :: "u8 \<Rightarrow> tid \<Rightarrow> kstate \<Rightarrow> (apival outcome \<times> kstate) kres" where
  "os_task_join_tail cristate t s =
     os_assert (TASKSTATE_DESTROYED = state (task s t)) s
       (let s = upd_task t (\<lambda>k. k\<lparr>state := TASKSTATE_INVALID\<rparr>) s;
            s = upd_task t (\<lambda>k. k\<lparr>join_sem := None\<rparr>) s;
            ret = ret_block (task s t)
        in ok (Return (Value ret), os_critical_exit cristate s))"

text \<open>The part between the return of \<open>os_sem_down\<close> and the double check.\<close>

definition os_task_join_woken ::
  "u8 \<Rightarrow> tid \<Rightarrow> os_retcode \<Rightarrow> kstate \<Rightarrow> (apival outcome \<times> kstate) kres" where
  "os_task_join_woken cristate t ret s =
     os_assert (OS_OK = ret) s
       (kbind (os_sem_destroy_api (\<lambda>c. K_ScheduleJoin c cristate t) (JoinSem (task_current s)) s)
          (\<lambda>(r, s). case r of
             Return _ \<Rightarrow> os_task_join_tail cristate t s
           | Switched \<Rightarrow> ok (Switched, s)))"

definition os_task_join :: "tid \<Rightarrow> kstate \<Rightarrow> (apival outcome \<times> kstate) kres" where
  "os_task_join t s =
     os_assert (0 = isr_nesting s) s
     (os_assert (task_current s \<noteq> task_idle) s
     (os_assert (waitqueue_current s = None) s
       (let (cristate, s) = os_critical_enter s
        in os_assert (join_sem (task s t) = None) s
          (os_assert (TASKSTATE_INVALID \<noteq> state (task s t)) s
            (if state (task s t) < TASKSTATE_DESTROYED
             then kbind (os_sem_create (JoinSem (task_current s)) 0 s)
                    (\<lambda>s. let m = JoinSem (task_current s);
                             s = upd_task t (\<lambda>k. k\<lparr>join_sem := Some m\<rparr>) s
                         in kbind (os_sem_down (\<lambda>c. K_JoinDown c cristate t) m
                                     OS_TIMEOUT_INFINITE s)
                              (\<lambda>(r, s). case r of
                                 Return ret \<Rightarrow> os_task_join_woken cristate t ret s
                               | Switched \<Rightarrow> ok (Switched, s)))
             else os_task_join_tail cristate t s)))))"

text \<open>The first function of a task, in the AVR and in the MSP430 port: it calls the procedure of the application, here the
  parameter \<open>app\<close>, and ends the task with its result. (If the procedure leaves the CPU inside a kernel call, it goes
  on when the task continues.)\<close>

definition arch_task_start ::
  "(u16 \<Rightarrow> u16 \<Rightarrow> kstate \<Rightarrow> (int outcome \<times> kstate) kres) \<Rightarrow> u16 \<Rightarrow> u16 \<Rightarrow> kstate \<Rightarrow> (unit outcome \<times> kstate) kres" where
  "arch_task_start app proc prm s =
     kbind (app proc prm s) (\<lambda>(r, s). case r of Return retv \<Rightarrow> os_task_exit retv s | Switched \<Rightarrow> ok (Switched, s))"

definition msp430_task_start ::
  "(u16 \<Rightarrow> u16 \<Rightarrow> kstate \<Rightarrow> (int outcome \<times> kstate) kres) \<Rightarrow> u16 \<Rightarrow> u16 \<Rightarrow> kstate \<Rightarrow> (unit outcome \<times> kstate) kres" where
  "msp430_task_start app proc prm s =
     kbind (app proc prm s) (\<lambda>(r, s). case r of Return retv \<Rightarrow> os_task_exit retv s | Switched \<Rightarrow> ok (Switched, s))"

section \<open>Resumption\<close>

text \<open>The rest of \<open>os_schedule\<close> after its context switch.\<close>

definition os_schedule_resume :: "kstate \<Rightarrow> kstate" where
  "os_schedule_resume s = upd_task (task_current s) (\<lambda>t. t\<lparr>state := TASKSTATE_RUNNING\<rparr>) s"

text \<open>What runs once the context of \<open>task_current\<close> is restored: the code after the context
  switch, up to the return to the task's own code or to the next context switch.\<close>

definition resume :: "kstate \<Rightarrow> (apival outcome \<times> kstate) kres" where
  "resume s =
     (case ctx_kont (task s (task_current s)) of
        K_Start proc prm \<Rightarrow> ok (Return (Entered proc prm), s)
      | K_Isr r \<Rightarrow> ok (Return Resumed, s)
      | K_Schedule c \<Rightarrow> ok (Return Void, os_critical_exit c (os_schedule_resume s))
      | K_ScheduleJoin c c' t \<Rightarrow>
          os_task_join_tail c' t (os_critical_exit c (os_schedule_resume s))
      | K_MtxLock c \<Rightarrow> (let (ret, s) = os_mtx_lock_resume c s in ok (Return (Code ret), s))
      | K_SemDown c \<Rightarrow> kbind (os_sem_down_resume c s) (\<lambda>(ret, s). ok (Return (Code ret), s))
      | K_JoinDown c c' t \<Rightarrow>
          kbind (os_sem_down_resume c s) (\<lambda>(ret, s). os_task_join_woken c' t ret s)
      | K_WaitqueueWait c \<Rightarrow>
          kbind (os_waitqueue_wait_resume c s) (\<lambda>(ret, s). ok (Return (Code ret), s))
      | K_Exit \<Rightarrow> os_halt s)"

section \<open>Timer callbacks\<close>

text \<open>The indirect call of a timer callback: the two timeout functions of the kernel, or a
  function of the application, given by the parameter \<open>user\<close>.\<close>

definition call_timer_proc ::
  "(nat \<Rightarrow> timer_param \<Rightarrow> kstate \<Rightarrow> kstate kres) \<Rightarrow>
   timer_proc \<Rightarrow> timer_param \<Rightarrow> kstate \<Rightarrow> kstate kres" where
  "call_timer_proc user p prm s =
     (case p of
        SemTimerClbck \<Rightarrow> os_sem_timerclbck prm s
      | WaitqueueTimerClbck \<Rightarrow> os_waitqueue_timerclbck prm s
      | UserTimerProc n \<Rightarrow> user n prm s)"

section \<open>Exit\<close>

text \<open>The current task leaves the CPU for good.\<close>

lemma exit_switch:
  assumes inv: "kinv L Q ts s" and rd: "ready Q = t # us" and c: "task_current s \<noteq> task_idle"
  shows "\<exists>s1 s' Q'. os_taskqueue_dequeue ReadyQ s = ok (Some t, s1) \<and> arch_context_switch k t s1 = s' \<and>
    kinv L Q' ts s' \<and> task_current s' = t \<and> sched_frame s s' \<and> ready Q' = us \<and> (\<forall>q. q \<noteq> ReadyQ \<longrightarrow> Q' q = Q q) \<and>
    sreg s' = kont_sreg (ctx_kont (task s t)) \<and>
    task s' = (task s)(t := (task s t)\<lparr>task_queue := None\<rparr>, task_current s := (task s (task_current s))\<lparr>ctx_kont := k\<rparr>)"
proof -
  note sinv = kinvD(1) [OF inv]
  let ?c = "task_current s" and ?Q' = "bucket_upd ReadyQ (unat (prio_current (task s t))) tl Q"
  note t = take_ready [OF sinv rd]
  obtain s1 where s1: "os_taskqueue_dequeue ReadyQ s = ok (Some t, s1)" "task_current (arch_context_switch k t s1) = t"
    "sched_frame s (arch_context_switch k t s1)" "sreg (arch_context_switch k t s1) = kont_sreg (ctx_kont (task s t))"
    "task (arch_context_switch k t s1) = (task s)(t := (task s t)\<lparr>task_queue := None\<rparr>, ?c := (task s ?c)\<lparr>ctx_kont := k\<rparr>)"
    "tq_rel L ?Q' (arch_context_switch k t s1)"
    using switch_away [OF sched_invD(1,2) [OF sinv] rd _ t(2), of k] sched_invD(3) [OF sinv] by blast
  let ?s' = "arch_context_switch k t s1"
  have "task_ok (task ?s' u)" for u using sched_invD(3) [OF sinv, of u] by (auto simp: s1(5))
  then have sinv': "sched_inv L ?Q' ?s'"
    using s1(2,5,6) t sched_invD(2,6) [OF sinv] c by (auto simp: sched_inv_def)
  moreover have "floating ?s' = {}"
    using kinvD(3) [OF inv] t sched_invD(4,5) [OF sinv] by (auto simp: floating_def s1(5))
  moreover have "block_inv {} ts ?s'"
    by (rule block_inv_cong [OF kinvD(2) [OF inv]])
      (use s1(3,5) block_invD(4) [OF kinvD(2) [OF inv]] in \<open>auto simp: sched_frame_iff\<close>)
  ultimately have "kinv L ?Q' ts ?s'" by (simp add: kinv_def)
  moreover have "ready ?Q' = us" by (rule take_first(2) [OF sched_invD(1,2) [OF sinv] rd refl])
  ultimately show ?thesis using s1(1-5)
    by (intro exI [of _ s1] exI [of _ ?s'] exI [of _ ?Q']) (simp add: bucket_upd_def)
qed

text \<open>The first part of \<open>os_task_exit\<close>: the return value is stored and the task is marked.\<close>

definition exiting :: "int \<Rightarrow> kstate \<Rightarrow> kstate" where
  "exiting retv s = (s\<lparr>sreg := arch_dint (sreg s), task := (task s)(task_current s :=
     (task s (task_current s))\<lparr>ret_block := retv, state := TASKSTATE_DESTROYED\<rparr>)\<rparr>)"

lemma exit_unfold:
  "os_task_exit retv s = kbind (case join_sem (task s (task_current s)) of
       None \<Rightarrow> ok (Return Void, exiting retv s) | Some m \<Rightarrow> os_sem_up_sync m True (exiting retv s))
     (\<lambda>(_, s). kbind (os_taskqueue_dequeue ReadyQ s) (\<lambda>(new_task, s). case new_task of
        None \<Rightarrow> fail Null_deref | Some new_task \<Rightarrow> ok (Switched, arch_context_switch K_Exit new_task s)))"
  by (simp add: os_task_exit_def exiting_def upd_task_def Let_def fun_upd_upd cong: option.case_cong)

lemma exiting_kinv:
  assumes inv: "kinv L Q ts s"
  shows "kinv L Q ts (exiting retv s)"
proof -
  let ?c = "task_current s" and ?f = "\<lambda>k :: os_task. k\<lparr>ret_block := retv, state := TASKSTATE_DESTROYED\<rparr>"
  have free: "task_queue (task s ?c) = None" "state (task s ?c) \<noteq> TASKSTATE_WAIT"
    using sched_invD(4,5) [OF kinvD(1) [OF inv]] by auto
  have "task_ok (?f (task s ?c))" using sched_invD(3) [OF kinvD(1) [OF inv], of ?c] free by (simp add: task_ok_def)
  then have "sched_inv L Q (upd_task ?c ?f s)" "floating (upd_task ?c ?f s) = {}"
    using sched_inv_upd_free [OF kinvD(1) [OF inv] free(1), of ?f] free kinvD(3) [OF inv] by auto
  moreover have "block_inv {} ts (upd_task ?c ?f s)"
    by (rule block_inv_cong [OF kinvD(2) [OF inv]])
      (use block_invD(4) [OF kinvD(2) [OF inv]] free(2) in \<open>auto simp: task_upd_task\<close>)
  ultimately have "kinv L Q ts (upd_task ?c ?f s)" by (simp add: kinv_def)
  then show ?thesis by (rule kinv_same) (simp_all add: exiting_def upd_task_def)
qed

text \<open>In synchronous mode \<open>os_sem_up\<close> wakes up the first waiter and never gives the CPU away.\<close>

lemma up_sync_waiter:
  assumes inv: "kinv L Q ts s" and m: "SemQ m \<in> L" and fl: "flat (Q (SemQ m)) = j # us"
    and g: "isr_nesting s = 0" "waitqueue_current s = None" "sem_value (sem s m) < ARCH_ATOMIC_MAX - 1"
  shows "\<exists>s' Q' ts'. os_sem_up_sync m True s = ok (Return Void, s') \<and> kinv L Q' ts' s' \<and>
    all_woken OS_OK (SemQ m) [j] (Q, ts, s) (Q', ts', s')"
proof -
  let ?s0 = "s\<lparr>sreg := arch_dint (sreg s)\<rparr>"
  have "waiters L (SemQ m) (j # us) (Q, ts, ?s0)" using kinv_dint [OF inv] m fl by (simp add: waiters_def)
  then obtain s1 Q' ts' s2 where s1: "os_taskqueue_dequeue (SemQ m) ?s0 = ok (Some j, s1)" "wake OS_OK j s1 = ok s2"
    "waiters L (SemQ m) us (Q', ts', s2)" "all_woken OS_OK (SemQ m) [j] (Q, ts, ?s0) (Q', ts', s2)"
    using wake_first_waiter [of L "SemQ m" j us Q ts ?s0 OS_OK] by blast
  have "os_sem_up_sync m True s = ok (Return Void, s2\<lparr>sreg := sreg s\<rparr>)"
    using g s1(1,2) wake_then [where t = j and s = s1 and c = OS_OK and F = "\<lambda>s2. ok (Return Void, s2\<lparr>sreg := sreg s\<rparr>)"]
    by (simp add: os_sem_up_sync_def)
  moreover have "kinv L Q' ts' (s2\<lparr>sreg := sreg s\<rparr>)" using s1(3) kinv_dint by (auto simp: waiters_def)
  moreover have "all_woken OS_OK (SemQ m) [j] (Q, ts, s) (Q', ts', s2\<lparr>sreg := sreg s\<rparr>)"
    using s1(4) by (simp add: all_woken_def core_frame_def cong: if_cong)
  ultimately show ?thesis by blast
qed

text \<open>The tasks that a finishing task wakes up: the one that waits in \<open>os_task_join\<close>, if any.\<close>

definition joiners :: "queues \<Rightarrow> kstate \<Rightarrow> tid list" where
  "joiners Q s = (case join_sem (task s (task_current s)) of None \<Rightarrow> [] | Some m \<Rightarrow> flat (Q (SemQ m)))"

definition joinable :: "qid set \<Rightarrow> queues \<Rightarrow> kstate \<Rightarrow> bool" where
  "joinable L Q s \<longleftrightarrow> (\<forall>m. join_sem (task s (task_current s)) = Some m \<longrightarrow>
     SemQ m \<in> L \<and> length (flat (Q (SemQ m))) = 1 \<and> isr_nesting s = 0 \<and> waitqueue_current s = None \<and>
     sem_value (sem s m) < ARCH_ATOMIC_MAX - 1)"

lemma exit_wakes:
  assumes inv: "kinv L Q ts s" and j: "joinable L Q s"
  shows "\<exists>s' Q' ts'. (case join_sem (task s (task_current s)) of
       None \<Rightarrow> ok (Return Void, exiting retv s) | Some m \<Rightarrow> os_sem_up_sync m True (exiting retv s)) = ok (Return Void, s') \<and>
     kinv L Q' ts' s' \<and> core_frame s s' \<and> task_current s' = task_current s \<and>
     task s' = (\<lambda>t. if t \<in> set (joiners Q s)
       then (task (exiting retv s) t)\<lparr>timer := None, ret_block := retcode_value OS_OK,
         state := TASKSTATE_READY, task_queue := Some ReadyQ\<rparr>
       else task (exiting retv s) t) \<and>
     ready Q' = fold (prio_insert (\<lambda>t. prio_current (task s t))) (joiners Q s) (ready Q) \<and>
     (\<forall>m. join_sem (task s (task_current s)) = Some m \<longrightarrow> flat (Q' (SemQ m)) = []) \<and>
     set ts' = set ts - BlockTimer ` set (joiners Q s)"
proof (cases "join_sem (task s (task_current s))")
  case None
  then show ?thesis
    using exiting_kinv [OF inv, of retv]
    by (intro exI [of _ "exiting retv s"] exI [of _ Q] exI [of _ ts])
      (simp add: joiners_def core_frame_def exiting_def fun_eq_iff)
next
  case (Some m)
  note J = j [unfolded joinable_def, rule_format, OF Some]
  obtain w where w: "flat (Q (SemQ m)) = [w]" using J by (auto simp: length_Suc_conv)
  obtain s' Q' ts' where s': "os_sem_up_sync m True (exiting retv s) = ok (Return Void, s')" "kinv L Q' ts' s'"
    "all_woken OS_OK (SemQ m) [w] (Q, ts, exiting retv s) (Q', ts', s')"
    using up_sync_waiter [OF exiting_kinv [OF inv, of retv] _ w] J by (auto simp: exiting_def)
  have "(\<lambda>t. prio_current (task (exiting retv s) t)) = (\<lambda>t. prio_current (task s t))" by (auto simp: exiting_def)
  then show ?thesis
    using Some w s' by (intro exI [of _ s'] exI [of _ Q'] exI [of _ ts'])
      (auto simp: joiners_def all_woken_def core_frame_def exiting_def)
qed

lemma exit_result:
  assumes inv: "kinv L Q ts s" and c: "task_current s \<noteq> task_idle" and j: "joinable L Q s"
    and rd: "rd = fold (prio_insert (\<lambda>t. prio_current (task s t))) (joiners Q s) (ready Q)"
  shows "\<exists>s' Q' ts'. os_task_exit retv s = ok (Switched, s') \<and> kinv L Q' ts' s' \<and> core_frame s s' \<and>
    task_current s' = hd rd \<and> ready Q' = tl rd \<and> hd rd \<noteq> task_current s \<and> task_current s \<notin> set (joiners Q s) \<and>
    task s' = (\<lambda>t. if t = task_current s
       then (task s t)\<lparr>ret_block := retv, state := TASKSTATE_DESTROYED, ctx_kont := K_Exit\<rparr>
       else (let k = (if t \<in> set (joiners Q s)
          then (task s t)\<lparr>timer := None, ret_block := retcode_value OS_OK, state := TASKSTATE_READY, task_queue := Some ReadyQ\<rparr>
          else task s t) in if t = hd rd then k\<lparr>task_queue := None\<rparr> else k)) \<and>
    (\<forall>m. join_sem (task s (task_current s)) = Some m \<longrightarrow> flat (Q' (SemQ m)) = [])"
proof -
  let ?c = "task_current s"
  obtain s1 Q1 ts' where s1: "(case join_sem (task s ?c) of
       None \<Rightarrow> ok (Return Void, exiting retv s) | Some m \<Rightarrow> os_sem_up_sync m True (exiting retv s)) = ok (Return Void, s1)"
    "kinv L Q1 ts' s1" "core_frame s s1" "task_current s1 = ?c" "ready Q1 = rd"
    "task s1 = (\<lambda>t. if t \<in> set (joiners Q s)
       then (task (exiting retv s) t)\<lparr>timer := None, ret_block := retcode_value OS_OK,
         state := TASKSTATE_READY, task_queue := Some ReadyQ\<rparr> else task (exiting retv s) t)"
    "\<forall>m. join_sem (task s ?c) = Some m \<longrightarrow> flat (Q1 (SemQ m)) = []"
    using exit_wakes [OF inv j, of retv] unfolding rd by blast
  obtain t us where rd': "rd = t # us" using ready_nonempty(2) [OF kinvD(1) [OF s1(2)]] s1(4,5) c by auto
  obtain s2 s' Q' where s': "os_taskqueue_dequeue ReadyQ s1 = ok (Some t, s2)" "arch_context_switch K_Exit t s2 = s'"
    "kinv L Q' ts' s'" "task_current s' = t" "sched_frame s1 s'" "ready Q' = us" "\<forall>q. q \<noteq> ReadyQ \<longrightarrow> Q' q = Q1 q"
    "task s' = (task s1)(t := (task s1 t)\<lparr>task_queue := None\<rparr>, ?c := (task s1 ?c)\<lparr>ctx_kont := K_Exit\<rparr>)"
    using exit_switch [OF s1(2) s1(5) [unfolded rd'], of K_Exit] s1(4) c by auto
  have cj: "?c \<notin> set (joiners Q s)" using sched_invD(4) [OF kinvD(1) [OF s1(2)]] s1(4) by (auto simp: s1(6))
  have t: "t \<noteq> ?c" using take_ready(2) [OF kinvD(1) [OF s1(2)]] s1(4,5) rd' by auto
  have "task s' = (\<lambda>u. if u = ?c then (task s u)\<lparr>ret_block := retv, state := TASKSTATE_DESTROYED, ctx_kont := K_Exit\<rparr>
       else (let k = (if u \<in> set (joiners Q s)
          then (task s u)\<lparr>timer := None, ret_block := retcode_value OS_OK, state := TASKSTATE_READY, task_queue := Some ReadyQ\<rparr>
          else task s u) in if u = hd rd then k\<lparr>task_queue := None\<rparr> else k))"
    using cj t rd' by (auto simp: fun_eq_iff s'(8) s1(6) exiting_def Let_def simp del: retcode_value.simps)
  moreover have "os_task_exit retv s = ok (Switched, s')" using s1(1) s'(1,2) by (simp add: exit_unfold)
  moreover have "core_frame s s'" using core_frame_trans [OF s1(3) core_frames(3) [OF s'(5)]] .
  ultimately show ?thesis using s'(3,4,6,7) s1(7) t cj rd'
    by (intro exI [of _ s'] exI [of _ Q'] exI [of _ ts']) simp
qed

text \<open>C31. \<open>os_task_exit\<close> ends the task: its return value is stored, its state is \<open>DESTROYED\<close> and no queue
  holds it any more; the task that waits in \<open>os_task_join\<close> becomes ready with \<open>OS_OK\<close>, and the CPU goes
  to the first ready task (the waiting task may be that), never back to the caller: the ready queue
  is never empty, and \<open>os_task_exit\<close> does not return.\<close>

theorem task_exit_hands_over:
  assumes "kinv L Q ts s" and "task_current s \<noteq> task_idle" and "joinable L Q s"
    and "rd = fold (prio_insert (\<lambda>t. prio_current (task s t))) (joiners Q s) (ready Q)"
  shows "\<exists>s' Q' ts'. os_task_exit retv s = ok (Switched, s') \<and> kinv L Q' ts' s' \<and>
    task_current s' = hd rd \<and> ready Q' = tl rd \<and> hd rd \<noteq> task_current s \<and>
    state (task s' (task_current s)) = TASKSTATE_DESTROYED \<and> ret_block (task s' (task_current s)) = retv \<and>
    (\<forall>q. task_current s \<notin> set (flat (Q' q))) \<and>
    (\<forall>j \<in> set (joiners Q s). state (task s' j) = TASKSTATE_READY \<and> block_code (task s' j) = OS_OK)"
proof -
  obtain s' Q' ts' where s': "os_task_exit retv s = ok (Switched, s')" "kinv L Q' ts' s'"
    "task_current s' = hd rd" "ready Q' = tl rd" "hd rd \<noteq> task_current s" "task_current s \<notin> set (joiners Q s)"
    "task s' = (\<lambda>t. if t = task_current s
       then (task s t)\<lparr>ret_block := retv, state := TASKSTATE_DESTROYED, ctx_kont := K_Exit\<rparr>
       else (let k = (if t \<in> set (joiners Q s)
          then (task s t)\<lparr>timer := None, ret_block := retcode_value OS_OK, state := TASKSTATE_READY, task_queue := Some ReadyQ\<rparr>
          else task s t) in if t = hd rd then k\<lparr>task_queue := None\<rparr> else k))"
    using exit_result [OF assms, of retv] by blast
  have "task_queue (task s' (task_current s)) = None"
    using sched_invD(4) [OF kinvD(1) [OF assms(1)]] by (simp add: s'(7))
  then have "task_current s \<notin> set (flat (Q' q))" for q by (simp add: kinv_members [OF s'(2)])
  moreover have "state (task s' j) = TASKSTATE_READY \<and> block_code (task s' j) = OS_OK" if "j \<in> set (joiners Q s)" for j
    using that s'(6) by (auto simp: s'(7) Let_def block_code_def simp del: retcode_value.simps)
  moreover have "state (task s' (task_current s)) = TASKSTATE_DESTROYED" "ret_block (task s' (task_current s)) = retv"
    by (simp_all add: s'(7))
  ultimately show ?thesis using s'(1-5)
    by (intro exI [of _ s'] exI [of _ Q'] exI [of _ ts']) auto
qed

section \<open>Join\<close>

text \<open>Destroying a semaphore nobody waits for, while no ready task exceeds the caller.\<close>

lemma sem_destroy_idle:
  assumes inv: "kinv L Q ts s" and m: "SemQ m \<in> L" and g: "isr_nesting s = 0" "waitqueue_current s = None"
    and e: "flat (Q (SemQ m)) = []"
    and top: "\<forall>u \<in> set (ready Q). prio_current (task s u) \<le> prio_current (task s (task_current s))"
  shows "\<exists>s'. os_sem_destroy_api k m s = ok (Return (), s') \<and> kinv (L - {SemQ m}) Q ts s' \<and>
    task s' = task s \<and> task_current s' = task_current s \<and> sreg s' = sreg s \<and> sem s' = (sem s)(m := \<lparr>sem_value = 0\<rparr>)"
proof -
  let ?s0 = "s\<lparr>sreg := arch_dint (sreg s)\<rparr>"
  let ?s1 = "(memset_taskqueue (SemQ m) ?s0)\<lparr>sem := (sem s)(m := \<lparr>sem_value = 0\<rparr>)\<rparr>"
  have "waiters L (SemQ m) [] (Q, ts, ?s0)" using kinv_dint [OF inv] m e by (simp add: waiters_def)
  then have loop: "wakeup_all_loop (SemQ m) ?s0 = ok ?s0"
    using no_waiter [of L "SemQ m" Q ts ?s0] by (simp add: wakeup_all_loop_wake)
  have inv1: "kinv (L - {SemQ m}) Q ts ?s1"
    by (rule kinv_same [OF kinv_memset_queue [OF kinv_dint [OF inv] _ e, of "arch_dint (sreg s)"]]) simp_all
  have "\<not> preempts 1 ?s1 (ready Q)"
    unfolding preempts_higher [OF inv1] using top by (cases "ready Q") (auto simp: memset_taskqueue_def)
  then have "kbind (os_schedule (k (sreg s)) 1 ?s1) (sched_exit (sreg s) ()) = ok (Return (), ?s1\<lparr>sreg := sreg s\<rparr>)"
    using kinv_schedule_exit [OF inv1, of "k (sreg s)" 1 "sreg s" "()"] by (auto simp: memset_taskqueue_def)
  then show ?thesis
    using g loop kinv_dint [OF inv1, of "sreg s"]
    by (simp add: os_sem_destroy_api_def os_sem_destroy_def memset_taskqueue_def)
qed

text \<open>The end of \<open>os_task_join\<close> once the joined task has finished.\<close>

text \<open>A task whose procedure returns has ended: it keeps the returned value for \<open>os_task_join\<close>, and another task runs.\<close>

lemma task_start_ends:
  assumes "app proc prm s0 = ok (Return retv, s)" and inv: "kinv L Q ts s" and c: "task_current s \<noteq> task_idle" and j: "joinable L Q s"
  shows "\<exists>s'. arch_task_start app proc prm s0 = ok (Switched, s') \<and> msp430_task_start app proc prm s0 = ok (Switched, s') \<and>
    task_current s' \<noteq> task_current s \<and> ret_block (task s' (task_current s)) = retv \<and>
    state (task s' (task_current s)) = TASKSTATE_DESTROYED"
  using exit_result [OF inv c j refl, of retv] assms(1) by (auto simp: arch_task_start_def msp430_task_start_def)

lemma join_tail_result:
  assumes inv: "kinv L Q ts s" and t: "state (task s t) = TASKSTATE_DESTROYED" "task_queue (task s t) = None"
    and e: "s' = s\<lparr>sreg := c, task := (task s)(t := (task s t)\<lparr>state := TASKSTATE_INVALID, join_sem := None\<rparr>)\<rparr>"
  shows "os_task_join_tail c t s = ok (Return (Value (ret_block (task s t))), s')" and "kinv L Q ts s'"
proof -
  let ?f = "\<lambda>k :: os_task. k\<lparr>state := TASKSTATE_INVALID, join_sem := None\<rparr>"
  show "os_task_join_tail c t s = ok (Return (Value (ret_block (task s t))), s')"
    using t(1) by (simp add: os_task_join_tail_def e upd_task_def)
  have "task_ok (?f (task s t))" using sched_invD(3) [OF kinvD(1) [OF inv], of t] t by (simp add: task_ok_def)
  then have "sched_inv L Q (upd_task t ?f s)" "floating (upd_task t ?f s) = {}"
    using sched_inv_upd_free [OF kinvD(1) [OF inv] t(2), of ?f] t kinvD(3) [OF inv] by auto
  moreover have "block_inv {} ts (upd_task t ?f s)"
    by (rule block_inv_cong [OF kinvD(2) [OF inv]])
      (use block_invD(4) [OF kinvD(2) [OF inv]] t(1) in \<open>auto simp: task_upd_task\<close>)
  ultimately have "kinv L Q ts (upd_task t ?f s)" by (simp add: kinv_def)
  then show "kinv L Q ts s'" by (rule kinv_same) (simp_all add: e upd_task_def)
qed

text \<open>The task \<open>c\<close> waits in \<open>os_task_join\<close> for the task \<open>t\<close>.\<close>

definition joining :: "qid set \<Rightarrow> queues \<Rightarrow> tid \<Rightarrow> tid \<Rightarrow> u8 \<Rightarrow> kstate \<Rightarrow> bool" where
  "joining L Q c t r s \<longleftrightarrow> join_sem (task s t) = Some (JoinSem c) \<and> SemQ (JoinSem c) \<in> L \<and>
     flat (Q (SemQ (JoinSem c))) = [c] \<and> sem_value (sem s (JoinSem c)) = 0 \<and>
     ctx_kont (task s c) = K_JoinDown (arch_dint r) r t"

lemma join_blocks_run:
  assumes inv: "kinv L Q ts s" and none: "timer (task s (task_current s)) = None"
    and g: "isr_nesting s = 0" "task_current s \<noteq> task_idle" "waitqueue_current s = None"
      "list_is_empty (MtxList (task_current s)) (mxh s)" "join_sem (task s t) = None"
    and m: "SemQ (JoinSem (task_current s)) \<notin> L"
    and st: "state (task s t) < TASKSTATE_DESTROYED" "state (task s t) \<noteq> TASKSTATE_INVALID"
    and tk: "tk = (task s)(t := (task s t)\<lparr>join_sem := Some (JoinSem (task_current s))\<rparr>)"
  shows "\<exists>s' Q' ts'. os_task_join t s = ok (Switched, s') \<and>
    kinv (insert (SemQ (JoinSem (task_current s))) L) Q' ts' s' \<and> task_current s' = hd (ready Q) \<and>
    ready Q' = tl (ready Q) \<and> joining (insert (SemQ (JoinSem (task_current s))) L) Q' (task_current s) t (sreg s) s' \<and>
    isr_nesting s' = 0 \<and> waitqueue_current s' = None \<and> (\<forall>u. prio_current (task s' u) = prio_current (task s u)) \<and>
    task s' = tk(hd (ready Q) := (tk (hd (ready Q)))\<lparr>task_queue := None\<rparr>,
      task_current s := (tk (task_current s))\<lparr>timer := None, state := TASKSTATE_WAIT, block_type := OS_TASKBLOCK_SEM,
        task_queue := Some (SemQ (JoinSem (task_current s))), ctx_kont := K_JoinDown (arch_dint (sreg s)) (sreg s) t\<rparr>) \<and>
    mxh s' = mxh s \<and> mtx s' = mtx s \<and> sem s' = (sem s)(JoinSem (task_current s) := \<lparr>sem_value = 0\<rparr>) \<and> sched_lock s' = sched_lock s"
proof -
  let ?c = "task_current s" and ?m = "JoinSem (task_current s)" and ?s0 = "s\<lparr>sreg := arch_dint (sreg s)\<rparr>"
  let ?L = "insert (SemQ ?m) L" and ?k = "\<lambda>c. K_JoinDown c (sreg s) t"
  obtain s1 where s1: "os_sem_create ?m 0 ?s0 = ok s1" "kinv ?L Q ts s1" "flat (Q (SemQ ?m)) = []"
    "sem s1 = (sem s)(?m := \<lparr>sem_value = 0\<rparr>)" "task s1 = task s" "task_current s1 = ?c"
    "sreg s1 = arch_dint (sreg s)" "isr_nesting s1 = 0" "waitqueue_current s1 = None" "mxh s1 = mxh s"
    "mtx s1 = mtx s" "sched_lock s1 = sched_lock s"
    using sem_create_result [OF kinv_dint [OF inv] m, of 0 "arch_dint (sreg s)"] g(1,3) by (auto simp: ARCH_ATOMIC_MAX_def)
  let ?s2 = "upd_task t (\<lambda>k. k\<lparr>join_sem := Some ?m\<rparr>) s1"
  have inv2: "kinv ?L Q ts ?s2" by (rule kinv_upd_task [OF s1(2)]) simp_all
  have f2: "timer (task ?s2 ?c) = None" "(\<lambda>u. prio_current (task ?s2 u)) = (\<lambda>u. prio_current (task s u))"
    "join_sem (task ?s2 t) = Some ?m" "task ?s2 = tk"
    using none s1(5) by (auto simp: task_upd_task tk)
  have c2: "task_current ?s2 = ?c" "sreg ?s2 = arch_dint (sreg s)" by (simp_all add: s1(6,7))
  have to: "OS_TIMEOUT_INFINITE \<noteq> OS_TIMEOUT_TRY" by (simp add: OS_TIMEOUT_TRY_def OS_TIMEOUT_INFINITE_def OS_TICKS_MAX_def)
  have pre: "SemQ ?m \<in> ?L" "timer (task ?s2 (task_current ?s2)) = None" "isr_nesting ?s2 = 0" "task_current ?s2 \<noteq> task_idle"
    "waitqueue_current ?s2 = None" "list_is_empty (MtxList (task_current ?s2)) (mxh ?s2)" "sem_value (sem ?s2 ?m) = 0"
    using f2(1) s1(4,6,8-10) g(2,4) by simp_all
  obtain s' Q' ts' where s': "os_sem_down ?k ?m OS_TIMEOUT_INFINITE ?s2 = ok (Switched, s')"
    "kinv ?L Q' ts' s'" "core_frame ?s2 s'" "task_current s' = hd (ready Q)" "ready Q' = tl (ready Q)"
    "flat (Q' (SemQ ?m)) = prio_insert (\<lambda>t. prio_current (task ?s2 t)) ?c (flat (Q (SemQ ?m)))"
    "ctx_kont (task s' ?c) = K_JoinDown (arch_dint (sreg s)) (sreg s) t"
    "\<forall>u. prio_current (task s' u) = prio_current (task ?s2 u) \<and> join_sem (task s' u) = join_sem (task ?s2 u)"
    "\<exists>g. task s' = tk(hd (ready Q) := (tk (hd (ready Q)))\<lparr>task_queue := None\<rparr>,
      ?c := (tk ?c)\<lparr>timer := g, state := TASKSTATE_WAIT, block_type := OS_TASKBLOCK_SEM,
        task_queue := Some (SemQ ?m), ctx_kont := K_JoinDown (arch_dint (sreg s)) (sreg s) t\<rparr>)" "timer (task s' ?c) = None"
    using sem_down_blocks [OF inv2 pre to, of ?k] unfolding c2 f2(4) by blast
  have one: "flat (Q' (SemQ ?m)) = [?c]" using s'(6) s1(3) by (simp add: prio_insert_def)
  have "os_task_join t s = ok (Switched, s')"
    using g(1-3,5) st s1(1,6) s'(1) by (simp add: os_task_join_def)
  moreover have "joining ?L Q' ?c t (sreg s) s'" "isr_nesting s' = 0" "waitqueue_current s' = None"
    using s'(3,7,8) one f2(3) s1(4,8,9) by (auto simp: joining_def core_frame_def)
  moreover have "mxh s' = mxh s" "mtx s' = mtx s" "sem s' = (sem s)(?m := \<lparr>sem_value = 0\<rparr>)" "sched_lock s' = sched_lock s"
    using s'(3) s1(4,10-12) by (simp_all add: core_frame_def)
  moreover have "task s' = tk(hd (ready Q) := (tk (hd (ready Q)))\<lparr>task_queue := None\<rparr>,
      ?c := (tk ?c)\<lparr>timer := None, state := TASKSTATE_WAIT, block_type := OS_TASKBLOCK_SEM,
        task_queue := Some (SemQ ?m), ctx_kont := K_JoinDown (arch_dint (sreg s)) (sreg s) t\<rparr>)"
    using s'(9,10) by auto
  ultimately show ?thesis using s'(2,4,5,8) fun_cong [OF f2(2)]
    by (intro exI [of _ s'] exI [of _ Q'] exI [of _ ts']) auto
qed

lemma join_blocks:
  assumes inv: "kinv L Q ts s" and none: "timer (task s (task_current s)) = None"
    and g: "isr_nesting s = 0" "task_current s \<noteq> task_idle" "waitqueue_current s = None"
      "list_is_empty (MtxList (task_current s)) (mxh s)" "join_sem (task s t) = None"
    and m: "SemQ (JoinSem (task_current s)) \<notin> L"
    and st: "state (task s t) < TASKSTATE_DESTROYED" "state (task s t) \<noteq> TASKSTATE_INVALID"
  shows "\<exists>s' Q' ts'. os_task_join t s = ok (Switched, s') \<and>
    kinv (insert (SemQ (JoinSem (task_current s))) L) Q' ts' s' \<and> task_current s' = hd (ready Q) \<and>
    ready Q' = tl (ready Q) \<and> joining (insert (SemQ (JoinSem (task_current s))) L) Q' (task_current s) t (sreg s) s' \<and>
    isr_nesting s' = 0 \<and> waitqueue_current s' = None \<and> (\<forall>u. prio_current (task s' u) = prio_current (task s u))"
  using join_blocks_run [OF assms refl] by blast

lemma destroyed_unqueued:
  "sched_inv L Q s \<Longrightarrow> state (task s t) = TASKSTATE_DESTROYED \<Longrightarrow> task_queue (task s t) = None"
  using sched_invD(3) [of L Q s t] by (cases "task_queue (task s t)") (auto simp: task_ok_def split: if_splits)

lemma join_resumes:
  assumes inv: "kinv L Q ts s" and c: "task_current s = c" and k: "ctx_kont (task s c) = K_JoinDown r' r t"
    and m: "SemQ (JoinSem c) \<in> L" "flat (Q (SemQ (JoinSem c))) = []" and t: "t \<noteq> c"
    and g: "isr_nesting s = 0" "waitqueue_current s = None" "block_code (task s c) = OS_OK"
    and st: "state (task s t) = TASKSTATE_DESTROYED"
    and top: "\<forall>u \<in> set (ready Q). prio_current (task s u) \<le> prio_current (task s c)"
  shows "\<exists>s' ts'. resume s = ok (Return (Value (ret_block (task s t))), s') \<and> kinv (L - {SemQ (JoinSem c)}) Q ts' s' \<and>
    task_current s' = c \<and> sreg s' = r \<and> state (task s' t) = TASKSTATE_INVALID \<and> join_sem (task s' t) = None"
proof -
  obtain s1 ts' where s1: "os_sem_down_resume r' s = ok (OS_OK, s1)" "kinv L Q ts' s1" "core_frame s s1"
    "task_current s1 = c" "sreg s1 = r'"
    "task s1 = (task s)(c := (task s c)\<lparr>state := TASKSTATE_RUNNING, timer := None\<rparr>)"
    using sem_down_resume_result [OF inv, of r'] c g(3) by auto
  have top1: "\<forall>u \<in> set (ready Q). prio_current (task s1 u) \<le> prio_current (task s1 (task_current s1))"
    using top by (simp add: s1(4,6))
  obtain s2 where s2: "os_sem_destroy_api (\<lambda>c. K_ScheduleJoin c r t) (JoinSem c) s1 = ok (Return (), s2)"
    "kinv (L - {SemQ (JoinSem c)}) Q ts' s2" "task s2 = task s1" "task_current s2 = c"
    using sem_destroy_idle [OF s1(2) m(1) _ _ m(2) top1, of "\<lambda>c. K_ScheduleJoin c r t"] s1(3,4) g(1,2)
    by (auto simp: core_frame_def)
  have st2: "state (task s2 t) = TASKSTATE_DESTROYED" using st t by (simp add: s2(3) s1(6))
  note tail = join_tail_result [OF s2(2) st2 destroyed_unqueued [OF kinvD(1) [OF s2(2)] st2] refl, of r]
  have "ret_block (task s2 t) = ret_block (task s t)" using t by (simp add: s2(3) s1(6))
  then have "resume s = ok (Return (Value (ret_block (task s t))), s2\<lparr>sreg := r,
      task := (task s2)(t := (task s2 t)\<lparr>state := TASKSTATE_INVALID, join_sem := None\<rparr>)\<rparr>)"
    using k c s1(1,4) s2(1) tail(1) by (simp add: resume_def os_task_join_woken_def)
  then show ?thesis using tail(2) s2(4) by auto
qed

text \<open>A task that has finished is joined at once.\<close>

lemma join_finished:
  assumes inv: "kinv L Q ts s" and g: "isr_nesting s = 0" "task_current s \<noteq> task_idle" "waitqueue_current s = None"
    "join_sem (task s t) = None" and t: "state (task s t) = TASKSTATE_DESTROYED"
    and s': "s' = s\<lparr>task := (task s)(t := (task s t)\<lparr>state := TASKSTATE_INVALID, join_sem := None\<rparr>)\<rparr>"
  shows "os_task_join t s = ok (Return (Value (ret_block (task s t))), s')" and "kinv L Q ts s'"
proof -
  let ?s0 = "s\<lparr>sreg := arch_dint (sreg s)\<rparr>"
  have d: "state (task ?s0 t) = TASKSTATE_DESTROYED" "task_queue (task ?s0 t) = None"
    using t destroyed_unqueued [OF kinvD(1) [OF inv] t] by simp_all
  have eq: "s' = ?s0\<lparr>sreg := sreg s, task := (task ?s0)(t := (task ?s0 t)\<lparr>state := TASKSTATE_INVALID, join_sem := None\<rparr>)\<rparr>"
    by (simp add: s')
  note tail = join_tail_result [OF kinv_dint [OF inv] d eq]
  show "os_task_join t s = ok (Return (Value (ret_block (task s t))), s')"
    using g t tail(1) by (simp add: os_task_join_def less_os_taskstate_def)
  show "kinv L Q ts s'" by (rule tail(2))
qed

text \<open>C32. \<open>os_task_join\<close>: if the task has finished, the call returns its return value at once and marks it as
  joined; if not, the caller blocks on a semaphore of its own, which the task's \<open>join_sem\<close> names, and
  the first ready task runs. A second join of the same task (at the same time or later), a call in an
  interrupt, by the idle task, after \<open>os_waitqueue_prepare\<close>, or that would block while the caller owns a
  mutex, halts.\<close>

theorem task_join_cases:
  assumes inv: "kinv L Q ts s" and none: "timer (task s (task_current s)) = None"
    and m: "SemQ (JoinSem (task_current s)) \<notin> L"
  shows "(if isr_nesting s = 0 \<and> task_current s \<noteq> task_idle \<and> waitqueue_current s = None \<and>
      join_sem (task s t) = None \<and> state (task s t) \<noteq> TASKSTATE_INVALID
    then if state (task s t) = TASKSTATE_DESTROYED
      then os_task_join t s = ok (Return (Value (ret_block (task s t))),
          s\<lparr>task := (task s)(t := (task s t)\<lparr>state := TASKSTATE_INVALID, join_sem := None\<rparr>)\<rparr>) \<and>
        kinv L Q ts (s\<lparr>task := (task s)(t := (task s t)\<lparr>state := TASKSTATE_INVALID, join_sem := None\<rparr>)\<rparr>)
      else if list_is_empty (MtxList (task_current s)) (mxh s)
      then \<exists>s' Q' ts'. os_task_join t s = ok (Switched, s') \<and>
        kinv (insert (SemQ (JoinSem (task_current s))) L) Q' ts' s' \<and> task_current s' = hd (ready Q) \<and>
        ready Q' = tl (ready Q) \<and> joining (insert (SemQ (JoinSem (task_current s))) L) Q' (task_current s) t (sreg s) s' \<and>
        isr_nesting s' = 0 \<and> waitqueue_current s' = None \<and> (\<forall>u. prio_current (task s' u) = prio_current (task s u))
      else \<exists>s'. os_task_join t s = fail (Halted s')
    else \<exists>s'. os_task_join t s = fail (Halted s'))" (is "if ?g then _ else _")
proof (cases ?g)
  case False
  then show ?thesis by (auto simp: os_task_join_def os_assert_def os_halt_def Let_def)
next
  case True
  consider (finished) "state (task s t) = TASKSTATE_DESTROYED"
    | (free) "state (task s t) \<noteq> TASKSTATE_DESTROYED" "list_is_empty (MtxList (task_current s)) (mxh s)"
    | (owner) "state (task s t) \<noteq> TASKSTATE_DESTROYED" "\<not> list_is_empty (MtxList (task_current s)) (mxh s)" by blast
  then show ?thesis
  proof cases
    case finished
    then show ?thesis using True join_finished [OF inv _ _ _ _ finished refl] by simp
  next
    case free
    then have st: "state (task s t) < TASKSTATE_DESTROYED" using True by (cases "state (task s t)") (simp_all add: less_os_taskstate_def)
    show ?thesis
      unfolding if_P [OF True] if_not_P [OF free(1)] if_P [OF free(2)]
      by (rule join_blocks [OF inv none _ _ _ free(2) _ m st]) (use True in simp_all)
  next
    case owner
    then have st: "state (task s t) < TASKSTATE_DESTROYED" using True by (cases "state (task s t)") (simp_all add: less_os_taskstate_def)
    then show ?thesis using True owner
      by (auto simp: os_task_join_def os_sem_create_def os_sem_down_def os_halt_def Let_def ARCH_ATOMIC_MAX_def
          memset_taskqueue_def os_taskqueue_init_def upd_task_def)
  qed
qed

text \<open>C30. The value given to \<open>os_task_exit\<close> is what \<open>os_task_join\<close> returns: if a task \<open>c\<close> waits in
  \<open>os_task_join\<close> for the running task \<open>t\<close>, and no ready task reaches its priority, then the exit of \<open>t\<close>
  switches to \<open>c\<close>, whose call goes on, gives up its semaphore and returns the exit value, with the
  interrupts as they were when it was called; \<open>t\<close> is marked as joined.\<close>

theorem join_returns_exit_value:
  assumes inv: "kinv L Q ts s" and cur: "task_current s \<noteq> task_idle" and j: "joining L Q c (task_current s) r s"
    and g: "isr_nesting s = 0" "waitqueue_current s = None"
    and top: "\<forall>u \<in> set (ready Q). prio_current (task s u) < prio_current (task s c)"
  shows "\<exists>s' s'' Q' ts'. os_task_exit retv s = ok (Switched, s') \<and> task_current s' = c \<and>
    resume s' = ok (Return (Value retv), s'') \<and> task_current s'' = c \<and> sreg s'' = r \<and>
    kinv (L - {SemQ (JoinSem c)}) Q' ts' s'' \<and> ready Q' = ready Q \<and>
    state (task s'' (task_current s)) = TASKSTATE_INVALID \<and> join_sem (task s'' (task_current s)) = None"
proof -
  note J = j [unfolded joining_def]
  have js: "joiners Q s = [c]" "joinable L Q s"
    using J g by (auto simp: joiners_def joinable_def ARCH_ATOMIC_MAX_def)
  have rd: "fold (prio_insert (\<lambda>t. prio_current (task s t))) (joiners Q s) (ready Q) = c # ready Q"
    using prio_insert_below [OF top] by (simp add: js)
  obtain s' Q' ts' where s': "os_task_exit retv s = ok (Switched, s')" "kinv L Q' ts' s'" "core_frame s s'"
    "task_current s' = c" "ready Q' = ready Q" "c \<noteq> task_current s"
    "task s' = (\<lambda>t. if t = task_current s
       then (task s t)\<lparr>ret_block := retv, state := TASKSTATE_DESTROYED, ctx_kont := K_Exit\<rparr>
       else (let k = (if t \<in> {c}
          then (task s t)\<lparr>timer := None, ret_block := retcode_value OS_OK, state := TASKSTATE_READY, task_queue := Some ReadyQ\<rparr>
          else task s t) in if t = c then k\<lparr>task_queue := None\<rparr> else k))"
    "flat (Q' (SemQ (JoinSem c))) = []"
    using exit_result [OF inv cur js(2) rd [symmetric], of retv, unfolded js(1) list.sel list.set] J by blast
  have c: "block_code (task s' c) = OS_OK" "ctx_kont (task s' c) = K_JoinDown (arch_dint r) r (task_current s)"
    using s'(6) J by (simp_all add: s'(7) Let_def block_code_def del: retcode_value.simps)
  have "prio_current (task s' u) = prio_current (task s u)" for u by (simp add: s'(7) Let_def)
  then have top': "\<forall>u \<in> set (ready Q'). prio_current (task s' u) \<le> prio_current (task s' c)"
    using top s'(5) by (simp add: less_imp_le)
  have g': "isr_nesting s' = 0" "waitqueue_current s' = None" "state (task s' (task_current s)) = TASKSTATE_DESTROYED"
    using s'(3) g by (simp_all add: core_frame_def s'(7))
  obtain s'' ts'' where "resume s' = ok (Return (Value (ret_block (task s' (task_current s)))), s'')"
    "kinv (L - {SemQ (JoinSem c)}) Q' ts'' s''" "task_current s'' = c" "sreg s'' = r"
    "state (task s'' (task_current s)) = TASKSTATE_INVALID" "join_sem (task s'' (task_current s)) = None"
    using join_resumes [OF s'(2,4) c(2) _ s'(8) s'(6) [symmetric] g'(1,2) c(1) g'(3) top'] J by blast
  moreover have "ret_block (task s' (task_current s)) = retv" by (simp add: s'(7))
  ultimately show ?thesis using s'(1,4,5) by metis
qed

section \<open>Witnesses\<close>

text \<open>Task 2 runs at priority 2, task 3 is ready at priority 1 behind it.\<close>

definition demo_pair :: kstate where
  "demo_pair = os_task_makeready 3 (upd_task 3 (\<lambda>k. k\<lparr>prio_base := 1, prio_current := 1\<rparr>) demo_sem)"

abbreviation pair_queues :: queues where
  "pair_queues \<equiv> bucket_upd ReadyQ 1 (\<lambda>ts. ts @ [3]) demo_queues"

lemma demo_pair_kinv: "kinv {ReadyQ, SemQ (UserSem 0)} pair_queues [] demo_pair"
proof -
  let ?s = "upd_task 3 (\<lambda>k. k\<lparr>prio_base := 1, prio_current := 1\<rparr>) demo_sem"
  have t: "task demo_sem 3 = zero_task" by (simp add: demo_sem_def demo_running_fields)
  have s: "sched_inv {ReadyQ, SemQ (UserSem 0)} demo_queues ?s" "floating ?s = {}"
    using sched_inv_upd_free [OF kinvD(1) [OF demo_sem_kinv], of 3 "\<lambda>k. k\<lparr>prio_base := 1, prio_current := 1\<rparr>"]
      kinvD(3) [OF demo_sem_kinv] by (auto simp: t zero_task_def task_ok_def OS_CONFIG_PRIOCNT_def)
  have p: "unat (prio_current (task ?s 3)) = 1" "task_queue (task ?s 3) = None" "3 \<noteq> task_current ?s"
    by (simp_all add: task_upd_task t zero_task_def demo_sem_fields(1))
  have "sched_inv {ReadyQ, SemQ (UserSem 0)} pair_queues demo_pair" "floating demo_pair = {}"
    using makeready_inv [OF s(1) p(2,3)] s(2) unfolding p(1) demo_pair_def by auto
  moreover have "block_inv {} [] demo_pair"
    by (rule block_inv_free [OF kinvD(2) [OF demo_sem_kinv], of 3])
      (use makeready_fields(2) [of ?s 3] in \<open>auto simp: tq_frame_iff makeready_fields task_upd_task demo_pair_def\<close>)
  ultimately show ?thesis by (simp add: kinv_def)
qed

lemma demo_pair_fields:
  "task_current demo_pair = 2" "isr_nesting demo_pair = 0" "sched_lock demo_pair = 0" "sreg demo_pair = sreg demo_sem"
  "waitqueue_current demo_pair = None" "mxh demo_pair = mxh demo_sem" "sem demo_pair = sem demo_sem"
  "task demo_pair 0 = task demo_sem 0" "task demo_pair 2 = task demo_sem 2"
  "task demo_pair 3 = zero_task\<lparr>prio_base := 1, prio_current := 1, state := TASKSTATE_READY, task_queue := Some ReadyQ\<rparr>"
  "ready pair_queues = [3, 0]"
  using makeready_fields(2) [of "upd_task 3 (\<lambda>k. k\<lparr>prio_base := 1, prio_current := 1\<rparr>) demo_sem" 3] demo_sem_fields(1-4)
  by (simp_all add: demo_pair_def makeready_fields tq_frame_iff task_upd_task demo_sem_def demo_running_fields
      bucket_upd_def OS_CONFIG_PRIOCNT_def eval_nat_numeral)

theorem task_join_cases_witness:
  "\<exists>s'. os_task_join 3 demo_pair = ok (Switched, s') \<and> task_current s' = 3"
  using task_join_cases [OF demo_pair_kinv, of 3] demo_pair_fields demo_sem_fields(8,9)
  by (auto simp: task_idle_def zero_task_def)

lemma demo_joining:
  "\<exists>s' Q' ts'. os_task_join 3 demo_pair = ok (Switched, s') \<and> task_current s' = 3 \<and>
    kinv {SemQ (JoinSem 2), ReadyQ, SemQ (UserSem 0)} Q' ts' s' \<and> ready Q' = [0] \<and>
    joining {SemQ (JoinSem 2), ReadyQ, SemQ (UserSem 0)} Q' 2 3 (sreg demo_pair) s' \<and>
    isr_nesting s' = 0 \<and> waitqueue_current s' = None \<and> (\<forall>u. prio_current (task s' u) = prio_current (task demo_pair u))"
  using join_blocks [OF demo_pair_kinv, of 3] demo_pair_fields demo_sem_fields(8,9)
  by (auto simp: task_idle_def zero_task_def less_os_taskstate_def)

theorem task_exit_hands_over_witness:
  "\<exists>s s'. os_task_join 3 demo_pair = ok (Switched, s) \<and> os_task_exit 7 s = ok (Switched, s') \<and>
     task_current s' = 2 \<and> ret_block (task s' 3) = 7 \<and> state (task s' 3) = TASKSTATE_DESTROYED"
proof -
  obtain s Q ts where s: "os_task_join 3 demo_pair = ok (Switched, s)" "task_current s = 3"
    "kinv {SemQ (JoinSem 2), ReadyQ, SemQ (UserSem 0)} Q ts s" "ready Q = [0]"
    "joining {SemQ (JoinSem 2), ReadyQ, SemQ (UserSem 0)} Q 2 3 (sreg demo_pair) s"
    "isr_nesting s = 0" "waitqueue_current s = None" "\<forall>u. prio_current (task s u) = prio_current (task demo_pair u)"
    using demo_joining by blast
  have j: "joiners Q s = [2]" "joinable {SemQ (JoinSem 2), ReadyQ, SemQ (UserSem 0)} Q s"
    using s(2,5-7) by (auto simp: joiners_def joinable_def joining_def ARCH_ATOMIC_MAX_def)
  show ?thesis
    using task_exit_hands_over [OF s(3) _ j(2) refl, of 7] s(1,2,4,8) j(1) demo_pair_fields(8,9) demo_sem_fields(6,7)
    by (auto simp: task_idle_def)
qed

theorem join_returns_exit_value_witness:
  "\<exists>s s' s''. os_task_join 3 demo_pair = ok (Switched, s) \<and> os_task_exit 7 s = ok (Switched, s') \<and>
     resume s' = ok (Return (Value 7), s'') \<and> task_current s'' = 2"
proof -
  obtain s Q ts where s: "os_task_join 3 demo_pair = ok (Switched, s)" "task_current s = 3"
    "kinv {SemQ (JoinSem 2), ReadyQ, SemQ (UserSem 0)} Q ts s" "ready Q = [0]"
    "joining {SemQ (JoinSem 2), ReadyQ, SemQ (UserSem 0)} Q 2 3 (sreg demo_pair) s"
    "isr_nesting s = 0" "waitqueue_current s = None" "\<forall>u. prio_current (task s u) = prio_current (task demo_pair u)"
    using demo_joining by blast
  show ?thesis
    using join_returns_exit_value [OF s(3) _ _ s(6,7), of 2 "sreg demo_pair" 7] s(1,2,4,5,8)
      demo_pair_fields(8,9) demo_sem_fields(6,7)
    by (auto simp: task_idle_def)
qed

end
