(* ===== verification/Timeout.thy ===== *)
theory Timeout
  imports Task_Life
begin

text \<open>
  The composition of the timers with the blocking calls: what one tick interrupt does to the tasks
  that wait with a timeout. The contract of the timers with their callbacks (\<open>timer_client\<close>) is met by
  the kernel's own callbacks, with the kernel invariant as what they maintain.
\<close>

section \<open>The kernel's callbacks\<close>

text \<open>Callbacks of the application that make no kernel call.\<close>

definition inert :: "(nat \<Rightarrow> timer_param \<Rightarrow> kstate \<Rightarrow> kstate kres) \<Rightarrow> bool" where
  "inert user \<longleftrightarrow> (\<forall>n a s. user n a s = ok s)"

text \<open>The tasks after the guards \<open>E\<close> expired.\<close>

definition timed_out :: "timerid set \<Rightarrow> (tid \<Rightarrow> os_task) \<Rightarrow> tid \<Rightarrow> os_task" where
  "timed_out E tk = (\<lambda>t. if BlockTimer t \<in> E
     then (tk t)\<lparr>ret_block := retcode_value OS_TIMEOUT, state := TASKSTATE_READY, task_queue := Some ReadyQ\<rparr>
     else tk t)"

definition guarded ::
  "qid set \<Rightarrow> timerid set \<Rightarrow> kstate \<Rightarrow> timerid set \<Rightarrow> kstate \<Rightarrow> bool" where
  "guarded L A0 s0 A s \<longleftrightarrow> (\<exists>Q. sched_inv L Q s) \<and> floating s = {} \<and> guards {} A s \<and> A \<subseteq> A0 \<and>
     task s = timed_out (A0 - A) (task s0) \<and> core_frame s0 s \<and> task_current s = task_current s0 \<and> sreg s = sreg s0"

lemma guards_mono: "guards X A s \<Longrightarrow> B \<subseteq> A \<Longrightarrow> guards X B s"
  unfolding guards_def by blast

lemma guardedD:
  assumes "guarded L A0 s0 A s"
  shows "\<exists>Q. sched_inv L Q s" "floating s = {}" "guards {} A s" "A \<subseteq> A0" "task s = timed_out (A0 - A) (task s0)"
    "core_frame s0 s" "task_current s = task_current s0" "sreg s = sreg s0"
  using assms by (auto simp: guarded_def)

lemma guarded_fire:
  assumes J: "guarded L A0 s0 A s" and t: "t \<in> A" and user: "inert user"
  shows "\<exists>s'. call_timer_proc user (clbck (tmr s t)) (param (tmr s t)) s = ok s' \<and>
    guarded L A0 s0 (if ticks_reload (tmr s t) > 0 then A else A - {t}) s' \<and>
    tmh s' = tmh s \<and> tmr s' = tmr s \<and> timer_tick_unsynch s' = timer_tick_unsynch s"
proof (cases t)
  case (UserTimer n)
  have "clbck (tmr s t) \<in> range UserTimerProc" using J t by (auto simp: guarded_def guards_def UserTimer)
  then have run: "call_timer_proc user (clbck (tmr s t)) (param (tmr s t)) s = ok s"
    using user by (auto simp: call_timer_proc_def inert_def)
  have "timed_out (A0 - (A - {t})) (task s0) = timed_out (A0 - A) (task s0)" by (simp add: timed_out_def UserTimer fun_eq_iff)
  then have "guarded L A0 s0 (A - {t}) s"
    using guardedD [OF J] guards_mono [of "{}" A s "A - {t}"] unfolding guarded_def by auto
  then show ?thesis using run J by simp
next
  case (BlockTimer u)
  have g: "clbck (tmr s t) \<in> {SemTimerClbck, WaitqueueTimerClbck}" "param (tmr s t) = TaskParam u"
    "ticks_reload (tmr s t) = 0" "state (task s u) = TASKSTATE_WAIT"
    using J t by (auto simp: guarded_def guards_def BlockTimer)
  obtain Q where Q: "sched_inv L Q s" "floating s = {}" using J by (auto simp: guarded_def)
  obtain q where q: "task_queue (task s u) = Some q" "q \<noteq> ReadyQ" using waiting_queue [OF Q g(4)] by blast
  obtain s' Q' where s': "expire u s = ok s'" "sched_inv L Q' s'" "floating s' = {}" "tq_frame s s'"
    "task s' = (task s)(u := (task s u)\<lparr>ret_block := retcode_value OS_TIMEOUT,
      state := TASKSTATE_READY, task_queue := Some ReadyQ\<rparr>)"
    using expire_result [OF Q q] by blast
  have run: "call_timer_proc user (clbck (tmr s t)) (param (tmr s t)) s = ok s'"
    using g s'(1) sem_timerclbck_expire [of u s] by (auto simp: call_timer_proc_def waitqueue_timerclbck_eq)
  have u: "task s u = task s0 u" using J t by (auto simp: guarded_def timed_out_def BlockTimer)
  have "task s' x = timed_out (A0 - (A - {t})) (task s0) x" for x
  proof (cases "x = u")
    case True
    have "BlockTimer u \<in> A0 - (A - {t})" using t guardedD(4) [OF J] BlockTimer by auto
    then show ?thesis using u by (simp add: True s'(5) timed_out_def del: retcode_value.simps)
  next
    case False
    then show ?thesis by (simp add: s'(5) guardedD(5) [OF J] timed_out_def BlockTimer)
  qed
  then have "task s' = timed_out (A0 - (A - {t})) (task s0)" by (rule ext)
  moreover have "guards {} (A - {t}) s'"
    using guardedD(3) [OF J] s'(4,5) unfolding guards_def by (auto simp: BlockTimer tq_frame_iff)
  ultimately have "guarded L A0 s0 (A - {t}) s'"
    using guardedD(4,7,8) [OF J] s'(2-4) core_frame_trans [OF guardedD(6) [OF J] core_frames(1) [OF s'(4)]]
    unfolding guarded_def by (auto simp: tq_frame_iff)
  then show ?thesis using run g(3) s'(4) by (auto simp: tq_frame_iff)
qed

lemma guarded_clock:
  assumes "guarded L A0 s0 A s" and fr: "tm_frame s s'" and "same_setup s s'"
  shows "guarded L A0 s0 A s'"
proof -
  have "sched_inv L Q s \<Longrightarrow> sched_inv L Q s'" for Q
    by (rule sched_inv_same [of L Q s]) (use fr in \<open>simp_all add: tm_frame_iff\<close>)
  then show ?thesis
    using guardedD [OF assms(1)] fr assms(3) core_frame_trans [OF guardedD(6) [OF assms(1)] core_frames(2) [OF fr]]
    unfolding guarded_def by (auto simp: tm_frame_iff floating_def guards_def same_setup_def)
qed

interpretation kernel: timer_client "call_timer_proc user" "\<lambda>A s. inert user \<and> guarded L A0 s0 A s" for user L A0 s0
  using guarded_fire guarded_clock by unfold_locales fast+

section \<open>A tick\<close>

text \<open>The tick interrupt: the handler of \<^verbatim>\<open>arch_test.c\<close>, with the callback \<open>test_tick_clbck\<close> of the
  test, which may be \<open>NULL\<close>.\<close>

definition tick_isr ::
  "(kstate \<Rightarrow> kstate kres) option \<Rightarrow> (nat \<Rightarrow> timer_param \<Rightarrow> kstate \<Rightarrow> kstate kres) \<Rightarrow>
     kstate \<Rightarrow> (unit outcome \<times> kstate) kres" where
  "tick_isr test_tick_clbck user s =
     kbind (os_tick (call_timer_proc user) (arch_contextstore_i s)) (\<lambda>(r, s).
     kbind (case test_tick_clbck of None \<Rightarrow> ok s | Some f \<Rightarrow> f s) (\<lambda>s.
     ok (arch_contextrestore_i s)))"

lemma kernel_tick_timers:
  assumes inv: "kinv L Q ts s" and user: "inert user"
  shows "\<exists>s' Q' ts'. os_tick_timers (call_timer_proc user) s = ok s' \<and> kinv L Q' ts' s' \<and> core_frame s s' \<and>
    task_current s' = task_current s \<and> sreg s' = sreg s \<and> task s' = timed_out (set ts - set ts') (task s) \<and>
    (\<forall>t. BlockTimer t \<in> set ts' \<longleftrightarrow> BlockTimer t \<in> set ts \<and> ticks_left s (BlockTimer t) \<noteq> 1) \<and>
    (\<forall>t. BlockTimer t \<in> set ts \<longrightarrow> ticks_left s' (BlockTimer t) = ticks_left s (BlockTimer t) - 1)"
proof -
  note binv = kinvD(2) [OF inv]
  have "guarded L (set ts) s (set ts) s"
    using kinvD [OF inv] by (auto simp: guarded_def timed_out_def block_inv_def)
  then obtain s' ts' where s': "os_tick_timers (call_timer_proc user) s = ok s'" "tm_rel ts' s'"
    "guarded L (set ts) s (set ts') s'" "set ts' = set ts - {t \<in> set (expiring s ts). ticks_reload (tmr s t) = 0}"
    "\<forall>t. ticks_left s' t = unat (ticks_rem (synched s ts t))"
    using kernel.tick_timers_result [OF block_invD(1) [OF binv], of user L "set ts" s] user by blast
  obtain Q' where Q': "sched_inv L Q' s'" using guardedD(1) [OF s'(3)] by blast
  have "kinv L Q' ts' s'" using Q' s'(2) guardedD(2,3) [OF s'(3)] by (simp add: kinv_def block_inv_def)
  moreover have rl: "ticks_reload (tmr s (BlockTimer t)) = 0" if "BlockTimer t \<in> set ts" for t
    using binv that by (auto simp: block_inv_def guards_def)
  then have "BlockTimer t \<in> set ts' \<longleftrightarrow> BlockTimer t \<in> set ts \<and> ticks_left s (BlockTimer t) \<noteq> 1" for t
    using s'(4) expiring_iff [OF block_invD(1) [OF binv], of "BlockTimer t"] by auto
  moreover have "ticks_left s' (BlockTimer t) = ticks_left s (BlockTimer t) - 1" if "BlockTimer t \<in> set ts" for t
    using that rl [OF that] s'(5) synched_rem [OF block_invD(1) [OF binv], of "BlockTimer t"]
    by (simp add: rearmed_def)
  ultimately show ?thesis using s'(1) guardedD(5-8) [OF s'(3)]
    by (intro exI [of _ s'] exI [of _ Q'] exI [of _ ts']) simp
qed

text \<open>What a tick does to a task that waits with a guard, or does not.\<close>

definition tick_effect :: "timerid list \<Rightarrow> kstate \<Rightarrow> tid \<Rightarrow> kstate \<Rightarrow> bool" where
  "tick_effect ts s t s' \<longleftrightarrow>
     (if BlockTimer t \<in> set ts
      then if ticks_left s (BlockTimer t) = 1
        then state (task s' t) \<noteq> TASKSTATE_WAIT \<and> block_code (task s' t) = OS_TIMEOUT \<and>
          ctx_kont (task s' t) = ctx_kont (task s t) \<and> prio_current (task s' t) = prio_current (task s t) \<and>
          (t = task_current s' \<or> task_queue (task s' t) = Some ReadyQ)
        else task s' t = task s t \<and> ticks_left s' (BlockTimer t) = ticks_left s (BlockTimer t) - 1
      else same_tcb (task s t) (task s' t))"

text \<open>No ready task exceeds the current one.\<close>

definition top_runs :: "queues \<Rightarrow> kstate \<Rightarrow> bool" where
  "top_runs Q s \<longleftrightarrow> (\<forall>u \<in> set (ready Q). prio_current (task s u) \<le> prio_current (task s (task_current s)))"

lemma schedule_top:
  assumes inv: "kinv L Q ts s" and h: "h \<in> {0, 1}" and g: "isr_nesting s \<le> 1" "sched_lock s = 0"
    and same: "same_tasks s s'"
    and res: "if preempts h s (ready Q)
     then task_current s' = hd (ready Q) \<and> (r = Switched \<longleftrightarrow> isr_nesting s = 0) \<and>
       ready Q' = prio_insert (\<lambda>t. prio_current (task s t)) (task_current s) (tl (ready Q))
     else r = Return v \<and> s' = s\<lparr>sreg := c\<rparr> \<and> Q' = Q"
  shows "top_runs Q' s'"
proof -
  have pr: "prio_current (task s' t) = prio_current (task s t)" for t using same by (simp add: same_tasks_def same_tcb_def)
  have le: "prio_current (task s x) \<le> prio_current (task s (hd (ready Q)))" if "x \<in> set (ready Q)" for x
    using ready_le_head [OF sched_invD(1) [OF kinvD(1) [OF inv]], of "hd (ready Q)" "tl (ready Q)" x] that
    by (cases "ready Q") auto
  have cur: "prio_current (task s (task_current s)) \<le> prio_current (task s (hd (ready Q)))" if "preempts h s (ready Q)"
    using that h preempts_higher [OF inv] by (auto simp: preempts_def split: list.splits)
  show ?thesis
  proof (cases "preempts h s (ready Q)")
    case True
    moreover from this have "ready Q \<noteq> []" by (auto simp: preempts_def)
    ultimately show ?thesis
      using res le cur by (auto simp: top_runs_def pr set_prio_insert dest: list.set_sel(2))
  next
    case False
    then have "prio_current (task s (hd (ready Q))) \<le> prio_current (task s (task_current s))" if "ready Q \<noteq> []"
      using that h g preempts_higher [OF inv] by (auto simp: preempts_def neq_Nil_conv)
    then show ?thesis using res False le by (fastforce simp: top_runs_def)
  qed
qed

lemma tick_effect_switch:
  assumes inv: "kinv L Q ts s" and inv3: "kinv L Q3 ts' s3" and inv4: "kinv L Q4 ts' s4"
    and s4: "same_tasks s3 s4" "\<forall>t. t \<notin> {task_current s3, task_current s4} \<longrightarrow> task s4 t = task s3 t"
    "\<forall>t. t \<noteq> task_current s3 \<longrightarrow> ctx_kont (task s4 t) = ctx_kont (task s3 t)"
    and s3: "task_current s3 = task_current s" "task s3 = timed_out (set ts - set ts') tk"
    "\<forall>t. BlockTimer t \<in> set ts' \<longleftrightarrow> BlockTimer t \<in> set ts \<and> ticks_left s (BlockTimer t) \<noteq> 1"
    "\<forall>t. BlockTimer t \<in> set ts \<longrightarrow> ticks_left s3 (BlockTimer t) = ticks_left s (BlockTimer t) - 1"
    and tk: "tk = (task s)(task_current s := (task s (task_current s))\<lparr>ctx_kont := k\<rparr>)"
    and e: "task s' = task s4" "task_current s' = task_current s4" "ticks_left s' = ticks_left s3"
  shows "tick_effect ts s t s'"
proof (cases "BlockTimer t \<in> set ts")
  case False
  then have "task s3 t = tk t" by (simp add: s3(2) timed_out_def)
  then have "same_tcb (task s t) (task s3 t)" by (simp add: tk same_tcb_def)
  moreover have "same_tcb (task s3 t) (task s4 t)" using s4(1) by (simp add: same_tasks_def)
  ultimately show ?thesis using False same_tcb_trans by (simp add: tick_effect_def e)
next
  case True
  have c: "t \<noteq> task_current s" using block_invD(4) [OF kinvD(2) [OF inv] True] sched_invD(5) [OF kinvD(1) [OF inv]] by auto
  show ?thesis
  proof (cases "ticks_left s (BlockTimer t) = 1")
    case ex: True
    then have t3: "task s3 t = (task s t)\<lparr>ret_block := retcode_value OS_TIMEOUT, state := TASKSTATE_READY, task_queue := Some ReadyQ\<rparr>"
      using True c s3(3) by (simp add: s3(2) timed_out_def tk)
    have "block_code (task s4 t) = OS_TIMEOUT" "state (task s4 t) \<noteq> TASKSTATE_WAIT" "ctx_kont (task s4 t) = ctx_kont (task s t)"
      "prio_current (task s4 t) = prio_current (task s t)"
      using s4(1,3) t3 c s3(1) by (auto simp: same_tasks_def same_tcb_def block_code_def simp del: retcode_value.simps)
    moreover have "t = task_current s4 \<or> task_queue (task s4 t) = Some ReadyQ" using s4(2) t3 c s3(1) by auto
    ultimately show ?thesis using ex by (simp add: tick_effect_def e True)
  next
    case False
    then have w: "task s3 t = task s t" "state (task s t) = TASKSTATE_WAIT"
      using True c s3(3) block_invD(4) [OF kinvD(2) [OF inv] True] by (auto simp: s3(2) timed_out_def tk)
    have "same_tcb (task s3 t) (task s4 t)" using s4(1) by (simp add: same_tasks_def)
    then have "state (task s4 t) = TASKSTATE_WAIT" using w by (simp add: same_tcb_def)
    then have "t \<noteq> task_current s4" using sched_invD(5) [OF kinvD(1) [OF inv4]] by blast
    then show ?thesis using False w s4(2) c s3(1,4) True by (simp add: tick_effect_def e)
  qed
qed

lemma tick_isr_run:
  assumes inv: "kinv L Q ts s" and user: "inert user" and isr: "isr_nesting s = 0"
    and tk: "tk = (task s)(task_current s := (task s (task_current s))\<lparr>ctx_kont := K_Isr (sreg s OR 0x80)\<rparr>)"
  shows "\<exists>s3 Q3 ts' r s4 Q4. tick_isr None user s = ok (arch_contextrestore_i s4) \<and>
    kinv L Q3 ts' s3 \<and> task_current s3 = task_current s \<and> task s3 = timed_out (set ts - set ts') tk \<and>
    (\<forall>t. BlockTimer t \<in> set ts' \<longleftrightarrow> BlockTimer t \<in> set ts \<and> ticks_left s (BlockTimer t) \<noteq> 1) \<and>
    (\<forall>t. BlockTimer t \<in> set ts \<longrightarrow> ticks_left s3 (BlockTimer t) = ticks_left s (BlockTimer t) - 1) \<and>
    isr_nesting s3 = 1 \<and> sched_lock s3 = sched_lock s \<and> ticks_cnt s3 = ticks_cnt s + 1 \<and>
    waitqueue_current s3 = waitqueue_current s \<and> sem s3 = sem s \<and> mxh s3 = mxh s \<and> mtx s3 = mtx s \<and>
    kinv L Q4 ts' s4 \<and> sched_frame s3 s4 \<and> same_tasks s3 s4 \<and>
    (\<forall>t. t \<notin> {task_current s3, task_current s4} \<longrightarrow> task s4 t = task s3 t) \<and>
    (\<forall>t. ctx_kont (task s4 t) = ctx_kont (task s3 t)) \<and>
    (if preempts 0 s3 (ready Q3) then task_current s4 = hd (ready Q3) \<and> (r = Switched \<longleftrightarrow> isr_nesting s3 = 0) \<and>
       ready Q4 = prio_insert (\<lambda>t. prio_current (task s3 t)) (task_current s3) (tl (ready Q3))
     else r = Return Void \<and> s4 = s3\<lparr>sreg := sreg (arch_contextstore_i s)\<rparr> \<and> Q4 = Q3)"
proof -
  let ?c = "task_current s"
  let ?s1 = "arch_contextstore_i s"
  let ?s2 = "?s1\<lparr>sreg := arch_dint (sreg ?s1), ticks_cnt := ticks_cnt s + 1\<rparr>"
  have f1: "isr_nesting ?s1 = 1" "task_current ?s1 = ?c" "sched_lock ?s1 = sched_lock s" "ticks_cnt ?s1 = ticks_cnt s"
    "task ?s1 = (task s)(?c := (task s ?c)\<lparr>ctx_kont := K_Isr (sreg s OR 0x80)\<rparr>)" "ticks_left ?s2 = ticks_left s"
    "waitqueue_current ?s1 = waitqueue_current s" "sem ?s1 = sem s" "mxh ?s1 = mxh s" "mtx ?s1 = mtx s"
    using isr by (simp_all add: arch_contextstore_i_def Let_def task_upd_task ticks_left_def fun_eq_iff)
  have inv2: "kinv L Q ts ?s2" by (rule kinv_same [OF kinv_isr_enter [OF inv]]) simp_all
  obtain s3 Q3 ts' where s3: "os_tick_timers (call_timer_proc user) ?s2 = ok s3" "kinv L Q3 ts' s3" "core_frame ?s2 s3"
    "task_current s3 = ?c" "sreg s3 = arch_dint (sreg ?s1)" "task s3 = timed_out (set ts - set ts') (task ?s1)"
    "\<forall>t. BlockTimer t \<in> set ts' \<longleftrightarrow> BlockTimer t \<in> set ts \<and> ticks_left s (BlockTimer t) \<noteq> 1"
    "\<forall>t. BlockTimer t \<in> set ts \<longrightarrow> ticks_left s3 (BlockTimer t) = ticks_left s (BlockTimer t) - 1"
    using kernel_tick_timers [OF inv2 user] f1(2,6) by auto
  have f3: "isr_nesting s3 = 1" "sched_lock s3 = sched_lock s" "ticks_cnt s3 = ticks_cnt s + 1"
    "waitqueue_current s3 = waitqueue_current s" "sem s3 = sem s" "mxh s3 = mxh s" "mtx s3 = mtx s"
    using s3(3) f1(1,3,7-10) by (simp_all add: core_frame_def)
  have d: "arch_is_dint (sreg s3)" by (simp add: s3(5))
  obtain r s4 Q4 where s4: "kbind (os_schedule (K_Schedule (sreg ?s1)) 0 s3) (sched_exit (sreg ?s1) Void) = ok (r, s4)"
    "kinv L Q4 ts' s4" "sched_frame s3 s4" "same_tasks s3 s4"
    "\<forall>t. t \<notin> {task_current s3, task_current s4} \<longrightarrow> task s4 t = task s3 t"
    "\<forall>t. t \<noteq> task_current s3 \<longrightarrow> ctx_kont (task s4 t) = ctx_kont (task s3 t)"
    "if r = Switched
     then ctx_kont (task s4 (task_current s3)) = K_Schedule (sreg ?s1) \<and> sreg s4 = kont_sreg (ctx_kont (task s3 (task_current s4)))
     else ctx_kont (task s4 (task_current s3)) = ctx_kont (task s3 (task_current s3)) \<and> sreg s4 = sreg ?s1"
    "if preempts 0 s3 (ready Q3) then task_current s4 = hd (ready Q3) \<and> (r = Switched \<longleftrightarrow> isr_nesting s3 = 0) \<and>
       ready Q4 = prio_insert (\<lambda>t. prio_current (task s3 t)) (task_current s3) (tl (ready Q3))
     else r = Return Void \<and> s4 = s3\<lparr>sreg := sreg ?s1\<rparr> \<and> Q4 = Q3"
    using kinv_schedule_konts [OF s3(2) d, of "K_Schedule (sreg ?s1)" 0 "sreg ?s1" Void] by blast
  have "r \<noteq> Switched" using s4(8) f3(1) by (auto split: if_splits)
  then have "\<forall>t. ctx_kont (task s4 t) = ctx_kont (task s3 t)" using s4(6,7) by metis
  moreover have "tick_isr None user s = ok (arch_contextrestore_i s4)"
    using f1(1,4) s3(1) s4(1) by (simp add: tick_isr_def os_tick_def)
  moreover have "task s3 = timed_out (set ts - set ts') tk" using s3(6) f1(5) tk by simp
  ultimately show ?thesis using s3(2,4,7,8) f3 s4(2-5,8)
    by - (rule exI [of _ s3], rule exI [of _ Q3], rule exI [of _ ts'], rule exI [of _ r], rule exI [of _ s4],
      rule exI [of _ Q4], intro conjI; assumption)
qed

lemma tick_isr_result:
  assumes inv: "kinv L Q ts s" and user: "inert user" and isr: "isr_nesting s = 0"
  shows "\<exists>s' Q' ts'. tick_isr None user s = ok (Switched, s') \<and> kinv L Q' ts' s' \<and> isr_nesting s' = 0 \<and>
    ticks_cnt s' = ticks_cnt s + 1 \<and> (\<forall>t. tick_effect ts s t s') \<and>
    (\<forall>t. BlockTimer t \<in> set ts' \<longleftrightarrow> BlockTimer t \<in> set ts \<and> ticks_left s (BlockTimer t) \<noteq> 1) \<and>
    (sched_lock s = 0 \<longrightarrow> top_runs Q' s')"
proof -
  let ?tk = "(task s)(task_current s := (task s (task_current s))\<lparr>ctx_kont := K_Isr (sreg s OR 0x80)\<rparr>)"
  obtain s3 Q3 ts' r s4 Q4 where run: "tick_isr None user s = ok (arch_contextrestore_i s4)"
    and s3: "kinv L Q3 ts' s3" "task_current s3 = task_current s" "task s3 = timed_out (set ts - set ts') ?tk"
    "\<forall>t. BlockTimer t \<in> set ts' \<longleftrightarrow> BlockTimer t \<in> set ts \<and> ticks_left s (BlockTimer t) \<noteq> 1"
    "\<forall>t. BlockTimer t \<in> set ts \<longrightarrow> ticks_left s3 (BlockTimer t) = ticks_left s (BlockTimer t) - 1"
    and f3: "isr_nesting s3 = 1" "sched_lock s3 = sched_lock s" "ticks_cnt s3 = ticks_cnt s + 1"
      "waitqueue_current s3 = waitqueue_current s"
    and s4: "kinv L Q4 ts' s4" "sched_frame s3 s4" "same_tasks s3 s4"
    "\<forall>t. t \<notin> {task_current s3, task_current s4} \<longrightarrow> task s4 t = task s3 t"
    "\<forall>t. ctx_kont (task s4 t) = ctx_kont (task s3 t)"
    "if preempts 0 s3 (ready Q3) then task_current s4 = hd (ready Q3) \<and> (r = Switched \<longleftrightarrow> isr_nesting s3 = 0) \<and>
       ready Q4 = prio_insert (\<lambda>t. prio_current (task s3 t)) (task_current s3) (tl (ready Q3))
     else r = Return Void \<and> s4 = s3\<lparr>sreg := sreg (arch_contextstore_i s)\<rparr> \<and> Q4 = Q3"
    using tick_isr_run [OF assms refl] by blast
  let ?s5 = "snd (arch_contextrestore_i s4)"
  have f4: "isr_nesting s4 = 1" "ticks_cnt s4 = ticks_cnt s + 1" "ticks_left s4 = ticks_left s3"
    "sched_lock s4 = sched_lock s" "waitqueue_current s4 = waitqueue_current s"
    using s4(2) f3 by (simp_all add: sched_frame_iff ticks_left_def fun_eq_iff)
  have f5: "fst (arch_contextrestore_i s4) = Switched" "isr_nesting ?s5 = 0" "task ?s5 = task s4" "task_current ?s5 = task_current s4"
    "ticks_cnt ?s5 = ticks_cnt s + 1" "ticks_left ?s5 = ticks_left s3" "sched_lock ?s5 = sched_lock s"
    "waitqueue_current ?s5 = waitqueue_current s"
    using f4 by (simp_all add: arch_contextrestore_i_def Let_def ticks_left_def fun_eq_iff)
  have "tick_isr None user s = ok (Switched, ?s5)" using run f5(1) by (simp add: prod_eq_iff)
  moreover have "kinv L Q4 ts' ?s5" by (rule kinv_isr_leave [OF s4(1)])
  moreover have "top_runs Q4 ?s5" if "sched_lock s = 0"
    using schedule_top [OF s3(1) _ _ _ s4(3,6)] f3 that by (simp add: top_runs_def f5)
  moreover have "tick_effect ts s t ?s5" for t
    by (rule tick_effect_switch [OF inv s3(1) s4(1) s4(3,4) _ s3(2-5) refl f5(3,4,6)]) (simp add: s4(5))
  ultimately show ?thesis using s3(4) f5(2,5)
    by (intro exI [of _ ?s5] exI [of _ Q4] exI [of _ ts']) blast
qed


section \<open>Any number of ticks\<close>

text \<open>What happens between two ticks: anything that keeps the kernel in order and leaves the task alone.\<close>

definition undisturbed :: "tid \<Rightarrow> kstate \<Rightarrow> kstate \<Rightarrow> bool" where
  "undisturbed t s s' \<longleftrightarrow> task s' t = task s t \<and> isr_nesting s' = isr_nesting s \<and>
     ticks_left s' (BlockTimer t) = ticks_left s (BlockTimer t) \<and>
     (\<forall>L Q ts. kinv L Q ts s \<longrightarrow>
        (\<exists>L' Q' ts'. kinv L' Q' ts' s' \<and> (BlockTimer t \<in> set ts' \<longleftrightarrow> BlockTimer t \<in> set ts)))"

inductive ticks_pass ::
  "(nat \<Rightarrow> timer_param \<Rightarrow> kstate \<Rightarrow> kstate kres) \<Rightarrow> tid \<Rightarrow> nat \<Rightarrow> kstate \<Rightarrow> kstate \<Rightarrow> bool"
  for user t where
  pass_start: "ticks_pass user t 0 s s"
| pass_tick: "\<lbrakk>ticks_pass user t n s s1; tick_isr None user s1 = ok (r, s')\<rbrakk> \<Longrightarrow> ticks_pass user t (Suc n) s s'"
| pass_other: "\<lbrakk>ticks_pass user t n s s1; undisturbed t s1 s'\<rbrakk> \<Longrightarrow> ticks_pass user t n s s'"

lemma guard_countdown:
  assumes "ticks_pass user t n s s'" and "kinv L Q ts s" and "inert user" and "isr_nesting s = 0"
    and "BlockTimer t \<in> set ts" and "n \<le> ticks_left s (BlockTimer t)"
  shows "\<exists>L' Q' ts'. kinv L' Q' ts' s' \<and> isr_nesting s' = 0 \<and>
    (if n < ticks_left s (BlockTimer t)
     then BlockTimer t \<in> set ts' \<and> task s' t = task s t \<and> ticks_left s' (BlockTimer t) = ticks_left s (BlockTimer t) - n
     else state (task s' t) \<noteq> TASKSTATE_WAIT \<and> block_code (task s' t) = OS_TIMEOUT \<and>
       ctx_kont (task s' t) = ctx_kont (task s t))"
  using assms
proof (induction rule: ticks_pass.induct)
  case (pass_start s)
  then have "0 < ticks_left s (BlockTimer t)"
    using tm_relD(3) [OF block_invD(1) [OF kinvD(2) [OF pass_start.prems(1)]], of "BlockTimer t"]
    by (simp add: ticks_left_def word_less_nat_alt)
  then show ?case using pass_start.prems by (auto simp: ticks_left_def)
next
  case (pass_tick n s s1 r s')
  let ?b = "BlockTimer t"
  obtain L1 Q1 ts1 where i: "kinv L1 Q1 ts1 s1" "isr_nesting s1 = 0" "?b \<in> set ts1" "task s1 t = task s t"
    "ticks_left s1 ?b = ticks_left s ?b - n"
    using pass_tick.IH [OF pass_tick.prems(1-4)] pass_tick.prems(5) by fastforce
  obtain Q' ts' where s': "kinv L1 Q' ts' s'" "isr_nesting s' = 0" "tick_effect ts1 s1 t s'"
    "?b \<in> set ts' \<longleftrightarrow> ?b \<in> set ts1 \<and> ticks_left s1 ?b \<noteq> 1"
    using tick_isr_result [OF i(1) pass_tick.prems(2) i(2)] pass_tick.hyps(2) by auto
  then show ?case using i pass_tick.prems(5)
    by (intro exI [of _ L1] exI [of _ Q'] exI [of _ ts']) (auto simp: tick_effect_def split: if_splits)
next
  case (pass_other n s s1 s')
  then obtain L1 Q1 ts1 where i: "kinv L1 Q1 ts1 s1" "isr_nesting s1 = 0"
    "if n < ticks_left s (BlockTimer t)
     then BlockTimer t \<in> set ts1 \<and> task s1 t = task s t \<and> ticks_left s1 (BlockTimer t) = ticks_left s (BlockTimer t) - n
     else state (task s1 t) \<noteq> TASKSTATE_WAIT \<and> block_code (task s1 t) = OS_TIMEOUT \<and> ctx_kont (task s1 t) = ctx_kont (task s t)"
    by blast
  obtain L' Q' ts' where "kinv L' Q' ts' s'" "BlockTimer t \<in> set ts' \<longleftrightarrow> BlockTimer t \<in> set ts1"
    using pass_other.hyps(2) i(1) unfolding undisturbed_def by blast
  then show ?case using i pass_other.hyps(2)
    by (intro exI [of _ L'] exI [of _ Q'] exI [of _ ts']) (auto simp: undisturbed_def)
qed


section \<open>Witnesses\<close>

abbreviation no_user :: "nat \<Rightarrow> timer_param \<Rightarrow> kstate \<Rightarrow> kstate kres" where
  "no_user \<equiv> \<lambda>_ _ s. ok s"

lemma no_user_inert: "inert no_user"
  by (simp add: inert_def)

text \<open>Task 2 waits on the semaphore for one tick, the idle task runs.\<close>

lemma demo_guarded:
  "\<exists>s Q ts. os_sem_down K_SemDown (UserSem 0) 1 demo_sem = ok (Switched, s) \<and>
     kinv {ReadyQ, SemQ (UserSem 0)} Q ts s \<and> isr_nesting s = 0 \<and> sched_lock s = 0 \<and> BlockTimer 2 \<in> set ts \<and>
     (\<forall>t. BlockTimer t \<in> set ts \<longrightarrow> t = 2) \<and> ticks_left s (BlockTimer 2) = 1 \<and>
     (\<forall>t. prio_current (task s t) = (if t = 2 then 2 else 0))"
proof -
  obtain s Q ts where s: "os_sem_down K_SemDown (UserSem 0) 1 demo_sem = ok (Switched, s)"
    "kinv {ReadyQ, SemQ (UserSem 0)} Q ts s" "core_frame demo_sem s" "set ts = {BlockTimer 2}"
    "ticks_left s (BlockTimer 2) = 1" "\<forall>t. prio_current (task s t) = prio_current (task demo_sem t)"
    using sem_down_blocks [OF demo_sem_kinv, of "UserSem 0" 1 K_SemDown] demo_sem_fields
    by (auto simp: task_idle_def OS_TIMEOUT_TRY_def OS_TIMEOUT_INFINITE_def OS_TICKS_MAX_def OS_TIMER_TICKSREM_MAX_def
        OS_TIMER_UNSYNCH_MAX_def)
  moreover have "prio_current (task demo_sem t) = (if t = 2 then 2 else 0)" for t
    by (simp add: demo_sem_def demo_running_fields zero_task_def)
  ultimately show ?thesis using demo_sem_fields(2,3)
    by (intro exI [of _ s] exI [of _ Q] exI [of _ ts]) (simp add: core_frame_def)
qed


lemma demo_tick:
  "\<exists>s s'. os_sem_down K_SemDown (UserSem 0) 1 demo_sem = ok (Switched, s) \<and> tick_isr None no_user s = ok (Switched, s') \<and>
     task_current s' = 2"
proof -
  obtain s Q ts where s: "os_sem_down K_SemDown (UserSem 0) 1 demo_sem = ok (Switched, s)"
    "kinv {ReadyQ, SemQ (UserSem 0)} Q ts s" "isr_nesting s = 0" "sched_lock s = 0" "BlockTimer 2 \<in> set ts"
    "\<forall>t. BlockTimer t \<in> set ts \<longrightarrow> t = 2" "ticks_left s (BlockTimer 2) = 1"
    "\<forall>t. prio_current (task s t) = (if t = 2 then 2 else 0)"
    using demo_guarded by blast
  obtain s' Q' ts' where s': "tick_isr None no_user s = ok (Switched, s')" "kinv {ReadyQ, SemQ (UserSem 0)} Q' ts' s'"
    "\<forall>t. tick_effect ts s t s'" "top_runs Q' s'"
    using tick_isr_result [OF s(2) no_user_inert s(3)] s(4) by blast
  have p: "prio_current (task s' t) = (if t = 2 then 2 else 0)" for t
    using spec [OF s'(3), of t] spec [OF s(8), of t] by (simp add: tick_effect_def same_tcb_def split: if_splits)
  have "task_current s' = 2"
  proof (rule ccontr)
    assume c: "task_current s' \<noteq> 2"
    then have "task_queue (task s' 2) = Some ReadyQ" using spec [OF s'(3), of 2] s(5,7) by (auto simp: tick_effect_def)
    then have "2 \<in> set (ready Q')" using kinv_members [OF s'(2)] by blast
    then show False using s'(4) c by (auto simp: top_runs_def p)
  qed
  then show ?thesis using s(1) s'(1) by blast
qed


section \<open>Callbacks that wake up tasks\<close>

text \<open>A guard that has been taken off the list while the loop of \<open>timer_trigger\<close> stands on it: its links lead back to
  itself, and its task does not wait any more.\<close>

definition stuck :: "tid \<Rightarrow> kstate \<Rightarrow> bool" where
  "stuck t s \<longleftrightarrow> lnext (tmh s) (TimerLink (BlockTimer t)) = TimerLink (BlockTimer t) \<and>
     ticks_reload (tmr s (BlockTimer t)) = 0 \<and> param (tmr s (BlockTimer t)) = TaskParam t \<and>
     clbck (tmr s (BlockTimer t)) \<in> {SemTimerClbck, WaitqueueTimerClbck} \<and> state (task s t) \<noteq> TASKSTATE_WAIT"

lemma stuck_cong:
  "stuck t s \<Longrightarrow> tmh s' = tmh s \<Longrightarrow> tmr s' = tmr s \<Longrightarrow> state (task s' t) \<noteq> TASKSTATE_WAIT \<Longrightarrow> stuck t s'"
  by (simp add: stuck_def)

lemma stuck_diverges:
  assumes "stuck t s"
  shows "timer_trigger_loop (call_timer_proc user) (TimerLink (BlockTimer t)) s \<noteq> ok s'"
proof
  assume loop: "timer_trigger_loop (call_timer_proc user) (TimerLink (BlockTimer t)) s = ok s'"
  have "\<exists>e. Inr s' = (Inl e :: kerror + kstate)"
  proof (rule self_linked_diverges [where I = "stuck t" and b = "BlockTimer t" and run = "call_timer_proc user" and s = s])
    fix s s'
    assume "stuck t s" and "call_timer_proc user (clbck (tmr s (BlockTimer t))) (param (tmr s (BlockTimer t)))
      (s\<lparr>tmh := list_unlink (TimerLink (BlockTimer t)) (tmh s)\<rparr>) = ok s'"
    then show "stuck t s' \<and> ticks_reload (tmr s' (BlockTimer t)) = 0"
      by (auto simp: stuck_def call_timer_proc_def os_sem_timerclbck_def os_waitqueue_timerclbck_def os_assert_def os_halt_def)
  qed (use assms loop in \<open>simp_all add: stuck_def upd_tmr_def elapse_def\<close>)
  then show False by simp
qed

text \<open>Waking up a task unlinks its guard.\<close>

lemma wake_sticks:
  assumes inv: "sched_inv L Q s" and t: "task_queue (task s t) = None" "t \<noteq> task_current s"
    and g: "timer (task s t) = Some (BlockTimer t)" "guards X A s" "BlockTimer t \<in> A" "ticks_rem (tmr s (BlockTimer t)) > 0"
  shows "\<exists>s' Q'. wake c t s = ok s' \<and> sched_inv L Q' s' \<and> stuck t s' \<and> sreg s' = sreg s \<and>
    (\<forall>n. tmr s' (UserTimer n) = tmr s (UserTimer n))"
proof -
  have m: "magic (tmr s (BlockTimer t)) = OS_TIMER_MAGIC1" "param (tmr s (BlockTimer t)) = TaskParam t"
    "clbck (tmr s (BlockTimer t)) \<in> {SemTimerClbck, WaitqueueTimerClbck}" "ticks_reload (tmr s (BlockTimer t)) = 0"
    using g by (auto simp: guards_def)
  obtain s1 where s1: "os_timer_destroy (BlockTimer t) s = ok s1"
    "tmh s1 = list_unlink (TimerLink (BlockTimer t)) (tmh s)"
    "tmr s1 = (tmr s)(BlockTimer t := (tmr s (BlockTimer t))\<lparr>ticks_rem := 0, ticks_reload := 0, magic := OS_TIMER_MAGIC2\<rparr>)"
    "tqh s1 = tqh s" "qmask s1 = qmask s" "task s1 = task s" "task_current s1 = task_current s" "sreg s1 = sreg s"
    using m(1) g(4) by (simp add: os_timer_destroy_def os_assert_def Let_def os_critical_enter_def os_critical_exit_def
        arch_critical_enter_def arch_critical_exit_def upd_tmr_def)
  let ?s2 = "upd_task t (set_block_code c) (upd_task t (\<lambda>k. k\<lparr>timer := None\<rparr>) s1)"
  let ?s3 = "os_task_makeready t ?s2"
  have "sched_inv L Q s1" by (rule sched_inv_same [OF inv s1(4-7)])
  then have "sched_inv L Q (upd_task t (\<lambda>k. k\<lparr>timer := None\<rparr>) s1)"
    using sched_inv_upd_task(1) [of L Q s1 "\<lambda>k. k\<lparr>timer := None\<rparr>" t] by simp
  then have i2: "sched_inv L Q ?s2"
    using sched_inv_upd_task(1) [of L Q "upd_task t (\<lambda>k. k\<lparr>timer := None\<rparr>) s1" "set_block_code c" t] by simp
  have f2: "task_queue (task ?s2 t) = None" "t \<noteq> task_current ?s2" using s1(6,7) t by (simp_all add: task_upd_task)
  have fr: "tq_frame ?s2 ?s3" by (rule makeready_fields)
  have "wake c t s = ok ?s3" using s1(1) g(1) by (simp add: wake_def os_blocktimer_destroy_def)
  moreover have "stuck t ?s3"
    using fr s1(2,3) m by (auto simp: stuck_def tq_frame_iff makeready_fields task_upd_task list_h_defs)
  ultimately show ?thesis
    using makeready_inv(1) [OF i2 f2] fr s1(3,8) by (intro exI [of _ ?s3]) (auto simp: tq_frame_iff)
qed

lemma sem_up_sticks:
  assumes inv: "sched_inv L Q s" and m: "SemQ m \<in> L" and fl: "flat (Q (SemQ m)) = t # us"
    and g: "timer (task s t) = Some (BlockTimer t)" "guards {} A s" "BlockTimer t \<in> A" "ticks_rem (tmr s (BlockTimer t)) > 0"
    and isr: "isr_nesting s > 0" and v: "sem_value (sem s m) < ARCH_ATOMIC_MAX - 1"
  shows "\<exists>r s'. os_sem_up m s = ok (r, s') \<and> stuck t s' \<and> (\<forall>n. tmr s' (UserTimer n) = tmr s (UserTimer n))"
proof -
  let ?s0 = "s\<lparr>sreg := arch_dint (sreg s)\<rparr>"
  have inv0: "sched_inv L Q ?s0" by (rule sched_inv_same [OF inv]) simp_all
  obtain s1 Q1 where s1: "os_taskqueue_dequeue (SemQ m) ?s0 = ok (Some t, s1)" "sched_inv L Q1 s1" "tq_frame ?s0 s1"
    "task s1 = (task s)(t := (task s t)\<lparr>task_queue := None\<rparr>)" "t \<noteq> task_current s"
    using dequeue_inv [OF inv0 m _ fl refl] by auto
  have g1: "guards {} A s1" using g(2) s1(3,4) by (auto simp: guards_def tq_frame_iff)
  obtain s2 Q2 where s2: "wake OS_OK t s1 = ok s2" "sched_inv L Q2 s2" "stuck t s2" "sreg s2 = sreg s1"
    "\<forall>n. tmr s2 (UserTimer n) = tmr s1 (UserTimer n)"
    using wake_sticks [OF s1(2) _ _ _ g1 g(3), of OS_OK] s1(3-5) g(1,4) by (auto simp: tq_frame_iff)
  have "arch_is_dint (sreg s2)" using s1(3) s2(4) by (simp add: tq_frame_iff)
  then obtain r s3 where s3: "kbind (os_schedule (K_Schedule (sreg s)) 1 s2) (sched_exit (sreg s) Void) = ok (r, s3)"
    "sched_frame s2 s3" "same_tasks s2 s3"
    using schedule_exit_result [OF s2(2), of "K_Schedule (sreg s)" 1 "sreg s" Void] by blast
  moreover have "state (task s3 t) \<noteq> TASKSTATE_WAIT" using s3(3) s2(3) by (auto simp: same_tasks_def same_tcb_def stuck_def)
  then have "stuck t s3" using stuck_cong [OF s2(3)] s3(2) by (simp add: sched_frame_iff)
  moreover have "\<forall>n. tmr s3 (UserTimer n) = tmr s (UserTimer n)" using s1(3) s2(5) s3(2) by (simp add: sched_frame_iff tq_frame_iff)
  moreover have "os_sem_up m s = ok (r, s3)"
    using isr v s1(1) s2(1) s3(1) wake_then [where t = t and s = s1 and c = OS_OK and
      F = "\<lambda>s2. kbind (os_schedule (K_Schedule (sreg s)) 1 s2) (sched_exit (sreg s) Void)"]
    by (simp add: os_sem_up_def os_sem_up_sync_def)
  ultimately show ?thesis by blast
qed

text \<open>A timer of the application that expires and wakes up the task whose guard comes next in the list: the tick never
  returns. The loop counts the unlinked guard down, over and over, until its callback finds a task that does not wait.\<close>

lemma sem_up_in_callback_never_returns:
  assumes inv: "kinv L Q (UserTimer n # BlockTimer t # ts) s" and m: "SemQ m \<in> L" and fl: "flat (Q (SemQ m)) = t # us"
    and isr: "isr_nesting s > 0" and v: "sem_value (sem s m) < ARCH_ATOMIC_MAX - 1"
    and exp: "ticks_left s (UserTimer n) = 1" "ticks_reload (tmr s (UserTimer n)) = 0" "clbck (tmr s (UserTimer n)) = UserTimerProc k"
    and user: "\<And>p s. user k p s = kbind (os_sem_up m s) (\<lambda>(r, s). ok s)"
  shows "os_tick_timers (call_timer_proc user) s \<noteq> ok s'"
proof
  assume tick: "os_tick_timers (call_timer_proc user) s = ok s'"
  let ?ts = "UserTimer n # BlockTimer t # ts" and ?u = "TimerLink (UserTimer n)" and ?b = "TimerLink (BlockTimer t)"
  have si: "sched_inv L Q s" and bi: "block_inv {} ?ts s" using kinvD [OF inv] by auto
  have rel: "tm_rel ?ts s" and g: "guards {} (set ?ts) s" using bi by (auto simp: block_inv_def)
  have d: "dlist (tmh s) TimerList (map TimerLink ?ts)" "timer_tick_unsynch s < ticks_rem (tmr s (UserTimer n))"
    "timer_tick_unsynch s < ticks_rem (tmr s (BlockTimer t))" "magic (tmr s (BlockTimer t)) = OS_TIMER_MAGIC1"
    using rel by (auto simp: tm_rel_def)
  have b: "timer (task s t) = Some (BlockTimer t)" "ticks_rem (tmr s (BlockTimer t)) > 0"
    using block_invD(2,3) [OF bi, of t] d(3,4) by (auto simp: word_neq_0_conv [symmetric])
  have rem: "ticks_rem (tmr s (UserTimer n)) = timer_tick_unsynch s + 1"
    using rem_after_tick [OF rel, of "UserTimer n"] exp(1) by (simp add: word_unat_eq_iff)
  have hd: "lnext (tmh s) TimerList = ?u" "lnext (tmh s) ?u = ?b" using d(1) by (auto simp: dlist_def)
  let ?s1 = "s\<lparr>timer_tick_unsynch := timer_tick_unsynch s + 1, tmh := list_init ReloadList (tmh s)\<rparr>"
  let ?s2 = "upd_tmr (UserTimer n) (elapse (timer_tick_unsynch ?s1)) ?s1"
  let ?s3 = "?s2\<lparr>tmh := list_unlink ?u (tmh ?s2)\<rparr>"
  have "timer_trigger (call_timer_proc user) (s\<lparr>timer_tick_unsynch := timer_tick_unsynch s + 1\<rparr>) = ok s'"
    using tick dlist_peekfirst [OF d(1)] hd(1) rem by (simp add: os_tick_timers_def list_is_empty_def)
  then obtain s4 where s4: "timer_trigger_loop (call_timer_proc user) ?u ?s1 = ok s4"
    using hd(1) by (auto simp: timer_trigger_def list_itr_begin_def list_h_defs kbind_ok)
  have i3: "sched_inv L Q ?s3" by (rule sched_inv_same [OF si]) (simp_all add: upd_tmr_def)
  have g3: "guards {} (set ?ts) ?s3" using g by (auto simp: guards_def upd_tmr_def elapse_def)
  obtain r s5 where s5: "os_sem_up m ?s3 = ok (r, s5)" "stuck t s5" "tmr s5 (UserTimer n) = tmr ?s3 (UserTimer n)"
    using sem_up_sticks [OF i3 m fl _ g3] isr v b by (auto simp: upd_tmr_def)
  have "timer_trigger_loop (call_timer_proc user) ?b s5 = ok s4"
    using s4 hd s5(1,3) rem exp(2,3) user
    by (subst (asm) timer_trigger_loop.simps) (simp add: list_itr_end_def list_h_defs upd_tmr_def elapse_def call_timer_proc_def)
  then show False using stuck_diverges [OF s5(2)] by blast
qed

end
