(* ===== verification/System_State.thy ===== *)
theory System_State
  imports Timeout
begin

text \<open>
  What the kernel as a whole maintains beyond the invariant \<open>kinv\<close> of queues, tasks and timers: the state of
  every task that does not run (\<open>tasks_ok\<close>: where it left the CPU, what its guard is, whom it waits for in
  \<open>os_task_join\<close>), and the state of the mutexes (\<open>mutex_ok\<close>: their owners, that no chain of blocked owners
  is endless, that no task runs above its priority without a reason). Most calls touch none of this;
  \<open>calm\<close> says so, and is what is proved of the parts they are made of.
\<close>

section \<open>Suspended tasks\<close>

text \<open>A task is suspended if it is in a queue, or if it has got the CPU but has not continued yet.\<close>

definition suspended :: "bool \<Rightarrow> kstate \<Rightarrow> tid \<Rightarrow> bool" where
  "suspended run s c \<longleftrightarrow> task_queue (task s c) \<noteq> None \<or> \<not> run \<and> c = task_current s"

abbreviation alive :: "kstate \<Rightarrow> tid \<Rightarrow> bool" where
  "alive s t \<equiv> suspended False s t"

abbreviation join_q :: "tid \<Rightarrow> qid" where
  "join_q c \<equiv> SemQ (JoinSem c)"

text \<open>A task left the CPU at one of these places. Only in a call with a timeout it still has a guard, which it
  removes when it continues.\<close>

definition plain :: "os_task \<Rightarrow> bool" where
  "plain k \<longleftrightarrow> (case ctx_kont k of
      K_Start _ _ \<Rightarrow> timer k = None | K_Isr _ \<Rightarrow> timer k = None | K_Schedule _ \<Rightarrow> timer k = None
    | K_MtxLock _ \<Rightarrow> timer k = None | K_SemDown _ \<Rightarrow> True | K_WaitqueueWait _ \<Rightarrow> True | _ \<Rightarrow> False)"

fun joins :: "kont \<Rightarrow> tid option" where
  "joins (K_JoinDown _ _ t) = Some t"
| "joins (K_ScheduleJoin _ _ t) = Some t"
| "joins _ = None"

text \<open>A task in \<open>os_task_join\<close> waits in its own semaphore, or the task it waited for has finished.\<close>

definition kont_ok :: "qid set \<Rightarrow> kstate \<Rightarrow> tid \<Rightarrow> bool" where
  "kont_ok L s c \<longleftrightarrow> (case ctx_kont (task s c) of
      K_JoinDown _ _ t \<Rightarrow> timer (task s c) = None \<and> join_sem (task s t) = Some (JoinSem c) \<and> join_q c \<in> L \<and>
        sem_value (sem s (JoinSem c)) = 0 \<and>
        (task_queue (task s c) \<noteq> Some (join_q c) \<longrightarrow> task_queue (task s c) \<in> {None, Some ReadyQ} \<and>
          state (task s t) = TASKSTATE_DESTROYED \<and> ret_block (task s c) = retcode_value OS_OK)
    | K_ScheduleJoin _ _ t \<Rightarrow> timer (task s c) = None \<and> join_sem (task s t) = Some (JoinSem c) \<and>
        state (task s t) = TASKSTATE_DESTROYED
    | _ \<Rightarrow> plain (task s c))"

definition joins_ok :: "bool \<Rightarrow> qid set \<Rightarrow> kstate \<Rightarrow> bool" where
  "joins_ok run L s \<longleftrightarrow>
     (\<forall>t m. join_sem (task s t) = Some m \<longrightarrow>
        (\<exists>c. m = JoinSem c \<and> suspended run s c \<and> joins (ctx_kont (task s c)) = Some t)) \<and>
     (\<forall>c. join_q c \<in> L \<longrightarrow> suspended run s c \<and> (\<exists>r r' t. ctx_kont (task s c) = K_JoinDown r r' t)) \<and>
     (\<forall>t c. task_queue (task s t) = Some (join_q c) \<longrightarrow> t = c)"

definition tasks_ok :: "bool \<Rightarrow> qid set \<Rightarrow> kstate \<Rightarrow> bool" where
  "tasks_ok run L s \<longleftrightarrow> (\<forall>c. suspended run s c \<longrightarrow> kont_ok L s c) \<and>
     (run \<longrightarrow> timer (task s (task_current s)) = None) \<and>
     state (task s (task_current s)) \<noteq> TASKSTATE_DESTROYED \<and> joins_ok run L s"

lemma plain_kont_ok: "plain (task s c) \<Longrightarrow> kont_ok L s c"
  by (auto simp: plain_def kont_ok_def split: kont.splits)

lemma kont_ok_plain: "joins (ctx_kont (task s c)) = None \<Longrightarrow> kont_ok L s c \<longleftrightarrow> plain (task s c)"
  by (cases "ctx_kont (task s c)") (simp_all add: plain_def kont_ok_def)

lemma plain_same: "ctx_kont k' = ctx_kont k \<Longrightarrow> timer k' \<in> {None, timer k} \<Longrightarrow> plain k \<Longrightarrow> plain k'"
  by (auto simp: plain_def split: kont.splits)

lemma tasks_okD:
  assumes "tasks_ok run L s"
  shows "suspended run s c \<Longrightarrow> kont_ok L s c" and "run \<Longrightarrow> timer (task s (task_current s)) = None"
    and "state (task s (task_current s)) \<noteq> TASKSTATE_DESTROYED" and "joins_ok run L s"
  using assms by (auto simp: tasks_ok_def)

lemma joins_okD:
  assumes "joins_ok run L s"
  shows "join_sem (task s t) = Some m \<Longrightarrow> \<exists>c. m = JoinSem c \<and> suspended run s c \<and> joins (ctx_kont (task s c)) = Some t"
    and "join_q c \<in> L \<Longrightarrow> suspended run s c" and "join_q c \<in> L \<Longrightarrow> \<exists>r r' t. ctx_kont (task s c) = K_JoinDown r r' t"
    and "task_queue (task s t) = Some (join_q c) \<Longrightarrow> t = c"
  using assms by (auto simp: joins_ok_def)

text \<open>A continuation stays in order if its task keeps its place and code, and the task it joins its state.\<close>

lemma kont_ok_keeps:
  assumes ok: "kont_ok L s c"
    and k: "ctx_kont (task s' c) = ctx_kont (task s c)" "timer (task s' c) \<in> {None, timer (task s c)}"
    and j: "\<And>t. joins (ctx_kont (task s c)) = Some t \<Longrightarrow> join_sem (task s t) = Some (JoinSem c) \<Longrightarrow>
      join_sem (task s' t) = Some (JoinSem c) \<and> (state (task s t) = TASKSTATE_DESTROYED \<longrightarrow> state (task s' t) = TASKSTATE_DESTROYED)"
    and q: "task_queue (task s c) = Some (join_q c) \<Longrightarrow> task_queue (task s' c) = Some (join_q c)"
      "task_queue (task s c) \<in> {None, Some ReadyQ} \<Longrightarrow>
        task_queue (task s' c) \<in> {None, Some ReadyQ} \<and> ret_block (task s' c) = ret_block (task s c)"
    and L: "sem s' (JoinSem c) = sem s (JoinSem c)" "join_q c \<in> L \<Longrightarrow> join_q c \<in> L'"
  shows "kont_ok L' s' c"
proof (cases "joins (ctx_kont (task s c))")
  case None
  then have "plain (task s c)" using ok by (simp add: kont_ok_plain)
  then show ?thesis by (rule plain_kont_ok [OF plain_same [OF k]])
next
  case (Some t)
  then show ?thesis using ok k j [OF Some] q L by (cases "ctx_kont (task s c)") (auto simp: kont_ok_def)
qed

lemma joins_okI:
  assumes "\<And>t m. join_sem (task s t) = Some m \<Longrightarrow> \<exists>c. m = JoinSem c \<and> suspended run s c \<and> joins (ctx_kont (task s c)) = Some t"
    and "\<And>c. join_q c \<in> L \<Longrightarrow> suspended run s c" and "\<And>c. join_q c \<in> L \<Longrightarrow> \<exists>r r' t. ctx_kont (task s c) = K_JoinDown r r' t"
    and "\<And>t c. task_queue (task s t) = Some (join_q c) \<Longrightarrow> t = c"
  shows "joins_ok run L s"
  using assms by (simp add: joins_ok_def)

text \<open>What most calls leave of the suspended tasks: none disappears, those that were suspended before keep their
  place and, if they are ready, the code they will return; the queues and semaphores of \<open>os_task_join\<close> stay.\<close>

definition still :: "bool \<Rightarrow> kstate \<Rightarrow> bool \<Rightarrow> kstate \<Rightarrow> bool" where
  "still run s run' s' \<longleftrightarrow>
     (\<forall>c. sem s' (JoinSem c) = sem s (JoinSem c)) \<and>
     (\<forall>t. join_sem (task s' t) = join_sem (task s t) \<and>
        (state (task s' t) = TASKSTATE_DESTROYED \<longleftrightarrow> state (task s t) = TASKSTATE_DESTROYED) \<and>
        (\<forall>c. task_queue (task s' t) = Some (join_q c) \<longleftrightarrow> task_queue (task s t) = Some (join_q c)) \<and>
        (alive s' t \<longrightarrow> alive s t) \<and> (suspended run s t \<longrightarrow> suspended run' s' t) \<and>
        (suspended run' s' t \<longrightarrow>
          (if suspended run s t
           then ctx_kont (task s' t) = ctx_kont (task s t) \<and> timer (task s' t) \<in> {None, timer (task s t)} \<and>
             (task_queue (task s t) \<in> {None, Some ReadyQ} \<longrightarrow>
               task_queue (task s' t) \<in> {None, Some ReadyQ} \<and> ret_block (task s' t) = ret_block (task s t))
           else plain (task s' t)))) \<and>
     (run' \<longrightarrow> run \<and> task_current s' = task_current s \<and>
        timer (task s' (task_current s)) \<in> {None, timer (task s (task_current s))})"

lemma stillI:
  assumes "\<And>c. sem s' (JoinSem c) = sem s (JoinSem c)" and "\<And>t. join_sem (task s' t) = join_sem (task s t)"
    and "\<And>t. state (task s' t) = TASKSTATE_DESTROYED \<longleftrightarrow> state (task s t) = TASKSTATE_DESTROYED"
    and "\<And>t c. task_queue (task s' t) = Some (join_q c) \<longleftrightarrow> task_queue (task s t) = Some (join_q c)"
    and "\<And>t. alive s' t \<Longrightarrow> alive s t" and "\<And>t. suspended run s t \<Longrightarrow> suspended run' s' t"
    and "\<And>t. suspended run s t \<Longrightarrow> ctx_kont (task s' t) = ctx_kont (task s t) \<and> timer (task s' t) \<in> {None, timer (task s t)}"
    and "\<And>t. suspended run s t \<Longrightarrow> task_queue (task s t) \<in> {None, Some ReadyQ} \<Longrightarrow>
      task_queue (task s' t) \<in> {None, Some ReadyQ} \<and> ret_block (task s' t) = ret_block (task s t)"
    and "\<And>t. suspended run' s' t \<Longrightarrow> \<not> suspended run s t \<Longrightarrow> plain (task s' t)"
    and "run' \<Longrightarrow> run \<and> task_current s' = task_current s \<and>
      timer (task s' (task_current s)) \<in> {None, timer (task s (task_current s))}"
  shows "still run s run' s'"
  unfolding still_def using assms by (simp only: if_split) blast

lemma stillD:
  assumes "still run s run' s'"
  shows "sem s' (JoinSem c) = sem s (JoinSem c)" and "join_sem (task s' t) = join_sem (task s t)"
    and "state (task s' t) = TASKSTATE_DESTROYED \<longleftrightarrow> state (task s t) = TASKSTATE_DESTROYED"
    and "task_queue (task s' t) = Some (join_q c) \<longleftrightarrow> task_queue (task s t) = Some (join_q c)"
    and "alive s' t \<Longrightarrow> alive s t" and "suspended run s t \<Longrightarrow> suspended run' s' t"
    and "suspended run s t \<Longrightarrow> ctx_kont (task s' t) = ctx_kont (task s t)"
    and "suspended run s t \<Longrightarrow> timer (task s' t) \<in> {None, timer (task s t)}"
    and "suspended run s t \<Longrightarrow> task_queue (task s t) \<in> {None, Some ReadyQ} \<Longrightarrow>
      task_queue (task s' t) \<in> {None, Some ReadyQ} \<and> ret_block (task s' t) = ret_block (task s t)"
    and "suspended run' s' t \<Longrightarrow> \<not> suspended run s t \<Longrightarrow> plain (task s' t)"
    and "run' \<Longrightarrow> run \<and> task_current s' = task_current s \<and>
      timer (task s' (task_current s)) \<in> {None, timer (task s (task_current s))}"
proof -
  have *: "join_sem (task s' t) = join_sem (task s t) \<and>
      (state (task s' t) = TASKSTATE_DESTROYED \<longleftrightarrow> state (task s t) = TASKSTATE_DESTROYED) \<and>
      (\<forall>c. task_queue (task s' t) = Some (join_q c) \<longleftrightarrow> task_queue (task s t) = Some (join_q c)) \<and>
      (alive s' t \<longrightarrow> alive s t) \<and> (suspended run s t \<longrightarrow> suspended run' s' t) \<and>
      (suspended run' s' t \<longrightarrow>
        (if suspended run s t
         then ctx_kont (task s' t) = ctx_kont (task s t) \<and> timer (task s' t) \<in> {None, timer (task s t)} \<and>
           (task_queue (task s t) \<in> {None, Some ReadyQ} \<longrightarrow>
             task_queue (task s' t) \<in> {None, Some ReadyQ} \<and> ret_block (task s' t) = ret_block (task s t))
         else plain (task s' t)))" for t
    using assms unfolding still_def by blast
  show "join_sem (task s' t) = join_sem (task s t)" using * [of t] by blast
  show "state (task s' t) = TASKSTATE_DESTROYED \<longleftrightarrow> state (task s t) = TASKSTATE_DESTROYED" using * [of t] by blast
  show "task_queue (task s' t) = Some (join_q c) \<longleftrightarrow> task_queue (task s t) = Some (join_q c)" using * [of t] by blast
  show "alive s' t \<Longrightarrow> alive s t" "suspended run s t \<Longrightarrow> suspended run' s' t" using * [of t] by blast+
  show "suspended run s t \<Longrightarrow> ctx_kont (task s' t) = ctx_kont (task s t)"
    "suspended run s t \<Longrightarrow> timer (task s' t) \<in> {None, timer (task s t)}"
    "suspended run s t \<Longrightarrow> task_queue (task s t) \<in> {None, Some ReadyQ} \<Longrightarrow>
      task_queue (task s' t) \<in> {None, Some ReadyQ} \<and> ret_block (task s' t) = ret_block (task s t)"
    "suspended run' s' t \<Longrightarrow> \<not> suspended run s t \<Longrightarrow> plain (task s' t)"
    using * [of t] by (simp_all split: if_splits)
  show "sem s' (JoinSem c) = sem s (JoinSem c)" using assms unfolding still_def by blast
  show "run' \<Longrightarrow> run \<and> task_current s' = task_current s \<and>
      timer (task s' (task_current s)) \<in> {None, timer (task s (task_current s))}"
    using assms unfolding still_def by blast
qed

lemma still_keeps:
  assumes ok: "tasks_ok run L s" and st: "still run s run' s'" and tk: "\<And>t. task_ok (task s t)"
    and L: "\<And>c. join_q c \<in> L' \<longleftrightarrow> join_q c \<in> L"
  shows "tasks_ok run' L' s'"
proof -
  note d = stillD [OF st] and j = joins_okD [OF tasks_okD(4) [OF ok]]
  have "kont_ok L' s' c" if c: "suspended run' s' c" for c
  proof (cases "suspended run s c")
    case True
    show ?thesis
      by (rule kont_ok_keeps [OF tasks_okD(1) [OF ok True]])
        (use L [of c] d(1) [of c] d(2,3) d(4) [of c c] d(7,8,9) [OF True] in simp_all)
  next
    case False
    show ?thesis by (rule plain_kont_ok [OF d(10) [OF c False]])
  qed
  moreover have "state (task s' (task_current s')) \<noteq> TASKSTATE_DESTROYED"
  proof -
    have "alive s (task_current s')" by (rule d(5)) (simp add: suspended_def)
    moreover have "state (task s t) \<noteq> TASKSTATE_DESTROYED" if "task_queue (task s t) \<noteq> None" for t
      using that tk [of t] by (auto simp: task_ok_def split: if_splits)
    ultimately have "state (task s (task_current s')) \<noteq> TASKSTATE_DESTROYED"
      using tasks_okD(3) [OF ok] by (auto simp: suspended_def)
    then show ?thesis using d(3) by blast
  qed
  moreover have "joins_ok run' L' s'"
  proof (rule joins_okI)
    fix t m assume "join_sem (task s' t) = Some m"
    then obtain c where "m = JoinSem c" "suspended run s c" "joins (ctx_kont (task s c)) = Some t"
      using j(1) d(2) by metis
    then show "\<exists>c. m = JoinSem c \<and> suspended run' s' c \<and> joins (ctx_kont (task s' c)) = Some t"
      using d(6,7) [of c] by auto
  next
    fix c assume "join_q c \<in> L'"
    then show "suspended run' s' c" "\<exists>r r' t. ctx_kont (task s' c) = K_JoinDown r r' t"
      using j(2,3) [of c] d(6,7) [of c] L by auto
  next
    fix t c assume "task_queue (task s' t) = Some (join_q c)"
    then show "t = c" using d(4) j(4) by blast
  qed
  ultimately show ?thesis using d(11) tasks_okD(2) [OF ok] by (auto simp: tasks_ok_def)
qed

lemma still_trans:
  assumes a: "still run s run1 s1" and b: "still run1 s1 run' s'"
  shows "still run s run' s'"
proof (rule stillI)
  note A = stillD [OF a] and B = stillD [OF b]
  fix t
  show "sem s' (JoinSem c) = sem s (JoinSem c)" "join_sem (task s' t) = join_sem (task s t)"
    "state (task s' t) = TASKSTATE_DESTROYED \<longleftrightarrow> state (task s t) = TASKSTATE_DESTROYED"
    "task_queue (task s' t) = Some (join_q c) \<longleftrightarrow> task_queue (task s t) = Some (join_q c)" for c
    by (simp_all add: A(1-4) B(1-4))
  show "alive s t" if "alive s' t" using A(5) B(5) that by blast
  show "suspended run' s' t" if "suspended run s t" using A(6) B(6) that by blast
  show "ctx_kont (task s' t) = ctx_kont (task s t) \<and> timer (task s' t) \<in> {None, timer (task s t)}" if "suspended run s t"
    using A(6-8) [OF that] B(7,8) [of t] by auto
  show "task_queue (task s' t) \<in> {None, Some ReadyQ} \<and> ret_block (task s' t) = ret_block (task s t)"
    if "suspended run s t" "task_queue (task s t) \<in> {None, Some ReadyQ}"
    using A(6,9) [OF that(1)] B(9) [of t] that(2) by simp
  show "plain (task s' t)" if t: "suspended run' s' t" "\<not> suspended run s t"
  proof (cases "suspended run1 s1 t")
    case True
    show ?thesis by (rule plain_same [OF B(7,8) [OF True] A(10) [OF True t(2)]])
  qed (use B(10) [OF t(1)] in blast)
  show "run \<and> task_current s' = task_current s \<and> timer (task s' (task_current s)) \<in> {None, timer (task s (task_current s))}" if run'
    using A(11) B(11) that by auto
qed

lemma still_same:
  assumes "task s' = task s" "task_current s' = task_current s" "\<And>c. sem s' (JoinSem c) = sem s (JoinSem c)"
  shows "still run s run s'"
  using assms by (simp add: still_def suspended_def)

section \<open>Mutexes\<close>

text \<open>The chain of owners of the mutexes that tasks wait for, from a task on, comes to an end: no deadlock.\<close>

inductive chain_ends :: "kstate \<Rightarrow> tid \<Rightarrow> bool" for s :: kstate where
  free: "(\<And>m. task_queue (task s t) \<noteq> Some (MtxQ m)) \<Longrightarrow> chain_ends s t"
| blocked: "task_queue (task s t) = Some (MtxQ m) \<Longrightarrow> owner (mtx s m) = Some u \<Longrightarrow> chain_ends s u \<Longrightarrow> chain_ends s t"

text \<open>No task has more than its own priority, unless a task of that priority waits for one of its mutexes.\<close>

definition prio_justified :: "kstate \<Rightarrow> bool" where
  "prio_justified s \<longleftrightarrow> (\<forall>t. prio_current (task s t) \<le> prio_base (task s t) \<or>
     (\<exists>m u. owner (mtx s m) = Some t \<and> task_queue (task s u) = Some (MtxQ m) \<and> prio_current (task s t) \<le> prio_current (task s u)))"

text \<open>As long as mutexes are used with discipline (\<open>z\<close>), more holds: an owner of a mutex runs, is ready or waits for
  another mutex, and has at least the priority of the tasks that wait for it.\<close>

definition active :: "kstate \<Rightarrow> tid \<Rightarrow> bool" where
  "active s t \<longleftrightarrow> t = task_current s \<or> task_queue (task s t) = Some ReadyQ"

definition owners_run :: "kstate \<Rightarrow> bool" where
  "owners_run s \<longleftrightarrow> (\<forall>m t. owner (mtx s m) = Some t \<longrightarrow> active s t \<or> (\<exists>k. task_queue (task s t) = Some (MtxQ k)))"

definition prio_exact :: "kstate \<Rightarrow> bool" where
  "prio_exact s \<longleftrightarrow> prio_inherited s \<and> owners_run s \<and> (\<forall>t. prio_base (task s t) \<le> prio_current (task s t))"

definition mutex_ok :: "bool \<Rightarrow> qid set \<Rightarrow> kstate \<Rightarrow> bool" where
  "mutex_ok z L s \<longleftrightarrow> (\<exists>T M. minv L T M s \<and> (\<forall>t. alive s t \<longrightarrow> t \<in> T)) \<and> (\<forall>t. chain_ends s t) \<and> prio_justified s \<and>
     (z \<longrightarrow> prio_exact s)"

lemma mutex_okI:
  assumes "minv L T M s" and "\<And>t. alive s t \<Longrightarrow> t \<in> T" and "\<And>t. chain_ends s t" and "prio_justified s" and "z \<Longrightarrow> prio_exact s"
  shows "mutex_ok z L s"
  using assms unfolding mutex_ok_def by blast

lemma mutex_okE:
  assumes "mutex_ok z L s"
  obtains T M where "minv L T M s" "\<And>t. alive s t \<Longrightarrow> t \<in> T" "\<And>t. chain_ends s t" "prio_justified s" "z \<Longrightarrow> prio_exact s"
  using assms unfolding mutex_ok_def by blast

lemma chain_ends_mono:
  assumes "chain_ends s t"
    and "\<And>t m. task_queue (task s' t) = Some (MtxQ m) \<Longrightarrow>
      task_queue (task s t) = Some (MtxQ m) \<and> owner (mtx s' m) = owner (mtx s m) \<or>
      (\<exists>u. owner (mtx s' m) = Some u \<and> chain_ends s' u)"
  shows "chain_ends s' t"
  using assms(1)
proof (induction rule: chain_ends.induct)
  case (free t)
  show ?case
  proof (cases "\<exists>m. task_queue (task s' t) = Some (MtxQ m)")
    case True
    then obtain m u where "task_queue (task s' t) = Some (MtxQ m)" "owner (mtx s' m) = Some u" "chain_ends s' u"
      using assms(2) [of t] free by blast
    then show ?thesis by (rule chain_ends.blocked)
  next
    case False
    then show ?thesis by (intro chain_ends.free) blast
  qed
next
  case (blocked t m u)
  show ?case
  proof (cases "\<exists>k. task_queue (task s' t) = Some (MtxQ k)")
    case True
    then obtain k where k: "task_queue (task s' t) = Some (MtxQ k)" by blast
    obtain v where "owner (mtx s' k) = Some v" "chain_ends s' v"
      using assms(2) [OF k] blocked by auto
    then show ?thesis by (rule chain_ends.blocked [OF k])
  next
    case False
    then show ?thesis by (intro chain_ends.free) blast
  qed
qed

lemma chain_ends_bchain:
  assumes inv: "kinv L Q ts s" and "chain_ends s t"
  shows "\<exists>us. bchain s (t # us)"
  using assms(2)
proof (induction rule: chain_ends.induct)
  case (free t)
  then show ?case using waits_mtx_iff [OF inv, of t] by (intro exI [of _ "[]"]) simp
next
  case (blocked t m u)
  then obtain us where "bchain s (u # us)" by blast
  then have "bchain s (t # u # us)" using blocked waits_mtx_iff [OF inv, of t] by (simp add: blocker_def)
  then show ?case by blast
qed

text \<open>What most calls leave of the mutexes and the tasks that have to do with them: everything.\<close>

definition mtx_still :: "kstate \<Rightarrow> kstate \<Rightarrow> bool" where
  "mtx_still s s' \<longleftrightarrow> mxh s' = mxh s \<and> mtx s' = mtx s \<and>
     (\<forall>t. prio_base (task s' t) = prio_base (task s t) \<and> prio_current (task s' t) = prio_current (task s t) \<and>
        (\<forall>m. task_queue (task s' t) = Some (MtxQ m) \<longleftrightarrow> task_queue (task s t) = Some (MtxQ m)) \<and>
        (\<forall>m. task_queue (task s' t) = Some (MtxQ m) \<longrightarrow> timer (task s' t) \<in> {None, timer (task s t)}) \<and>
        (alive s' t \<longrightarrow> alive s t))"

definition owners_stay :: "kstate \<Rightarrow> kstate \<Rightarrow> bool" where
  "owners_stay s s' \<longleftrightarrow> (\<forall>m t. owner (mtx s m) = Some t \<and> active s t \<longrightarrow> active s' t)"

lemma mtx_still_keeps:
  assumes ok: "mutex_ok z L s" and st: "mtx_still s s'" and os: "z' \<Longrightarrow> z \<and> owners_stay s s'" and L: "\<And>m. MtxQ m \<in> L \<Longrightarrow> MtxQ m \<in> L'"
  shows "mutex_ok z' L' s'"
proof -
  obtain T M where m: "minv L T M s" "\<And>t. alive s t \<Longrightarrow> t \<in> T" "\<And>t. chain_ends s t" "prio_justified s" "z \<Longrightarrow> prio_exact s"
    using ok by (rule mutex_okE) blast
  have d: "mxh s' = mxh s" "mtx s' = mtx s" "prio_base (task s' t) = prio_base (task s t)"
    "prio_current (task s' t) = prio_current (task s t)" "alive s' t \<Longrightarrow> alive s t"
    "task_queue (task s' t) = Some (MtxQ k) \<longleftrightarrow> task_queue (task s t) = Some (MtxQ k)"
    "task_queue (task s' t) = Some (MtxQ k) \<Longrightarrow> timer (task s' t) \<in> {None, timer (task s t)}" for t k
    using st unfolding mtx_still_def by blast+
  have "owner (mtx s' k) \<noteq> None \<and> timer (task s' t) = None \<and> t \<in> T" if "task_queue (task s' t) = Some (MtxQ k)" for t k
    using minvD(2) [OF m(1), of t k] d(7) [OF that] that by (simp add: d(2,6))
  moreover have "mown L' T M s'" using mown_cong [OF minvD(1) [OF m(1)], of s'] L by (auto simp: mown_def d(1,2))
  ultimately have "minv L' T M s'" unfolding minv_def by blast
  moreover have "chain_ends s' t" for t by (rule chain_ends_mono [OF m(3)]) (simp add: d(2,6))
  moreover have "prio_justified s'" using m(4) by (simp add: prio_justified_def d(2-4,6))
  moreover have "prio_exact s'" if z'
  proof -
    have "prio_exact s" "owners_stay s s'" using os [OF that] m(5) by blast+
    then show ?thesis unfolding prio_exact_def prio_inherited_def owners_run_def owners_stay_def d(2-4,6) by blast
  qed
  ultimately show ?thesis using m(2) d(5) by (intro mutex_okI) blast+
qed

lemma mtx_still_trans:
  assumes "mtx_still s s1" and "mtx_still s1 s'"
  shows "mtx_still s s'"
  using assms unfolding mtx_still_def by (intro conjI allI impI) fastforce+

lemma owners_stay_trans: "owners_stay s s1 \<Longrightarrow> mtx_still s s1 \<Longrightarrow> owners_stay s1 s' \<Longrightarrow> owners_stay s s'"
  unfolding owners_stay_def mtx_still_def by metis

text \<open>Semaphores: a task waits only for one whose value is 0. No wake-up is lost.\<close>

definition sems_ok :: "kstate \<Rightarrow> bool" where
  "sems_ok s \<longleftrightarrow> (\<forall>t m. task_queue (task s t) = Some (SemQ m) \<longrightarrow> sem_value (sem s m) = 0)"

definition sem_still :: "kstate \<Rightarrow> kstate \<Rightarrow> bool" where
  "sem_still s s' \<longleftrightarrow> (\<forall>t m. task_queue (task s' t) = Some (SemQ m) \<longrightarrow> sem_value (sem s' m) = 0 \<or>
     task_queue (task s t) = Some (SemQ m) \<and> sem_value (sem s' m) = sem_value (sem s m))"

lemma sem_still_keeps: "sems_ok s \<Longrightarrow> sem_still s s' \<Longrightarrow> sems_ok s'"
  unfolding sems_ok_def sem_still_def by metis

lemma sems_mono:
  assumes "sems_ok s"
    and "\<And>t m. task_queue (task s' t) = Some (SemQ m) \<Longrightarrow> task_queue (task s t) = Some (SemQ m) \<and> sem s' m = sem s m"
  shows "sems_ok s'"
  using assms unfolding sems_ok_def by metis

lemma sem_still_trans: "sem_still s s1 \<Longrightarrow> sem_still s1 s' \<Longrightarrow> sem_still s s'"
  unfolding sem_still_def by metis

definition calm :: "bool \<Rightarrow> kstate \<Rightarrow> bool \<Rightarrow> kstate \<Rightarrow> bool" where
  "calm run s run' s' \<longleftrightarrow> still run s run' s' \<and> mtx_still s s' \<and> owners_stay s s' \<and> sem_still s s'"

lemma calm_trans: "calm run s run1 s1 \<Longrightarrow> calm run1 s1 run' s' \<Longrightarrow> calm run s run' s'"
  using still_trans mtx_still_trans owners_stay_trans sem_still_trans unfolding calm_def by blast

lemma calm_same:
  assumes "task s' = task s" "task_current s' = task_current s" "\<And>c. sem s' (JoinSem c) = sem s (JoinSem c)"
    "mxh s' = mxh s" "mtx s' = mtx s"
    "\<And>t m. task_queue (task s t) = Some (SemQ m) \<Longrightarrow> sem_value (sem s' m) \<in> {0, sem_value (sem s m)}"
  shows "calm run s run s'"
proof -
  have "sem_still s s'" using assms(6) unfolding sem_still_def by (auto simp: assms(1))
  then show ?thesis
    using assms(1-5) still_same [OF assms(1-3)] by (simp add: calm_def mtx_still_def owners_stay_def suspended_def active_def)
qed

text \<open>Mutual exclusion: only the running task takes a mutex, if it is free, or gives up one of its own.\<close>

definition owners_kept :: "kstate \<Rightarrow> kstate \<Rightarrow> bool" where
  "owners_kept s s' \<longleftrightarrow> (\<forall>m. owner (mtx s' m) \<noteq> owner (mtx s m) \<longrightarrow>
     owner (mtx s m) = Some (task_current s) \<or> owner (mtx s m) = None \<and> owner (mtx s' m) = Some (task_current s))"

lemma owners_kept_same [simp]: "mtx s' = mtx s \<Longrightarrow> owners_kept s s'"
  by (simp add: owners_kept_def)

lemma owners_kept_but:
  assumes "\<And>k. k \<noteq> m \<Longrightarrow> owner (mtx s' k) = owner (mtx s k)"
    and "owner (mtx s m) = Some (task_current s) \<or> owner (mtx s' m) = owner (mtx s m)"
  shows "owners_kept s s'"
  unfolding owners_kept_def
proof (intro allI impI)
  fix k assume "owner (mtx s' k) \<noteq> owner (mtx s k)"
  then show "owner (mtx s k) = Some (task_current s) \<or> owner (mtx s k) = None \<and> owner (mtx s' k) = Some (task_current s)"
    using assms by (cases "k = m") auto
qed

lemma owners_kept_then: "owners_kept s s1 \<Longrightarrow> mtx s' = mtx s1 \<Longrightarrow> owners_kept s s'"
  by (simp add: owners_kept_def)

text \<open>All together.\<close>

definition world_ok :: "bool \<Rightarrow> bool \<Rightarrow> qid set \<Rightarrow> kstate \<Rightarrow> bool" where
  "world_ok z run L s \<longleftrightarrow> tasks_ok run L s \<and> mutex_ok z L s \<and> sems_ok s"

section \<open>The parts of the calls\<close>

lemma queue_live:
  assumes "kinv L Q ts s" and "task_queue (task s t) = Some q"
  shows "q \<in> L"
  using tq_relD(3,4) [OF sched_invD(1) [OF kinvD(1) [OF assms(1)]]] assms(2) by blast

text \<open>The queues of mutexes and of \<open>os_task_join\<close>; the other calls leave them alone.\<close>

fun own_q :: "qid \<Rightarrow> bool" where
  "own_q (MtxQ _) = True"
| "own_q (SemQ (JoinSem _)) = True"
| "own_q _ = False"

lemma own_q_neq: "\<not> own_q q \<Longrightarrow> q \<noteq> MtxQ m \<and> q \<noteq> join_q c"
  by auto

lemma calm_keeps:
  assumes "world_ok z run L s" and "calm run s run' s'" and "kinv L0 Q ts s"
    and "\<And>q. own_q q \<Longrightarrow> q \<in> L' \<longleftrightarrow> q \<in> L"
  shows "world_ok z run' L' s'"
  using assms(1,2,4) still_keeps [of run L s run' s' L'] mtx_still_keeps [of z L s s' z L'] sched_invD(3) [OF kinvD(1) [OF assms(3)]]
    sem_still_keeps [of s s']
  by (simp add: world_ok_def calm_def)

lemma calm_woken:
  assumes inv: "kinv L Q ts s" and w: "all_woken x q us (Q, ts, s) (Q', ts', s')" and q: "q \<noteq> ReadyQ" "\<not> own_q q"
  shows "calm run s run s'"
proof -
  have us: "task_queue (task s t) = Some q" "state (task s t) = TASKSTATE_WAIT" if "t \<in> set us" for t
  proof -
    show *: "task_queue (task s t) = Some q" using w that kinv_members [OF inv, of t q] by (auto simp: all_woken_def)
    then show "state (task s t) = TASKSTATE_WAIT" using sched_invD(3) [OF kinvD(1) [OF inv], of t] q by (simp add: task_ok_def)
  qed
  have c: "task_current s \<notin> set us" using us(1) sched_invD(4) [OF kinvD(1) [OF inv]] by fastforce
  have tk: "task s' t = (if t \<in> set us then (task s t)\<lparr>timer := None, ret_block := retcode_value x, state := TASKSTATE_READY,
      task_queue := Some ReadyQ\<rparr> else task s t)" for t
    using w by (simp add: all_woken_def)
  have f: "task_current s' = task_current s" "sem s' = sem s" "mxh s' = mxh s" "mtx s' = mtx s"
    using w by (auto simp: all_woken_def core_frame_def)
  note nq = own_q_neq [OF q(2)]
  have "still run s run s'"
    by (rule stillI) (use us c nq q(1) in \<open>auto simp: tk f suspended_def split: if_splits\<close>)
  moreover have "mtx_still s s'"
    unfolding mtx_still_def using us nq by (auto simp: tk f suspended_def)
  moreover have "owners_stay s s'" unfolding owners_stay_def active_def by (auto simp: tk f)
  moreover have "sem_still s s'" unfolding sem_still_def by (auto simp: tk f split: if_splits)
  ultimately show ?thesis by (simp add: calm_def)
qed

text \<open>The running task enters a queue and gives the CPU to the first ready task.\<close>

lemma calm_blocked:
  assumes inv: "kinv L Q ts s" and rd: "ready Q = t # us" and d: "state (task s (task_current s)) \<noteq> TASKSTATE_DESTROYED"
    and tk: "task s' = (task s)(t := (task s t)\<lparr>task_queue := None\<rparr>,
      task_current s := (task s (task_current s))\<lparr>timer := g, state := TASKSTATE_WAIT, block_type := bt, task_queue := Some q, ctx_kont := x\<rparr>)"
    and q: "\<not> own_q q" and x: "x = K_SemDown v \<or> x = K_WaitqueueWait v"
    and f: "task_current s' = t" "sem s' = sem s" "mxh s' = mxh s" "mtx s' = mtx s"
    and o: "\<And>m. owner (mtx s m) \<noteq> Some (task_current s)" and v: "\<And>m. q = SemQ m \<Longrightarrow> sem_value (sem s m) = 0"
  shows "calm True s False s'"
proof -
  have t: "task_queue (task s t) = Some ReadyQ" "t \<noteq> task_current s"
    using kinv_members [OF inv, of t ReadyQ] rd ready_not_current [OF inv rd] by auto
  have c: "task_queue (task s (task_current s)) = None" by (rule sched_invD(4) [OF kinvD(1) [OF inv]])
  note nq = own_q_neq [OF q]
  have p: "plain (task s' (task_current s))" using x by (auto simp: tk plain_def)
  have "still True s False s'"
    by (rule stillI) (use t c d nq p in \<open>auto simp: tk f suspended_def split: if_splits\<close>)
  moreover have "mtx_still s s'"
    unfolding mtx_still_def using t c nq by (auto simp: tk f suspended_def)
  moreover have "owners_stay s s'" unfolding owners_stay_def active_def using t c o by (auto simp: tk f)
  moreover have "sem_still s s'" unfolding sem_still_def using v by (auto simp: tk f split: if_splits)
  ultimately show ?thesis by (simp add: calm_def)
qed

text \<open>Guards expired.\<close>

lemma calm_timed_out:
  assumes inv: "kinv L Q ts s" and ok: "world_ok z False L s" and E: "E \<subseteq> set ts" and tk: "task s' = timed_out E (task s)"
    and f: "task_current s' = task_current s" "sem s' = sem s" "mxh s' = mxh s" "mtx s' = mtx s"
  shows "calm False s False s'"
proof -
  obtain T M where mi: "minv L T M s" using ok by (auto simp: world_ok_def elim: mutex_okE)
  have e: "\<exists>q. task_queue (task s t) = Some q \<and> q \<noteq> ReadyQ \<and> \<not> own_q q" "state (task s t) = TASKSTATE_WAIT"
    if "BlockTimer t \<in> E" for t
  proof -
    have t: "BlockTimer t \<in> set ts" using that E by blast
    then have tm: "timer (task s t) \<noteq> None"
      using kinvD(2) [OF inv] tm_relD(4) [of ts s "BlockTimer t"] by (auto simp: block_inv_def guards_def)
    show w: "state (task s t) = TASKSTATE_WAIT" using block_invD(4) [OF kinvD(2) [OF inv] t] by blast
    obtain q where q: "task_queue (task s t) = Some q" "q \<noteq> ReadyQ" "q \<in> L"
      using waiting_queue [OF kinvD(1,3) [OF inv] w] by blast
    have "q \<noteq> MtxQ m" for m using minvD(2) [OF mi, of t m] q(1) tm by auto
    moreover have "q \<noteq> join_q c" for c
    proof
      assume c: "q = join_q c"
      have tok: "tasks_ok False L s" using ok by (simp add: world_ok_def)
      note j = joins_okD [OF tasks_okD(4) [OF tok]]
      have "t = c" using j(4) q(1) c by simp
      moreover have "\<exists>r r' u. ctx_kont (task s c) = K_JoinDown r r' u" "suspended False s c" using j(2,3) q(3) c by simp_all
      ultimately show False using tasks_okD(1) [OF tok, of c] tm by (auto simp: kont_ok_def)
    qed
    ultimately have "\<not> own_q q" by (cases q rule: own_q.cases) auto
    then show "\<exists>q. task_queue (task s t) = Some q \<and> q \<noteq> ReadyQ \<and> \<not> own_q q" using q by blast
  qed
  have c: "task_queue (task s (task_current s)) = None" by (rule sched_invD(4) [OF kinvD(1) [OF inv]])
  have tk': "task s' t = (if BlockTimer t \<in> E then (task s t)\<lparr>ret_block := retcode_value OS_TIMEOUT, state := TASKSTATE_READY,
      task_queue := Some ReadyQ\<rparr> else task s t)" for t by (simp add: tk timed_out_def)
  have "still False s False s'"
    by (rule stillI) (use e c in \<open>auto simp: tk' f suspended_def split: if_splits dest!: e(1)\<close>)
  moreover have "mtx_still s s'"
    unfolding mtx_still_def using e by (auto simp: tk' f suspended_def dest!: e(1))
  moreover have "owners_stay s s'" unfolding owners_stay_def active_def by (auto simp: tk' f)
  moreover have "sem_still s s'" unfolding sem_still_def by (auto simp: tk' f split: if_splits)
  ultimately show ?thesis by (simp add: calm_def)
qed

text \<open>Entry and exit of an interrupt.\<close>

lemma calm_isr_enter:
  assumes n: "isr_nesting s = 0" and ok: "tasks_ok True L s" and s1: "s1 = arch_contextstore_i s"
    and c: "task_queue (task s (task_current s)) = None"
  shows "calm True s False s1"
proof -
  have tk: "task s1 = (task s)(task_current s := (task s (task_current s))\<lparr>ctx_kont := K_Isr (sreg s OR 0x80)\<rparr>)"
    and f: "sem s1 = sem s" "task_current s1 = task_current s" "mxh s1 = mxh s" "mtx s1 = mtx s"
    using n by (simp_all add: s1 arch_contextstore_i_def Let_def task_upd_task)
  have "plain (task s1 (task_current s))" using tasks_okD(2) [OF ok] by (simp add: tk plain_def)
  then have "still True s False s1"
    by (intro stillI) (use c in \<open>auto simp: tk f suspended_def split: if_splits\<close>)
  moreover have "mtx_still s s1" unfolding mtx_still_def by (auto simp: tk f suspended_def)
  moreover have "owners_stay s s1" unfolding owners_stay_def active_def by (auto simp: tk f)
  moreover have "sem_still s s1" unfolding sem_still_def by (auto simp: tk f split: if_splits)
  ultimately show ?thesis by (simp add: calm_def)
qed

text \<open>A context switch by the scheduler, in a task (\<open>run\<close>) or in an interrupt.\<close>

lemma calm_switch:
  assumes inv: "kinv L Q ts s" "kinv L Q' ts s'" and ne: "task_current s' \<noteq> task_current s"
    and c: "task_queue (task s' (task_current s)) = Some ReadyQ" "task_queue (task s (task_current s')) = Some ReadyQ"
    and fr: "sched_frame s s'" "same_tasks s s'" "\<forall>t. t \<notin> {task_current s, task_current s'} \<longrightarrow> task s' t = task s t"
      "\<forall>t. t \<noteq> task_current s \<longrightarrow> ctx_kont (task s' t) = ctx_kont (task s t)"
    and k: "if run then plain (task s' (task_current s)) else ctx_kont (task s' (task_current s)) = ctx_kont (task s (task_current s))"
    and nd: "state (task s (task_current s)) \<noteq> TASKSTATE_DESTROYED"
  shows "calm run s False s'"
proof -
  let ?c = "task_current s" and ?d = "task_current s'"
  have f: "sem s' = sem s" "mxh s' = mxh s" "mtx s' = mtx s" using fr(1) by (simp_all add: sched_frame_iff)
  have same: "prio_base (task s' t) = prio_base (task s t)" "prio_current (task s' t) = prio_current (task s t)"
    "timer (task s' t) = timer (task s t)" "join_sem (task s' t) = join_sem (task s t)" "ret_block (task s' t) = ret_block (task s t)"
    "state (task s' t) \<in> {state (task s t), TASKSTATE_READY, TASKSTATE_RUNNING}" for t
    using fr(2) by (simp_all add: same_tasks_def same_tcb_def)
  have q: "task_queue (task s ?c) = None" "task_queue (task s' ?d) = None"
    using sched_invD(4) [OF kinvD(1) [OF inv(1)]] sched_invD(4) [OF kinvD(1) [OF inv(2)]] by simp_all
  have o: "task s' t = task s t" if "t \<noteq> ?c" "t \<noteq> ?d" for t using fr(3) that by blast
  have nd': "state (task s ?d) \<noteq> TASKSTATE_DESTROYED"
    using sched_invD(3) [OF kinvD(1) [OF inv(1)], of ?d] c(2) by (auto simp: task_ok_def)
  have st: "state (task s' t) = TASKSTATE_DESTROYED \<longleftrightarrow> state (task s t) = TASKSTATE_DESTROYED" for t
    using same(6) [of t] o [of t] nd nd' by (cases "t = ?c"; cases "t = ?d") auto
  have tq: "task_queue (task s' t) = (if t = ?c then Some ReadyQ else if t = ?d then None else task_queue (task s t))" for t
    using c(1) q(2) o [of t] by auto
  have ko: "ctx_kont (task s' t) = ctx_kont (task s t)" if "suspended run s t" for t
    using fr(4) k that q(1) by (cases "t = ?c") (auto simp: suspended_def split: if_splits)
  have pl: "plain (task s' t)" if "suspended False s' t" "\<not> suspended run s t" for t
    using that k c(2) q(1) by (auto simp: suspended_def tq split: if_splits)
  have "still run s False s'"
    by (rule stillI) (use st ko pl c q ne in \<open>auto simp: f same(3-5) suspended_def tq split: if_splits\<close>)
  moreover have "mtx_still s s'"
    unfolding mtx_still_def using c q ne by (auto simp: f same suspended_def tq split: if_splits)
  moreover have "owners_stay s s'" unfolding owners_stay_def active_def by (auto simp: tq)
  moreover have "sem_still s s'" unfolding sem_still_def by (auto simp: tq f split: if_splits)
  ultimately show ?thesis by (simp add: calm_def)
qed

lemma schedule_tail:
  assumes inv: "kinv L Q ts s" and d: "arch_is_dint (sreg s)" and n: "isr_nesting s \<le> 1" and h: "h = 0 \<or> h = 1"
    and t: "isr_nesting s = 0 \<Longrightarrow> timer (task s (task_current s)) = None"
    and nd: "state (task s (task_current s)) \<noteq> TASKSTATE_DESTROYED"
  shows "\<exists>r s' Q'. kbind (os_schedule (K_Schedule c) h s) (sched_exit c v) = ok (r, s') \<and> kinv L Q' ts s' \<and>
    sched_frame s s' \<and> calm (isr_nesting s = 0) s (isr_nesting s = 0 \<and> r \<noteq> Switched) s' \<and> (sched_lock s = 0 \<longrightarrow> top_runs Q' s') \<and>
    (sched_lock s \<noteq> 0 \<longrightarrow> s' = s\<lparr>sreg := c\<rparr>)"
proof -
  obtain r s' Q' where s': "kbind (os_schedule (K_Schedule c) h s) (sched_exit c v) = ok (r, s')" "kinv L Q' ts s'"
    "sched_frame s s'" "same_tasks s s'" "\<forall>t. t \<notin> {task_current s, task_current s'} \<longrightarrow> task s' t = task s t"
    "\<forall>t. t \<noteq> task_current s \<longrightarrow> ctx_kont (task s' t) = ctx_kont (task s t)"
    "if r = Switched
     then ctx_kont (task s' (task_current s)) = K_Schedule c \<and> sreg s' = kont_sreg (ctx_kont (task s (task_current s')))
     else ctx_kont (task s' (task_current s)) = ctx_kont (task s (task_current s)) \<and> sreg s' = c"
    "if preempts h s (ready Q) then task_current s' = hd (ready Q) \<and> (r = Switched \<longleftrightarrow> isr_nesting s = 0) \<and>
       ready Q' = prio_insert (\<lambda>t. prio_current (task s t)) (task_current s) (tl (ready Q))
     else r = Return v \<and> s' = s\<lparr>sreg := c\<rparr> \<and> Q' = Q"
    using kinv_schedule_konts [OF inv d, of "K_Schedule c" h c v] by blast
  have "calm (isr_nesting s = 0) s (isr_nesting s = 0 \<and> r \<noteq> Switched) s'"
  proof (cases "preempts h s (ready Q)")
    case False
    then have "r \<noteq> Switched" "s' = s\<lparr>sreg := c\<rparr>" using s'(8) by auto
    then show ?thesis by (simp add: calm_same)
  next
    case True
    then obtain u us where rd: "ready Q = u # us" by (cases "ready Q") (auto simp: preempts_def)
    have cur: "task_current s' = u" "r = Switched \<longleftrightarrow> isr_nesting s = 0" "task_current s \<in> set (ready Q')"
      using s'(8) True rd by (simp_all add: set_prio_insert)
    have q: "task_queue (task s u) = Some ReadyQ" "task_queue (task s' (task_current s)) = Some ReadyQ"
      using kinv_members [OF inv, of u ReadyQ] kinv_members [OF s'(2), of _ ReadyQ] rd cur(3) by simp_all
    have "timer (task s' (task_current s)) = timer (task s (task_current s))" using s'(4) by (simp add: same_tasks_def same_tcb_def)
    then have k: "if isr_nesting s = 0 then plain (task s' (task_current s))
        else ctx_kont (task s' (task_current s)) = ctx_kont (task s (task_current s))"
      using s'(7) cur(2) t by (auto simp: plain_def)
    have "calm (isr_nesting s = 0) s False s'"
      by (rule calm_switch [OF inv s'(2) _ q(2) _ s'(3-6) k nd]) (use q ready_not_current [OF inv rd] cur(1) in auto)
    then show ?thesis using cur(2) by simp
  qed
  moreover have "top_runs Q' s'" if "sched_lock s = 0" by (rule schedule_top [OF inv _ n that s'(4,8)]) (use h in auto)
  moreover have "s' = s\<lparr>sreg := c\<rparr>" if "sched_lock s \<noteq> 0" using s'(8) that by (simp add: preempts_def split: if_splits)
  ultimately show ?thesis using s'(1-3) by blast
qed

end
