(* ===== verification/System.thy ===== *)
theory System
  imports System_State
begin

text \<open>
  The kernel as a whole. A system makes one step at a time: the running task calls a function of
  the kernel, an interrupt hits it (the tick, or a handler that signals a semaphore or a wait
  queue), or, after a context switch, the task that got the CPU continues where it left it. This
  theory holds the steps, the invariant of the system, and the calls of the scheduler, the timers,
  the semaphores and the wait queues, each of which keeps it; \<^verbatim>\<open>System_Objects\<close> has the mutexes and the
  end of tasks, \<^verbatim>\<open>System_Run\<close> the interrupts, the continuations and the reachable states.
\<close>

section \<open>Steps\<close>

text \<open>The functions of the API, with the objects of the application as arguments.\<close>

datatype call =
    TaskCreate tid u8 u16 u16 u16 u16
  | TaskExit int
  | TaskJoin tid
  | Start
  | Yield
  | Lock
  | Unlock bool
  | SemCreate nat u8
  | SemDown nat u16
  | SemUp nat bool
  | SemDestroy nat
  | MtxCreate mtxid
  | MtxLock mtxid
  | MtxUnlock mtxid
  | MtxDestroy mtxid
  | WqCreate wqid
  | WqPrepare wqid
  | WqBreak
  | WqWait u16
  | WqWakeup wqid u8 bool
  | WqDestroy wqid
  | TimerCreate nat nat nat u16 u16
  | TimerDestroy nat

datatype irq = Tick | IrqSemUp nat | IrqWakeup wqid u8

text \<open>The configuration: whether the current task runs (or still has to continue after a switch), the
  queues that exist, whether scheduling has been put off, whether mutexes have been used with
  discipline, and the kernel.\<close>

record sys =
  running :: bool
  live :: "qid set"
  deferred :: bool
  strict :: bool
  kern :: kstate

fun ret_void :: "'a outcome \<Rightarrow> apival outcome" where
  "ret_void (Return _) = Return Void"
| "ret_void Switched = Switched"

fun ret_code :: "os_retcode outcome \<Rightarrow> apival outcome" where
  "ret_code (Return c) = Return (Code c)"
| "ret_code Switched = Switched"

fun run_call :: "call \<Rightarrow> kstate \<Rightarrow> (apival outcome \<times> kstate) kres" where
  "run_call (TaskCreate t prio stack sz proc prm) s = os_task_create t prio stack sz proc prm s"
| "run_call (TaskExit retv) s = kbind (os_task_exit retv s) (\<lambda>(r, s). ok (ret_void r, s))"
| "run_call (TaskJoin t) s = os_task_join t s"
| "run_call Start s = os_start s"
| "run_call Yield s = os_yield s"
| "run_call Lock s = kbind (os_scheduler_lock s) (\<lambda>s. ok (Return Void, s))"
| "run_call (Unlock sync) s = os_scheduler_unlock sync s"
| "run_call (SemCreate n v) s = kbind (os_sem_create (UserSem n) v s) (\<lambda>s. ok (Return Void, s))"
| "run_call (SemDown n timeout) s = kbind (os_sem_down K_SemDown (UserSem n) timeout s) (\<lambda>(r, s). ok (ret_code r, s))"
| "run_call (SemUp n sync) s = os_sem_up_sync (UserSem n) sync s"
| "run_call (SemDestroy n) s = kbind (os_sem_destroy_api K_Schedule (UserSem n) s) (\<lambda>(r, s). ok (ret_void r, s))"
| "run_call (MtxCreate m) s = kbind (os_mtx_create m s) (\<lambda>s. ok (Return Void, s))"
| "run_call (MtxLock m) s = os_mtx_lock m s"
| "run_call (MtxUnlock m) s = os_mtx_unlock m s"
| "run_call (MtxDestroy m) s = os_mtx_destroy m s"
| "run_call (WqCreate w) s = kbind (os_waitqueue_create w s) (\<lambda>s. ok (Return Void, s))"
| "run_call (WqPrepare w) s = kbind (os_waitqueue_prepare w s) (\<lambda>s. ok (Return Void, s))"
| "run_call WqBreak s = os_waitqueue_break s"
| "run_call (WqWait timeout) s = os_waitqueue_wait timeout s"
| "run_call (WqWakeup w cnt sync) s = os_waitqueue_wakeup_sync w cnt sync s"
| "run_call (WqDestroy w) s = os_waitqueue_destroy w s"
| "run_call (TimerCreate n proc prm timeout reload) s =
     kbind (os_timer_create (UserTimer n) (UserTimerProc proc) (UserParam prm) timeout reload s) (\<lambda>s. ok (Return Void, s))"
| "run_call (TimerDestroy n) s = kbind (os_timer_destroy (UserTimer n) s) (\<lambda>s. ok (Return Void, s))"

text \<open>The contract of each call: what its documentation and its assertions ask for. A task must not lock a
  mutex whose owner waits, directly or through other owners, for the task itself; a task record must
  not be reused while it is in use, and a joining task still reads it.\<close>

definition timeout_fits :: "u16 \<Rightarrow> bool" where
  "timeout_fits timeout \<longleftrightarrow> timeout = OS_TIMEOUT_INFINITE \<or> timeout < OS_TIMER_TICKSREM_MAX"

definition may_block :: "kstate \<Rightarrow> bool" where
  "may_block s \<longleftrightarrow> task_current s \<noteq> task_idle \<and> list_is_empty (MtxList (task_current s)) (mxh s)"

definition unused_task :: "tid \<Rightarrow> kstate \<Rightarrow> bool" where
  "unused_task t s \<longleftrightarrow> task_queue (task s t) = None \<and> t \<noteq> task_current s \<and> timer (task s t) = None \<and>
     join_sem (task s t) = None \<and> (\<forall>m. owner (mtx s m) \<noteq> Some t)"

definition no_deadlock :: "mtxid \<Rightarrow> kstate \<Rightarrow> bool" where
  "no_deadlock m s \<longleftrightarrow> (\<forall>t us. owner (mtx s m) = Some t \<and> t \<noteq> task_current s \<and> bchain s (t # us) \<longrightarrow> task_current s \<notin> set us)"

fun contract :: "call \<Rightarrow> qid set \<Rightarrow> kstate \<Rightarrow> bool" where
  "contract (TaskCreate t prio stack sz proc prm) L s \<longleftrightarrow> waitqueue_current s = None \<and> unused_task t s \<and>
     0 < prio \<and> unat prio < OS_CONFIG_PRIOCNT \<and> stack \<noteq> 0 \<and> OS_STACK_MINSIZE \<le> sz"
| "contract (TaskExit retv) L s \<longleftrightarrow> waitqueue_current s = None \<and> task_current s \<noteq> task_idle"
| "contract (TaskJoin t) L s \<longleftrightarrow> waitqueue_current s = None \<and> task_current s \<noteq> task_idle \<and> t \<noteq> task_current s \<and>
     join_sem (task s t) = None \<and> state (task s t) \<noteq> TASKSTATE_INVALID \<and>
     (state (task s t) \<noteq> TASKSTATE_DESTROYED \<longrightarrow> may_block s)"
| "contract Start L s \<longleftrightarrow> waitqueue_current s = None \<and> task_current s = task_idle \<and> arch_is_dint (sreg s)"
| "contract Yield L s \<longleftrightarrow> waitqueue_current s = None \<and> task_current s \<noteq> task_idle"
| "contract Lock L s \<longleftrightarrow> waitqueue_current s = None \<and> sched_lock s \<noteq> 255"
| "contract (Unlock sync) L s \<longleftrightarrow> waitqueue_current s = None \<and> sched_lock s \<noteq> 0"
| "contract (SemCreate n v) L s \<longleftrightarrow> waitqueue_current s = None \<and> SemQ (UserSem n) \<notin> L \<and> v < ARCH_ATOMIC_MAX"
| "contract (SemDown n timeout) L s \<longleftrightarrow> waitqueue_current s = None \<and> SemQ (UserSem n) \<in> L \<and> may_block s \<and> timeout_fits timeout"
| "contract (SemUp n sync) L s \<longleftrightarrow> waitqueue_current s = None \<and> SemQ (UserSem n) \<in> L \<and>
     sem_value (sem s (UserSem n)) < ARCH_ATOMIC_MAX - 1"
| "contract (SemDestroy n) L s \<longleftrightarrow> waitqueue_current s = None \<and> SemQ (UserSem n) \<in> L"
| "contract (MtxCreate m) L s \<longleftrightarrow> waitqueue_current s = None \<and> MtxQ m \<notin> L"
| "contract (MtxLock m) L s \<longleftrightarrow> waitqueue_current s = None \<and> MtxQ m \<in> L \<and> task_current s \<noteq> task_idle \<and> no_deadlock m s"
| "contract (MtxUnlock m) L s \<longleftrightarrow> waitqueue_current s = None \<and> owner (mtx s m) = Some (task_current s)"
| "contract (MtxDestroy m) L s \<longleftrightarrow> waitqueue_current s = None \<and> MtxQ m \<in> L \<and> owner (mtx s m) \<in> {None, Some (task_current s)}"
| "contract (WqCreate w) L s \<longleftrightarrow> waitqueue_current s = None \<and> WaitQ w \<notin> L"
| "contract (WqPrepare w) L s \<longleftrightarrow> waitqueue_current s = None \<and> WaitQ w \<in> L \<and> may_block s \<and> sched_lock s \<noteq> 255"
| "contract WqBreak L s \<longleftrightarrow> sched_lock s \<noteq> 0"
| "contract (WqWait timeout) L s \<longleftrightarrow> sched_lock s \<noteq> 0 \<and> may_block s \<and> OS_TIMEOUT_TRY < timeout \<and> timeout_fits timeout"
| "contract (WqWakeup w cnt sync) L s \<longleftrightarrow> waitqueue_current s = None \<and> WaitQ w \<in> L \<and> 0 < cnt"
| "contract (WqDestroy w) L s \<longleftrightarrow> waitqueue_current s = None \<and> WaitQ w \<in> L"
| "contract (TimerCreate n proc prm timeout reload) L s \<longleftrightarrow> 0 < timeout \<and> timeout < OS_TIMER_TICKSREM_MAX \<and>
     magic (tmr s (UserTimer n)) \<noteq> OS_TIMER_MAGIC1"
| "contract (TimerDestroy n) L s \<longleftrightarrow> magic (tmr s (UserTimer n)) \<in> {OS_TIMER_MAGIC1, OS_TIMER_MAGIC2}"

text \<open>The queues after a call. While a task waits in \<open>os_task_join\<close>, the semaphore on its stack exists.\<close>

fun live_after :: "call \<Rightarrow> kstate \<Rightarrow> qid set \<Rightarrow> qid set" where
  "live_after (SemCreate n v) s L = insert (SemQ (UserSem n)) L"
| "live_after (SemDestroy n) s L = L - {SemQ (UserSem n)}"
| "live_after (MtxCreate m) s L = insert (MtxQ m) L"
| "live_after (MtxDestroy m) s L = L - {MtxQ m}"
| "live_after (WqCreate w) s L = insert (WaitQ w) L"
| "live_after (WqDestroy w) s L = L - {WaitQ w}"
| "live_after (TaskJoin t) s L = (if state (task s t) < TASKSTATE_DESTROYED then insert (SemQ (JoinSem (task_current s))) L else L)"
| "live_after _ s L = L"

definition live_resumed :: "kstate \<Rightarrow> qid set \<Rightarrow> qid set" where
  "live_resumed s L = (case ctx_kont (task s (task_current s)) of
     K_JoinDown _ _ _ \<Rightarrow> L - {SemQ (JoinSem (task_current s))} | _ \<Rightarrow> L)"

text \<open>The calls that put scheduling off: the synchronous ones, and \<open>os_waitqueue_wait\<close> when it returns at
  once. A yield makes up for it.\<close>

fun deferred_after :: "call \<Rightarrow> kstate \<Rightarrow> bool \<Rightarrow> bool" where
  "deferred_after (SemUp n sync) s d \<longleftrightarrow> d \<or> sync"
| "deferred_after (WqWakeup w cnt sync) s d \<longleftrightarrow> d \<or> sync"
| "deferred_after (Unlock sync) s d \<longleftrightarrow> d \<or> sync"
| "deferred_after (WqWait timeout) s d \<longleftrightarrow> d \<or> waitqueue_current s = None"
| "deferred_after Yield s d \<longleftrightarrow> d \<and> sched_lock s \<noteq> 0"
| "deferred_after _ s d \<longleftrightarrow> d"

text \<open>Discipline: no task blocks on a mutex while scheduling is locked or put off (then a ready task may have a
  higher priority than the caller), and no task ends as the owner of a mutex.\<close>

fun strict_after :: "call \<Rightarrow> kstate \<Rightarrow> bool \<Rightarrow> bool \<Rightarrow> bool" where
  "strict_after (MtxLock m) s d z \<longleftrightarrow> z \<and> (sched_lock s = 0 \<and> \<not> d \<or> owner (mtx s m) \<in> {None, Some (task_current s)})"
| "strict_after (TaskExit retv) s d z \<longleftrightarrow> z \<and> list_is_empty (MtxList (task_current s)) (mxh s)"
| "strict_after _ s d z \<longleftrightarrow> z"

text \<open>Interrupts, with the entry and exit code of the port around the body of the handler. The callbacks of the
  application's timers make no kernel call.\<close>

fun run_irq :: "irq \<Rightarrow> kstate \<Rightarrow> (unit outcome \<times> kstate) kres" where
  "run_irq Tick s = tick_isr None no_user s"
| "run_irq (IrqSemUp n) s =
     kbind (os_sem_up (UserSem n) (arch_contextstore_i s)) (\<lambda>(r, s). ok (arch_contextrestore_i s))"
| "run_irq (IrqWakeup w cnt) s = wakeup_isr w cnt s"

fun irq_contract :: "irq \<Rightarrow> qid set \<Rightarrow> kstate \<Rightarrow> bool" where
  "irq_contract Tick L s \<longleftrightarrow> True"
| "irq_contract (IrqSemUp n) L s \<longleftrightarrow> SemQ (UserSem n) \<in> L \<and> sem_value (sem s (UserSem n)) < ARCH_ATOMIC_MAX - 1"
| "irq_contract (IrqWakeup w cnt) L s \<longleftrightarrow> WaitQ w \<in> L \<and> 0 < cnt"

fun deferred_irq :: "irq \<Rightarrow> kstate \<Rightarrow> bool \<Rightarrow> bool" where
  "deferred_irq Tick s d \<longleftrightarrow> d \<and> sched_lock s \<noteq> 0"
| "deferred_irq _ s d \<longleftrightarrow> d"

inductive sys_step :: "sys \<Rightarrow> sys \<Rightarrow> bool" where
  step_call: "\<lbrakk>running c; contract op (live c) (kern c); run_call op (kern c) = ok (r, s')\<rbrakk> \<Longrightarrow>
    sys_step c \<lparr>running = (r \<noteq> Switched), live = live_after op (kern c) (live c),
      deferred = deferred_after op (kern c) (deferred c), strict = strict_after op (kern c) (deferred c) (strict c), kern = s'\<rparr>"
| step_irq: "\<lbrakk>running c; \<not> arch_is_dint (sreg (kern c)); irq_contract i (live c) (kern c);
    run_irq i (kern c) = ok (r, s')\<rbrakk> \<Longrightarrow>
    sys_step c (c\<lparr>running := False, deferred := deferred_irq i (kern c) (deferred c), kern := s'\<rparr>)"
| step_resume: "\<lbrakk>\<not> running c; resume (kern c) = ok (r, s')\<rbrakk> \<Longrightarrow>
    sys_step c (c\<lparr>running := (r \<noteq> Switched), live := live_resumed (kern c) (live c), kern := s'\<rparr>)"

inductive_cases sys_stepE: "sys_step c c'"

definition sys_start :: "sys \<Rightarrow> bool" where
  "sys_start c \<longleftrightarrow> c = \<lparr>running = True, live = {ReadyQ}, deferred = False, strict = True, kern = os_init boot\<rparr>"

section \<open>The invariant\<close>

text \<open>A prepared wait locks the scheduler, so the task that prepared it is the current one, at most interrupted.\<close>

definition still_there :: "bool \<Rightarrow> kstate \<Rightarrow> bool" where
  "still_there run s \<longleftrightarrow> run \<or> (\<exists>r. ctx_kont (task s (task_current s)) = K_Isr r)"

lemma still_there_run [simp]: "still_there True s"
  by (simp add: still_there_def)

definition sys_ok :: "bool \<Rightarrow> bool \<Rightarrow> bool \<Rightarrow> qid set \<Rightarrow> kstate \<Rightarrow> bool" where
  "sys_ok z run def L s \<longleftrightarrow>
     (\<exists>Q ts. kinv L Q ts s \<and> (sched_lock s = 0 \<and> \<not> def \<longrightarrow> top_runs Q s)) \<and> world_ok z run L s \<and> isr_nesting s = 0 \<and>
     (\<forall>w. waitqueue_current s = Some w \<longrightarrow> WaitQ w \<in> L \<and> sched_lock s \<noteq> 0 \<and> still_there run s)"

definition sys_inv :: "sys \<Rightarrow> bool" where
  "sys_inv c \<longleftrightarrow> sys_ok (strict c) (running c) (deferred c) (live c) (kern c)"

lemma sys_okI:
  assumes "kinv L Q ts s" "sched_lock s = 0 \<Longrightarrow> \<not> d \<Longrightarrow> top_runs Q s" "world_ok z run L s" "isr_nesting s = 0"
    "\<And>w. waitqueue_current s = Some w \<Longrightarrow> WaitQ w \<in> L \<and> sched_lock s \<noteq> 0 \<and> still_there run s"
  shows "sys_ok z run d L s"
  using assms unfolding sys_ok_def by blast

lemma sys_okE:
  assumes "sys_ok z run d L s"
  obtains Q ts where "kinv L Q ts s" "sched_lock s = 0 \<and> \<not> d \<longrightarrow> top_runs Q s" "world_ok z run L s" "isr_nesting s = 0"
    "\<forall>w. waitqueue_current s = Some w \<longrightarrow> WaitQ w \<in> L \<and> sched_lock s \<noteq> 0 \<and> still_there run s"
  using assms unfolding sys_ok_def by blast

text \<open>All parts of the invariant, for the calls that change tasks and mutexes.\<close>

lemma sys_worldE:
  assumes "sys_ok z run d L s"
  obtains Q ts T M where "kinv L Q ts s" "sched_lock s = 0 \<and> \<not> d \<longrightarrow> top_runs Q s" "world_ok z run L s" "isr_nesting s = 0"
    "tasks_ok run L s" "minv L T M s" "\<And>t. alive s t \<Longrightarrow> t \<in> T" "\<And>t. chain_ends s t" "prio_justified s" "z \<Longrightarrow> prio_exact s"
    "task_queue (task s (task_current s)) = None" "\<And>t. task_ok (task s t)" "sems_ok s"
proof -
  obtain Q ts where inv: "kinv L Q ts s" "sched_lock s = 0 \<and> \<not> d \<longrightarrow> top_runs Q s" "world_ok z run L s" "isr_nesting s = 0"
    using assms by (elim sys_okE) blast
  have w: "tasks_ok run L s" "mutex_ok z L s" "sems_ok s" using inv(3) by (simp_all add: world_ok_def)
  obtain T M where m: "minv L T M s" "\<And>t. alive s t \<Longrightarrow> t \<in> T" "\<And>t. chain_ends s t" "prio_justified s" "z \<Longrightarrow> prio_exact s"
    using w(2) by (rule mutex_okE) blast
  show ?thesis by (rule that [OF inv w(1) m sched_invD(4,3) [OF kinvD(1) [OF inv(1)]] w(3)])
qed

lemma world_cur:
  assumes "world_ok z run L s"
  shows "run \<Longrightarrow> timer (task s (task_current s)) = None" and "state (task s (task_current s)) \<noteq> TASKSTATE_DESTROYED"
  using assms tasks_okD(2,3) unfolding world_ok_def by blast+

text \<open>The end of a call from a task.\<close>

lemma call_tail:
  assumes inv: "kinv L Q ts s" and d: "arch_is_dint (sreg s)" and n: "isr_nesting s = 0" and h: "h = 0 \<or> h = 1"
    and w: "world_ok z True L s" and wq: "waitqueue_current s = None" and k: "owners_kept s0 s"
  shows "\<exists>r s'. kbind (os_schedule (K_Schedule c) h s) (sched_exit c v) = ok (r, s') \<and> sys_ok z (r \<noteq> Switched) e L s' \<and>
    owners_kept s0 s'"
proof -
  obtain r s' Q' where s': "kbind (os_schedule (K_Schedule c) h s) (sched_exit c v) = ok (r, s')" "kinv L Q' ts s'" "sched_frame s s'"
    "calm True s (r \<noteq> Switched) s'" "sched_lock s = 0 \<longrightarrow> top_runs Q' s'"
    using schedule_tail [OF inv d _ h world_cur(1) [OF w] world_cur(2) [OF w], of c v] n by auto
  have "sys_ok z (r \<noteq> Switched) e L s'"
    by (rule sys_okI [OF s'(2) _ calm_keeps [OF w s'(4) inv]]) (use s'(3,5) n wq in \<open>auto simp: sched_frame_iff\<close>)
  moreover have "owners_kept s0 s'" by (rule owners_kept_then [OF k]) (use s'(3) in \<open>simp add: sched_frame_iff\<close>)
  ultimately show ?thesis using s'(1) by blast
qed

text \<open>The end of a call that leaves the ready queue alone.\<close>

lemma sys_ok_calm:
  assumes inv: "kinv L Q ts s" and w: "world_ok z True L s" and top: "sched_lock s = 0 \<and> \<not> d \<longrightarrow> top_runs Q s"
    and inv': "kinv L' Q ts' s'" and L: "\<And>q. own_q q \<Longrightarrow> q \<in> L' \<longleftrightarrow> q \<in> L"
    and e: "task s' = task s" "task_current s' = task_current s" "mxh s' = mxh s" "mtx s' = mtx s"
      "\<And>c. sem s' (JoinSem c) = sem s (JoinSem c)" "isr_nesting s' = 0" "sched_lock s' = sched_lock s"
    and wq: "\<And>x. waitqueue_current s' = Some x \<Longrightarrow> WaitQ x \<in> L' \<and> sched_lock s' \<noteq> 0"
    and sm: "\<And>t m. task_queue (task s t) = Some (SemQ m) \<Longrightarrow> sem_value (sem s' m) \<in> {0, sem_value (sem s m)}"
  shows "sys_ok z True d L' s'"
proof -
  have w': "world_ok z True L' s'" by (rule calm_keeps [OF w calm_same [OF e(1,2,5,3,4) sm] inv L])
  show ?thesis by (rule sys_okI [OF inv' _ w' e(6)]) (use top e(1,2,7) wq in \<open>auto simp: top_runs_def\<close>)
qed

section \<open>Calls of the scheduler\<close>

abbreviation call_ok :: "bool \<Rightarrow> call \<Rightarrow> bool \<Rightarrow> qid set \<Rightarrow> kstate \<Rightarrow> bool" where
  "call_ok z op d L s \<equiv> \<exists>r s'. run_call op s = ok (r, s') \<and>
     sys_ok (strict_after op s d z) (r \<noteq> Switched) (deferred_after op s d) (live_after op s L) s' \<and> owners_kept s s'"

text \<open>The invariant with interrupts disabled, where the calls do their work.\<close>

lemma entered:
  assumes "kinv L Q ts s" and "world_ok z run L s"
  shows "kinv L Q ts (s\<lparr>sreg := r\<rparr>)" and "world_ok z run L (s\<lparr>sreg := r\<rparr>)"
  using kinv_dint [OF assms(1)] calm_keeps [OF assms(2) calm_same assms(1), of "s\<lparr>sreg := r\<rparr>" L] by simp_all

lemma lock_no_wrap: "l \<noteq> 255 \<Longrightarrow> l + 1 \<noteq> (0 :: u8)"
proof -
  have "(255 :: u8) = - 1" by simp
  then show "l \<noteq> 255 \<Longrightarrow> l + 1 \<noteq> (0 :: u8)" by (metis eq_neg_iff_add_eq_0)
qed

text \<open>A new task.\<close>

lemma create_tasks:
  assumes ok: "tasks_ok True L s" and t: "unused_task t s"
    and tk: "task s' = (task s)(t := k)" "join_sem k = None" "plain k" "task_queue k = Some ReadyQ"
    and f: "task_current s' = task_current s" "sem s' = sem s"
  shows "tasks_ok True L s'"
proof -
  note j = joins_okD [OF tasks_okD(4) [OF ok]]
  have t': "task_queue (task s t) = None" "t \<noteq> task_current s" "join_sem (task s t) = None" using t by (simp_all add: unused_task_def)
  have sus: "suspended True s' c \<longleftrightarrow> c = t \<or> suspended True s c" for c using tk(4) by (auto simp: suspended_def tk(1))
  have nt: "c \<noteq> t" if "suspended True s c" for c using that t' by (auto simp: suspended_def)
  have "kont_ok L s' c" if "suspended True s' c" for c
  proof (cases "c = t")
    case True
    then show ?thesis using tk(3) by (intro plain_kont_ok) (simp add: tk(1))
  next
    case False
    then have c: "suspended True s c" "task s' c = task s c" using that sus by (auto simp: tk(1))
    show ?thesis
      by (rule kont_ok_keeps [OF tasks_okD(1) [OF ok c(1)]]) (use t'(3) False in \<open>auto simp: f(2) tk(1)\<close>)
  qed
  moreover have "joins_ok True L s'"
  proof (rule joins_okI)
    fix u m assume "join_sem (task s' u) = Some m"
    then have "join_sem (task s u) = Some m" using tk(2) by (auto simp: tk(1) split: if_splits)
    then obtain c where "m = JoinSem c" "suspended True s c" "joins (ctx_kont (task s c)) = Some u" using j(1) by blast
    then show "\<exists>c. m = JoinSem c \<and> suspended True s' c \<and> joins (ctx_kont (task s' c)) = Some u" using sus nt by (auto simp: tk(1))
  next
    fix c assume "join_q c \<in> L"
    then have "suspended True s c" "\<exists>r r' t. ctx_kont (task s c) = K_JoinDown r r' t" by (fact j(2,3))+
    then show "suspended True s' c" "\<exists>r r' t. ctx_kont (task s' c) = K_JoinDown r r' t" using sus nt by (auto simp: tk(1))
  next
    fix u c assume "task_queue (task s' u) = Some (join_q c)"
    then show "u = c" using j(4) tk(4) by (auto simp: tk(1) split: if_splits)
  qed
  ultimately show ?thesis using tasks_okD(2,3) [OF ok] t'(2) by (simp add: tasks_ok_def f tk(1))
qed

lemma create_justified:
  assumes pj: "prio_justified s" and t: "task_queue (task s t) = None"
    and tk: "task s' = (task s)(t := k)" "prio_current k = prio_base k" "task_queue k = Some ReadyQ" and f: "mtx s' = mtx s"
  shows "prio_justified s'"
  unfolding prio_justified_def
proof
  fix u
  show "prio_current (task s' u) \<le> prio_base (task s' u) \<or> (\<exists>m v. owner (mtx s' m) = Some u \<and>
      task_queue (task s' v) = Some (MtxQ m) \<and> prio_current (task s' u) \<le> prio_current (task s' v))"
  proof (cases "u = t")
    case False
    consider "prio_current (task s u) \<le> prio_base (task s u)" | m v where "owner (mtx s m) = Some u"
      "task_queue (task s v) = Some (MtxQ m)" "prio_current (task s u) \<le> prio_current (task s v)"
      using pj unfolding prio_justified_def by blast
    then show ?thesis
    proof cases
      case 1
      then show ?thesis using False by (simp add: tk(1))
    next
      case 2
      moreover from this have "v \<noteq> t" using t by auto
      ultimately show ?thesis using False unfolding f by (intro disjI2 exI [of _ m] exI [of _ v]) (simp add: tk(1))
    qed
  qed (simp add: tk)
qed

lemma create_owns:
  assumes mo: "mown L T M s" and t: "\<And>m. owner (mtx s m) \<noteq> Some t"
    and f: "mtx s' = mtx s" "mxh s' = list_init (MtxList t) (mxh s)"
  shows "mown L (insert t T) M s'"
proof -
  have Mt: "M t = []" using mownD(3) [OF mo] t by (cases "M t") auto
  have "dlist (mxh s') (MtxList u) (map MtxLink (M u))" if "u \<in> insert t T" for u
  proof (cases "u = t")
    case True
    then show ?thesis by (simp add: f(2) Mt dlist_Nil list_init_def set_next_def set_prev_def)
  next
    case False
    have "same_links (mxh s) (mxh s') n" if "n \<in> set (MtxList u # map MtxLink (M u))" for n
      using that False by (auto simp: f(2) same_links_def list_init_def set_next_def set_prev_def)
    then show ?thesis using mownD(1) [OF mo, of u] False \<open>u \<in> insert t T\<close> dlist_cong [of "MtxList u" "map MtxLink (M u)" "mxh s"] by blast
  qed
  then show ?thesis using mo unfolding mown_def by (simp add: f(1))
qed

lemma create_mutexes:
  assumes ok: "mutex_ok z L s" and t: "unused_task t s"
    and tk: "task s' = (task s)(t := k)" "prio_current k = prio_base k" "task_queue k = Some ReadyQ"
    and f: "task_current s' = task_current s" "mtx s' = mtx s" "mxh s' = list_init (MtxList t) (mxh s)"
  shows "mutex_ok z L s'"
proof -
  obtain T M where m: "minv L T M s" "\<And>t. alive s t \<Longrightarrow> t \<in> T" "\<And>t. chain_ends s t" "prio_justified s" "z \<Longrightarrow> prio_exact s"
    using ok by (rule mutex_okE) blast
  have t': "task_queue (task s t) = None" "\<And>m. owner (mtx s m) \<noteq> Some t" using t by (simp_all add: unused_task_def)
  have "mown L (insert t T) M s'" by (rule create_owns [OF minvD(1) [OF m(1)] t'(2) f(2,3)])
  moreover have q: "task_queue (task s' u) = Some (MtxQ k) \<longleftrightarrow> task_queue (task s u) = Some (MtxQ k)" for u k
    using t'(1) tk(3) by (simp add: tk(1))
  then have "\<forall>u k. task_queue (task s' u) = Some (MtxQ k) \<longrightarrow> owner (mtx s' k) \<noteq> None \<and> timer (task s' u) = None \<and> u \<in> insert t T"
    using minvD(2) [OF m(1)] t'(1) by (auto simp: f(2) tk(1))
  ultimately have "minv L (insert t T) M s'" unfolding minv_def by blast
  moreover have "chain_ends s' u" for u by (rule chain_ends_mono [OF m(3)]) (simp add: q f(2))
  moreover have "prio_justified s'" by (rule create_justified [OF m(4) t'(1) tk f(2)])
  moreover have "u \<in> insert t T" if "alive s' u" for u using that m(2) [of u] by (auto simp: suspended_def tk(1) f(1) split: if_splits)
  moreover have "prio_exact s'" if z
  proof -
    have "prio_inherited s'" using m(5) [OF that] t' tk(3) unfolding prio_exact_def prio_inherited_def by (auto simp: q f(2) tk(1))
    moreover have "owners_run s'"
      using m(5) [OF that] t'(2) unfolding prio_exact_def owners_run_def active_def by (auto simp: q f(1,2) tk(1))
    ultimately show ?thesis using m(5) [OF that] by (simp add: prio_exact_def tk(1,2))
  qed
  ultimately show ?thesis by (intro mutex_okI) blast+
qed

lemma create_run:
  assumes inv: "kinv L Q ts s" and n: "isr_nesting s = 0" and g: "contract (TaskCreate t prio stack sz proc prm) L s"
  shows "\<exists>s2 Q2. os_task_create t prio stack sz proc prm s =
      kbind (os_schedule (K_Schedule (sreg s)) 1 s2) (sched_exit (sreg s) Void) \<and> kinv L Q2 ts s2 \<and>
    ready Q2 = prio_insert (\<lambda>x. prio_current (task s2 x)) t (ready Q) \<and>
    task s2 = (task s)(t := zero_task\<lparr>prio_base := prio, prio_current := prio, state := TASKSTATE_READY, stack_size := sz,
      stack_end := stack, ctx_sp := stack + sz - 36, ctx_kont := K_Start proc prm, task_queue := Some ReadyQ\<rparr>) \<and>
    sreg s2 = arch_dint (sreg s) \<and> isr_nesting s2 = 0 \<and> sched_lock s2 = sched_lock s \<and> waitqueue_current s2 = None \<and>
    task_current s2 = task_current s \<and> sem s2 = sem s \<and> mtx s2 = mtx s \<and> mxh s2 = list_init (MtxList t) (mxh s)"
proof -
  let ?s1 = "(created t prio stack sz proc prm s)\<lparr>sreg := arch_dint (sreg s)\<rparr>"
  let ?s2 = "os_taskqueue_enqueue ReadyQ t ?s1"
  have t: "task_queue (task s t) = None" "t \<noteq> task_current s" "unat prio < OS_CONFIG_PRIOCNT" "timer (task s t) = None"
    using g by (auto simp: unused_task_def)
  note e = create_enqueued [OF kinvD(1) [OF inv] t(1-3) refl, of stack sz proc prm]
  have f: "sreg ?s2 = arch_dint (sreg s)" "isr_nesting ?s2 = 0" "waitqueue_current ?s2 = None" "task_current ?s2 = task_current s"
    "tmh ?s2 = tmh s" "tmr ?s2 = tmr s" "timer_tick_unsynch ?s2 = timer_tick_unsynch s" "sem ?s2 = sem s" "mtx ?s2 = mtx s"
    "mxh ?s2 = list_init (MtxList t) (mxh s)" "sched_lock ?s2 = sched_lock s"
    using e(3) n g by (simp_all add: tq_frame_iff created_frame)
  have "state (task s t) \<noteq> TASKSTATE_WAIT" using t(1) kinvD(3) [OF inv] by (auto simp: floating_def)
  then have "block_inv {} ts ?s2"
    by (intro block_inv_cong [OF kinvD(2) [OF inv] f(5-7)])
      (use block_invD(4) [OF kinvD(2) [OF inv]] t(4) in \<open>auto simp: e(4) zero_task_def\<close>)
  then have "kinv L (bucket_upd ReadyQ (unat prio) (\<lambda>ts. ts @ [t]) Q) ts ?s2"
    using e(1,5) kinvD(3) [OF inv] by (simp add: kinv_def)
  moreover have "os_task_create t prio stack sz proc prm s = kbind (os_schedule (K_Schedule (sreg s)) 1 ?s2) (sched_exit (sreg s) Void)"
    using g n by (simp add: os_task_create_def created_def created_frame [unfolded created_def])
  ultimately show ?thesis using e(2,4) f
    by (intro exI [of _ ?s2] exI [of _ "bucket_upd ReadyQ (unat prio) (\<lambda>ts. ts @ [t]) Q"]) simp
qed

lemma create_call_ok:
  assumes ok: "sys_ok z True d L s" and g: "contract (TaskCreate t prio stack sz proc prm) L s"
  shows "call_ok z (TaskCreate t prio stack sz proc prm) d L s"
proof -
  obtain Q ts where inv: "kinv L Q ts s" and w: "world_ok z True L s" and n: "isr_nesting s = 0"
    using ok by (elim sys_okE) blast
  have u: "unused_task t s" using g by simp
  obtain s2 Q2 where s2: "os_task_create t prio stack sz proc prm s =
      kbind (os_schedule (K_Schedule (sreg s)) 1 s2) (sched_exit (sreg s) Void)" "kinv L Q2 ts s2"
    "task s2 = (task s)(t := zero_task\<lparr>prio_base := prio, prio_current := prio, state := TASKSTATE_READY, stack_size := sz,
      stack_end := stack, ctx_sp := stack + sz - 36, ctx_kont := K_Start proc prm, task_queue := Some ReadyQ\<rparr>)"
    "sreg s2 = arch_dint (sreg s)" "isr_nesting s2 = 0" "waitqueue_current s2 = None"
    "task_current s2 = task_current s" "sem s2 = sem s" "mtx s2 = mtx s" "mxh s2 = list_init (MtxList t) (mxh s)"
    using create_run [OF inv n g] by blast
  have w2: "world_ok z True L s2"
    using w create_tasks [OF _ u s2(3) _ _ _ s2(7,8), of L] create_mutexes [OF _ u s2(3) _ _ s2(7,9,10), of z L]
      sem_still_keeps [of s s2]
    by (simp add: world_ok_def zero_task_def plain_def sem_still_def s2(3,8))
  have dint: "arch_is_dint (sreg s2)" by (simp add: s2(4))
  show ?thesis using call_tail [OF s2(2) dint s2(5) disjI2 [OF refl] w2 s2(6), of s "sreg s" Void d] s2(1,9) by simp
qed

lemma sched_call_ok:
  assumes ok: "sys_ok z True d L s"
  shows "contract Yield L s \<Longrightarrow> call_ok z Yield d L s" and "contract Lock L s \<Longrightarrow> call_ok z Lock d L s"
    and "contract Start L s \<Longrightarrow> call_ok z Start d L s"
proof -
  obtain Q ts where inv: "kinv L Q ts s" and top: "sched_lock s = 0 \<and> \<not> d \<longrightarrow> top_runs Q s"
    and w: "world_ok z True L s" and n: "isr_nesting s = 0"
    using ok by (elim sys_okE) blast
  show "call_ok z Yield d L s" if g: "contract Yield L s"
  proof -
    let ?s = "s\<lparr>sreg := arch_dint (sreg s)\<rparr>"
    note en = entered [OF inv w, of "arch_dint (sreg s)"]
    obtain r s' Q' where s': "kbind (os_schedule (K_Schedule (sreg s)) 0 ?s) (sched_exit (sreg s) Void) = ok (r, s')"
      "kinv L Q' ts s'" "sched_frame ?s s'" "calm True ?s (r \<noteq> Switched) s'" "sched_lock s = 0 \<longrightarrow> top_runs Q' s'"
      using schedule_tail [OF en(1) _ _ _ world_cur(1) [OF en(2)] world_cur(2) [OF en(2)], of 0 "sreg s" Void] n
      by (auto simp: is_dint_dint)
    have "sys_ok z (r \<noteq> Switched) (d \<and> sched_lock s \<noteq> 0) L s'"
      by (rule sys_okI [OF s'(2) _ calm_keeps [OF en(2) s'(4) en(1)]]) (use s'(3,5) n g in \<open>auto simp: sched_frame_iff\<close>)
    moreover have "os_yield s = ok (r, s')" using g n s'(1) by (simp add: os_yield_def)
    moreover have "mtx s' = mtx s" using s'(3) by (simp add: sched_frame_iff)
    ultimately show ?thesis by simp
  qed
  show "call_ok z Lock d L s" if g: "contract Lock L s"
  proof -
    let ?s = "s\<lparr>sched_lock := sched_lock s + 1\<rparr>"
    have "os_scheduler_lock s = ok ?s"
      using g n by (cases s) (simp add: os_scheduler_lock_def os_atomic_inc_def os_atomic_inc_load_def
        arch_critical_enter_def arch_critical_exit_def Let_def)
    moreover have "kinv L Q ts ?s" by (rule kinv_same [OF inv]) simp_all
    then have "sys_ok z True d L ?s"
      by (rule sys_okI [OF _ _ calm_keeps [OF w calm_same inv]]) (use g n in \<open>simp_all add: lock_no_wrap\<close>)
    ultimately show ?thesis by simp
  qed
  show "call_ok z Start d L s" if g: "contract Start L s"
  proof -
    let ?s = "s\<lparr>sched_lock := 0, sreg := arch_dint (arch_eint (sreg s))\<rparr>"
    have "kinv L Q ts ?s" by (rule kinv_same [OF inv]) simp_all
    moreover have "world_ok z True L ?s" by (rule calm_keeps [OF w calm_same inv]) simp_all
    ultimately show ?thesis
      using call_tail [of L Q ts ?s 0 z s "arch_eint (sreg s)" Void d] g n
      by (simp add: os_start_def is_dint_dint)
  qed
qed

lemma scheduler_unlock_run:
  assumes "isr_nesting s = 0" and "waitqueue_current s = None"
  shows "os_scheduler_unlock sync s = (if \<not> sync \<and> sched_lock s - 1 = 0
    then kbind (os_schedule (K_Schedule (sreg s)) 1 (s\<lparr>sched_lock := 0, sreg := arch_dint (sreg s)\<rparr>)) (sched_exit (sreg s) Void)
    else ok (Return Void, s\<lparr>sched_lock := sched_lock s - 1\<rparr>))"
  using assms by (cases s) (simp add: os_scheduler_unlock_def os_atomic_dec_load_def arch_critical_enter_def
      arch_critical_exit_def Let_def)

lemma unlock_ok:
  assumes inv: "kinv L Q ts s" and w: "world_ok z True L s" and n: "isr_nesting s = 0" and wq: "waitqueue_current s = None"
  shows "\<exists>r s'. os_scheduler_unlock sync s = ok (r, s') \<and> sys_ok z (r \<noteq> Switched) (d \<or> sync) L s' \<and> owners_kept s s'"
proof (cases "\<not> sync \<and> sched_lock s - 1 = 0")
  case True
  let ?s = "s\<lparr>sched_lock := 0, sreg := arch_dint (sreg s)\<rparr>"
  have "kinv L Q ts ?s" by (rule kinv_same [OF inv]) simp_all
  moreover have "world_ok z True L ?s" by (rule calm_keeps [OF w calm_same inv]) simp_all
  ultimately show ?thesis unfolding scheduler_unlock_run [OF n wq] if_P [OF True]
    using n wq by (intro call_tail) simp_all
next
  case False
  let ?s = "s\<lparr>sched_lock := sched_lock s - 1\<rparr>"
  have "kinv L Q ts ?s" by (rule kinv_same [OF inv]) simp_all
  then have "sys_ok z True (d \<or> sync) L ?s"
    by (rule sys_okI [OF _ _ calm_keeps [OF w calm_same inv]]) (use False n wq in auto)
  then show ?thesis unfolding scheduler_unlock_run [OF n wq] if_not_P [OF False] by simp
qed

lemma unlock_call_ok:
  assumes ok: "sys_ok z True d L s"
  shows "contract (Unlock sync) L s \<Longrightarrow> call_ok z (Unlock sync) d L s" and "contract WqBreak L s \<Longrightarrow> call_ok z WqBreak d L s"
proof -
  obtain Q ts where inv: "kinv L Q ts s" and w: "world_ok z True L s" and n: "isr_nesting s = 0"
    using ok by (elim sys_okE) blast
  show "call_ok z (Unlock sync) d L s" if "contract (Unlock sync) L s"
    using unlock_ok [OF inv w n, of sync d] that by simp
  let ?s = "s\<lparr>waitqueue_current := None\<rparr>"
  have "kinv L Q ts ?s" by (rule kinv_same [OF inv]) simp_all
  moreover have "world_ok z True L ?s" by (rule calm_keeps [OF w calm_same inv]) simp_all
  ultimately have "\<exists>r s'. os_scheduler_unlock False ?s = ok (r, s') \<and> sys_ok z (r \<noteq> Switched) (d \<or> False) L s' \<and> owners_kept ?s s'"
    by (rule unlock_ok) (use n in simp_all)
  moreover have "os_waitqueue_break s = os_scheduler_unlock False ?s"
    using n by (cases s) (simp add: os_waitqueue_break_def os_atomic_store_def arch_critical_enter_def arch_critical_exit_def)
  ultimately show "call_ok z WqBreak d L s" if "contract WqBreak L s" by (simp add: owners_kept_def)
qed

section \<open>Calls that block\<close>

lemma may_block_owns:
  assumes w: "world_ok z True L s" and e: "list_is_empty (MtxList (task_current s)) (mxh s)"
  shows "owner (mtx s m) \<noteq> Some (task_current s)"
proof -
  obtain T M where m: "minv L T M s" "\<And>t. alive s t \<Longrightarrow> t \<in> T" using w by (auto simp: world_ok_def elim: mutex_okE)
  have "task_current s \<in> T" by (rule m(2)) (simp add: suspended_def)
  then have "M (task_current s) = []" using mownD(1) [OF minvD(1) [OF m(1)]] e dlist_is_empty by fastforce
  then show ?thesis using mownD(3) [OF minvD(1) [OF m(1)], of m "task_current s"] by simp
qed

lemma owns_nothing:
  assumes w: "world_ok z True L s" and o: "\<And>m. owner (mtx s m) \<noteq> Some (task_current s)"
  shows "list_is_empty (MtxList (task_current s)) (mxh s)"
proof -
  obtain T M where m: "minv L T M s" "\<And>t. alive s t \<Longrightarrow> t \<in> T" using w by (auto simp: world_ok_def elim: mutex_okE)
  have "task_current s \<in> T" by (rule m(2)) (simp add: suspended_def)
  then have "dlist (mxh s) (MtxList (task_current s)) (map MtxLink (M (task_current s)))" by (rule mownD(1) [OF minvD(1) [OF m(1)]])
  moreover have "M (task_current s) = []" using mownD(3) [OF minvD(1) [OF m(1)], of _ "task_current s"] o by (cases "M (task_current s)") auto
  ultimately show ?thesis by (simp add: dlist_is_empty)
qed

lemma blocked_ok:
  assumes inv: "kinv L Q ts s" and w: "world_ok z True L s" and c: "task_current s \<noteq> task_idle"
    and inv': "kinv L Q' ts' s'" and s': "task_current s' = hd (ready Q)" "ready Q' = tl (ready Q)"
      "isr_nesting s' = 0" "waitqueue_current s' = None"
      "\<exists>g. task s' = (task s)(hd (ready Q) := (task s (hd (ready Q)))\<lparr>task_queue := None\<rparr>,
         task_current s := (task s (task_current s))\<lparr>timer := g, state := TASKSTATE_WAIT, block_type := bt,
           task_queue := Some q, ctx_kont := x\<rparr>)"
    and x: "x = K_SemDown v \<or> x = K_WaitqueueWait v" and q: "\<not> own_q q" and e: "list_is_empty (MtxList (task_current s)) (mxh s)"
    and f: "sem s' = sem s" "mxh s' = mxh s" "mtx s' = mtx s" and v: "\<And>m. q = SemQ m \<Longrightarrow> sem_value (sem s m) = 0"
  shows "sys_ok z False d L s'"
proof -
  obtain t us where rd: "ready Q = t # us" using ready_nonempty(2) [OF kinvD(1) [OF inv] c] by blast
  obtain g where tk: "task s' = (task s)(t := (task s t)\<lparr>task_queue := None\<rparr>,
      task_current s := (task s (task_current s))\<lparr>timer := g, state := TASKSTATE_WAIT, block_type := bt,
        task_queue := Some q, ctx_kont := x\<rparr>)" using s'(5) rd by auto
  have "calm True s False s'" by (rule calm_blocked [OF inv rd world_cur(2) [OF w] tk q x _ f may_block_owns [OF w e] v]) (simp_all add: s'(1) rd)
  then have "world_ok z False L s'" by (rule calm_keeps [OF w _ inv]) simp
  moreover have "prio_current (task s' u) = prio_current (task s u)" for u by (simp add: tk)
  then have "top_runs Q' s'"
    using ready_le_head [OF sched_invD(1) [OF kinvD(1) [OF inv]] rd] rd s'(1,2) by (simp add: top_runs_def)
  ultimately show ?thesis using s'(3,4) by (intro sys_okI [OF inv']) auto
qed

lemma down_call_ok:
  assumes ok: "sys_ok z True d L s" and g: "contract (SemDown n timeout) L s"
  shows "call_ok z (SemDown n timeout) d L s"
proof -
  obtain Q ts where inv: "kinv L Q ts s" and top: "sched_lock s = 0 \<and> \<not> d \<longrightarrow> top_runs Q s"
    and w: "world_ok z True L s" and n: "isr_nesting s = 0"
    using ok by (elim sys_okE) blast
  let ?m = "UserSem n"
  have c: "task_current s \<noteq> task_idle" "waitqueue_current s = None" "list_is_empty (MtxList (task_current s)) (mxh s)"
    "SemQ ?m \<in> L" "timeout \<noteq> OS_TIMEOUT_INFINITE \<Longrightarrow> timeout < OS_TIMER_TICKSREM_MAX"
    using g by (auto simp: may_block_def timeout_fits_def)
  consider (token) "sem_value (sem s ?m) > 0" | (nowait) "sem_value (sem s ?m) = 0" "timeout = OS_TIMEOUT_TRY"
    | (block) "sem_value (sem s ?m) = 0" "timeout \<noteq> OS_TIMEOUT_TRY" by (auto simp: word_gt_0)
  then show ?thesis
  proof cases
    case token
    let ?s = "s\<lparr>sem := (sem s)(?m := \<lparr>sem_value = sem_value (sem s ?m) - 1\<rparr>)\<rparr>"
    have run: "os_sem_down K_SemDown ?m timeout s = ok (Return OS_OK, ?s)"
      using token n c by (cases s) (simp add: os_sem_down_def)
    have "kinv L Q ts ?s" by (rule kinv_same [OF inv]) simp_all
    moreover have "task_queue (task s t) \<noteq> Some (SemQ ?m)" for t using w token by (auto simp: world_ok_def sems_ok_def)
    ultimately have "sys_ok z True d L ?s" by (intro sys_ok_calm [OF inv w top]) (use n c(2) in auto)
    then show ?thesis using run by simp
  next
    case nowait
    then have "os_sem_down K_SemDown ?m timeout s = ok (Return OS_WOULDBLOCK, s)"
      using n c by (cases s) (simp add: os_sem_down_def)
    then show ?thesis using ok by simp
  next
    case block
    obtain s' Q' ts' where s': "os_sem_down K_SemDown ?m timeout s = ok (Switched, s')" "kinv L Q' ts' s'" "core_frame s s'"
      "task_current s' = hd (ready Q)" "ready Q' = tl (ready Q)"
      "\<exists>g. task s' = (task s)(hd (ready Q) := (task s (hd (ready Q)))\<lparr>task_queue := None\<rparr>,
         task_current s := (task s (task_current s))\<lparr>timer := g, state := TASKSTATE_WAIT, block_type := OS_TASKBLOCK_SEM,
           task_queue := Some (SemQ ?m), ctx_kont := K_SemDown (sreg s)\<rparr>)"
      using sem_down_blocks [OF inv c(4) world_cur(1) [OF w] n c(1-3) block c(5), of K_SemDown] by blast
    have "sys_ok z False d L s'"
      by (rule blocked_ok [OF inv w c(1) s'(2,4,5) _ _ s'(6) _ _ c(3)]) (use s'(3) n c(2) block in \<open>auto simp: core_frame_def\<close>)
    moreover have "mtx s' = mtx s" using s'(3) by (simp add: core_frame_def)
    ultimately show ?thesis using s'(1) by simp
  qed
qed

lemma wait_call_ok:
  assumes ok: "sys_ok z True d L s" and g: "contract (WqWait timeout) L s"
  shows "call_ok z (WqWait timeout) d L s"
proof -
  obtain Q ts where inv: "kinv L Q ts s" and w: "world_ok z True L s" and n: "isr_nesting s = 0"
    and wq: "\<forall>w. waitqueue_current s = Some w \<longrightarrow> WaitQ w \<in> L \<and> sched_lock s \<noteq> 0"
    using ok by (elim sys_okE) blast
  have c: "task_current s \<noteq> task_idle" "list_is_empty (MtxList (task_current s)) (mxh s)" "OS_TIMEOUT_TRY < timeout"
    "timeout \<noteq> OS_TIMEOUT_INFINITE \<Longrightarrow> timeout < OS_TIMER_TICKSREM_MAX"
    using g by (auto simp: may_block_def timeout_fits_def)
  show ?thesis
  proof (cases "waitqueue_current s")
    case None
    let ?s = "s\<lparr>sched_lock := sched_lock s - 1\<rparr>"
    have "kinv L Q ts ?s" by (rule kinv_same [OF inv]) simp_all
    then have "sys_ok z True True L ?s"
      by (rule sys_okI [OF _ _ calm_keeps [OF w calm_same inv]]) (use n None in auto)
    then show ?thesis using wait_returns [OF n c(1-3) None] None by simp
  next
    case (Some x)
    have live: "WaitQ x \<in> L" using wq Some by blast
    obtain s' Q' ts' where s': "os_waitqueue_wait timeout s = ok (Switched, s')" "kinv L Q' ts' s'"
      "waitqueue_current s' = None" "isr_nesting s' = 0" "task_current s' = hd (ready Q)" "ready Q' = tl (ready Q)"
      "\<exists>g. task s' = (task s)(hd (ready Q) := (task s (hd (ready Q)))\<lparr>task_queue := None\<rparr>,
         task_current s := (task s (task_current s))\<lparr>timer := g, state := TASKSTATE_WAIT, block_type := OS_TASKBLOCK_WAITQUEUE,
           task_queue := Some (WaitQ x), ctx_kont := K_WaitqueueWait (sreg s)\<rparr>)"
      "sem s' = sem s" "mxh s' = mxh s" "mtx s' = mtx s"
      using wait_blocks [OF inv Some live world_cur(1) [OF w] n c(1-4)] by blast
    have "sys_ok z False d' L s'" for d' by (rule blocked_ok [OF inv w c(1) s'(2,5,6,4,3,7)]) (simp_all add: s'(8-10) c(2))
    then show ?thesis using s'(1,10) by simp
  qed
qed

section \<open>Calls that wake up tasks\<close>

text \<open>Waiters were woken up in the critical section; the call then schedules, or returns at once.\<close>

lemma woken_tail:
  assumes inv: "kinv L Q ts s0" and wk: "all_woken c q us (Q, ts, s0) (Q', ts', s1)" and inv': "kinv L' Q' ts' s2"
    and q: "q \<noteq> ReadyQ" "\<not> own_q q" and L: "\<And>q. own_q q \<Longrightarrow> q \<in> L' \<longleftrightarrow> q \<in> L"
    and e: "task s2 = task s1" "task_current s2 = task_current s1" "sreg s2 = sreg s1" "isr_nesting s2 = isr_nesting s1"
      "waitqueue_current s2 = waitqueue_current s1" "mxh s2 = mxh s1" "mtx s2 = mtx s1" "\<And>c. sem s2 (JoinSem c) = sem s1 (JoinSem c)"
    and w: "world_ok z True L s0" and n: "isr_nesting s0 = 0" "waitqueue_current s0 = None" "arch_is_dint (sreg s0)"
    and sm: "\<And>t m. task_queue (task s1 t) = Some (SemQ m) \<Longrightarrow> sem_value (sem s2 m) \<in> {0, sem_value (sem s1 m)}"
  shows "\<exists>r s'. kbind (os_schedule (K_Schedule x) 1 s2) (sched_exit x v) = ok (r, s') \<and> sys_ok z (r \<noteq> Switched) d L' s' \<and>
      owners_kept s0 s'"
    and "sys_ok z True True L' (s2\<lparr>sreg := y\<rparr>)" and "mtx s2 = mtx s0"
proof -
  have "calm True s0 True s2" by (rule calm_trans [OF calm_woken [OF inv wk q] calm_same [OF e(1,2,8,6,7) sm]])
  then have w2: "world_ok z True L' s2" by (rule calm_keeps [OF w _ inv L])
  have f: "isr_nesting s2 = 0" "waitqueue_current s2 = None" "arch_is_dint (sreg s2)"
    using wk n by (auto simp: all_woken_def core_frame_def e)
  show m: "mtx s2 = mtx s0" using wk by (auto simp: all_woken_def core_frame_def e)
  show "\<exists>r s'. kbind (os_schedule (K_Schedule x) 1 s2) (sched_exit x v) = ok (r, s') \<and> sys_ok z (r \<noteq> Switched) d L' s' \<and>
      owners_kept s0 s'"
    by (rule call_tail [OF inv' f(3,1) disjI2 [OF refl] w2 f(2) owners_kept_same [OF m]])
  show "sys_ok z True True L' (s2\<lparr>sreg := y\<rparr>)"
    by (rule sys_okI [OF entered(1) [OF inv' w2] _ entered(2) [OF inv' w2]]) (use f in auto)
qed

lemma up_call_ok:
  assumes ok: "sys_ok z True d L s" and g: "contract (SemUp n sync) L s"
  shows "call_ok z (SemUp n sync) d L s"
proof -
  obtain Q ts where inv: "kinv L Q ts s" and top: "sched_lock s = 0 \<and> \<not> d \<longrightarrow> top_runs Q s"
    and w: "world_ok z True L s" and n: "isr_nesting s = 0"
    using ok by (elim sys_okE) blast
  let ?m = "UserSem n"
  have c: "isr_nesting s = 0 \<or> \<not> sync" "isr_nesting s > 0 \<or> waitqueue_current s = None"
    "sem_value (sem s ?m) < ARCH_ATOMIC_MAX - 1" "SemQ ?m \<in> L" "waitqueue_current s = None" using g n by auto
  show ?thesis
  proof (cases "flat (Q (SemQ ?m))")
    case Nil
    let ?s = "s\<lparr>sem := (sem s)(?m := \<lparr>sem_value = sem_value (sem s ?m) + 1\<rparr>)\<rparr>"
    have top': "sched_lock s = 0 \<and> \<not> (d \<or> sync) \<longrightarrow> top_runs Q s" using top by blast
    have "kinv L Q ts ?s" by (rule kinv_same [OF inv]) simp_all
    moreover have "task_queue (task s t) \<noteq> Some (SemQ ?m)" for t using kinv_members [OF inv, of t "SemQ ?m"] Nil by auto
    ultimately have "sys_ok z True (d \<or> sync) L ?s" by (intro sys_ok_calm [OF inv w top']) (use n c(5) in auto)
    then show ?thesis using sem_up_token [OF inv c(4) Nil c(1-3)] by simp
  next
    case (Cons t us)
    obtain s2 Q' ts' where s2: "kinv L Q' ts' s2"
      "all_woken OS_OK (SemQ ?m) [t] (Q, ts, s\<lparr>sreg := arch_dint (sreg s)\<rparr>) (Q', ts', s2)"
      "os_sem_up_sync ?m sync s = (if \<not> sync
        then kbind (os_schedule (K_Schedule (sreg s)) 1 s2) (sched_exit (sreg s) Void)
        else ok (Return Void, s2\<lparr>sreg := sreg s\<rparr>))"
      using sem_up_run [OF inv c(4) Cons c(1-3)] by blast
    note tail = woken_tail [OF entered(1) [OF inv w] s2(2,1) _ _ refl refl refl refl refl refl refl refl refl entered(2) [OF inv w]]
    show ?thesis
    proof (cases sync)
      case True
      then show ?thesis using s2(3) tail(2,3) n c(5) by (simp add: owners_kept_def)
    next
      case False
      then show ?thesis using s2(3) tail(1) [of "sreg s" Void d] n c(5) by (simp add: owners_kept_def)
    qed
  qed
qed

lemma wakeup_call_ok:
  assumes ok: "sys_ok z True d L s" and g: "contract (WqWakeup x cnt sync) L s"
  shows "call_ok z (WqWakeup x cnt sync) d L s"
proof -
  obtain Q ts where inv: "kinv L Q ts s" and top: "sched_lock s = 0 \<and> \<not> d \<longrightarrow> top_runs Q s"
    and w: "world_ok z True L s" and n: "isr_nesting s = 0"
    using ok by (elim sys_okE) blast
  let ?us = "to_wake cnt (flat (Q (WaitQ x)))" and ?s0 = "s\<lparr>sreg := arch_dint (sreg s)\<rparr>"
  have c: "isr_nesting s > 0 \<or> waitqueue_current s = None" "isr_nesting s = 0 \<or> \<not> sync" "cnt > 0" "WaitQ x \<in> L"
    "waitqueue_current s = None" using g n by auto
  obtain s1 Q1 ts1 where s1: "kinv L Q1 ts1 s1" "all_woken OS_OK (WaitQ x) ?us (Q, ts, ?s0) (Q1, ts1, s1)"
    "os_waitqueue_wakeup_sync x cnt sync s = (if \<not> sync \<and> ?us \<noteq> []
      then kbind (os_schedule (K_Schedule (sreg s)) 1 s1) (sched_exit (sreg s) Void)
      else ok (Return Void, s1\<lparr>sreg := sreg s\<rparr>))"
    using wakeup_sync_run [OF inv c(4,1-3) refl refl refl] n by auto
  note tail = woken_tail [OF entered(1) [OF inv w] s1(2,1) _ _ refl refl refl refl refl refl refl refl refl entered(2) [OF inv w]]
  consider (sched) "\<not> sync" "?us \<noteq> []" | (sync) sync | (none) "\<not> sync" "?us = []" by blast
  then show ?thesis
  proof cases
    case sched
    then show ?thesis using s1(3) tail(1) [of "sreg s" Void d] n c(5) by (simp add: owners_kept_def)
  next
    case sync
    then show ?thesis using s1(3) tail(2,3) n c(5) by (simp add: owners_kept_def)
  next
    case none
    have e: "task s1 = task s" "task_current s1 = task_current s" "core_frame s s1" "ready Q1 = ready Q"
      using s1(2) none by (auto simp: all_woken_def core_frame_def)
    then have "world_ok z True L (s1\<lparr>sreg := sreg s\<rparr>)" by (intro calm_keeps [OF w calm_same inv]) (simp_all add: core_frame_def)
    then have "sys_ok z True d L (s1\<lparr>sreg := sreg s\<rparr>)"
      by (intro sys_okI [OF kinv_dint [OF s1(1)]]) (use e top n c(5) in \<open>auto simp: core_frame_def top_runs_def\<close>)
    then show ?thesis using s1(3) none e(3) by (simp add: owners_kept_def core_frame_def)
  qed
qed

lemma destroy_call_ok:
  assumes ok: "sys_ok z True d L s"
  shows "contract (SemDestroy n) L s \<Longrightarrow> call_ok z (SemDestroy n) d L s"
    and "contract (WqDestroy x) L s \<Longrightarrow> call_ok z (WqDestroy x) d L s"
proof -
  obtain Q ts where inv: "kinv L Q ts s" and w: "world_ok z True L s" and n: "isr_nesting s = 0"
    using ok by (elim sys_okE) blast
  note en = entered [OF inv w, of "arch_dint (sreg s)"]
  have v: "ret_void r \<noteq> Switched \<longleftrightarrow> r \<noteq> Switched" for r :: "unit outcome" by (cases r) auto
  show "call_ok z (SemDestroy n) d L s" if g: "contract (SemDestroy n) L s"
  proof -
    let ?m = "UserSem n"
    have c: "SemQ ?m \<in> L" "waitqueue_current s = None" using g by auto
    obtain s1 Q1 ts' s2 where s2: "kinv (L - {SemQ ?m}) Q1 ts' s2"
      "all_woken OS_DESTROYED (SemQ ?m) (flat (Q (SemQ ?m))) (Q, ts, s\<lparr>sreg := arch_dint (sreg s)\<rparr>) (Q1, ts', s1)"
      "s2 = (memset_taskqueue (SemQ ?m) s1)\<lparr>sem := (sem s1)(?m := \<lparr>sem_value = 0\<rparr>)\<rparr>"
      "os_sem_destroy_api K_Schedule ?m s = kbind (os_schedule (K_Schedule (sreg s)) 1 s2) (sched_exit (sreg s) ())"
      using sem_destroy_run [OF inv c(1) \<open>isr_nesting s = 0\<close> c(2), of K_Schedule] by blast
    have "\<exists>r s'. kbind (os_schedule (K_Schedule (sreg s)) 1 s2) (sched_exit (sreg s) ()) = ok (r, s') \<and>
      sys_ok z (r \<noteq> Switched) d (L - {SemQ ?m}) s' \<and> owners_kept (s\<lparr>sreg := arch_dint (sreg s)\<rparr>) s'"
      by (rule woken_tail(1) [OF en(1) s2(2,1) _ _ _ _ _ _ _ _ _ _ _ en(2)])
        (use \<open>isr_nesting s = 0\<close> c(2) in \<open>auto simp: s2(3) memset_taskqueue_def\<close>)
    then show ?thesis using s2(4) v by (auto simp: owners_kept_def)
  qed
  show "call_ok z (WqDestroy x) d L s" if g: "contract (WqDestroy x) L s"
  proof -
    have c: "WaitQ x \<in> L" "waitqueue_current s = None" using g by auto
    obtain s1 Q1 ts' where s1: "kinv (L - {WaitQ x}) Q1 ts' (memset_taskqueue (WaitQ x) s1)"
      "all_woken OS_DESTROYED (WaitQ x) (flat (Q (WaitQ x))) (Q, ts, s\<lparr>sreg := arch_dint (sreg s)\<rparr>) (Q1, ts', s1)"
      "os_waitqueue_destroy x s =
        kbind (os_schedule (K_Schedule (sreg s)) 1 (memset_taskqueue (WaitQ x) s1)) (sched_exit (sreg s) Void)"
      using waitqueue_destroy_run [OF inv c] by blast
    have "\<exists>r s'. kbind (os_schedule (K_Schedule (sreg s)) 1 (memset_taskqueue (WaitQ x) s1)) (sched_exit (sreg s) Void) = ok (r, s') \<and>
      sys_ok z (r \<noteq> Switched) d (L - {WaitQ x}) s' \<and> owners_kept (s\<lparr>sreg := arch_dint (sreg s)\<rparr>) s'"
      by (rule woken_tail(1) [OF en(1) s1(2,1) _ _ _ _ _ _ _ _ _ _ _ en(2)])
        (use \<open>isr_nesting s = 0\<close> c(2) in \<open>auto simp: memset_taskqueue_def\<close>)
    then show ?thesis using s1(3) by (simp add: owners_kept_def)
  qed
qed

section \<open>Calls without scheduling\<close>

lemma create_calls_ok:
  assumes ok: "sys_ok z True d L s"
  shows "contract (SemCreate n v) L s \<Longrightarrow> call_ok z (SemCreate n v) d L s"
    and "contract (WqCreate x) L s \<Longrightarrow> call_ok z (WqCreate x) d L s"
    and "contract (WqPrepare x) L s \<Longrightarrow> call_ok z (WqPrepare x) d L s"
proof -
  obtain Q ts where inv: "kinv L Q ts s" and top: "sched_lock s = 0 \<and> \<not> d \<longrightarrow> top_runs Q s"
    and w: "world_ok z True L s" and n: "isr_nesting s = 0"
    using ok by (elim sys_okE) blast
  show "call_ok z (SemCreate n v) d L s" if g: "contract (SemCreate n v) L s"
  proof -
    let ?m = "UserSem n"
    have c: "SemQ ?m \<notin> L" "v < ARCH_ATOMIC_MAX" "waitqueue_current s = None" using g by auto
    obtain s' where s': "os_sem_create ?m v s = ok s'" "kinv (insert (SemQ ?m) L) Q ts s'" "task s' = task s"
      "task_current s' = task_current s" "isr_nesting s' = isr_nesting s" "sched_lock s' = sched_lock s"
      "waitqueue_current s' = waitqueue_current s" "mxh s' = mxh s" "mtx s' = mtx s" "sem s' = (sem s)(?m := \<lparr>sem_value = v\<rparr>)"
      using sem_create_result [OF inv c] by blast
    have "sys_ok z True d (insert (SemQ ?m) L) s'"
      by (rule sys_ok_calm [OF inv w top s'(2)]) (use s' \<open>isr_nesting s = 0\<close> c queue_live [OF inv] in auto)
    then show ?thesis using s'(1,9) by simp
  qed
  show "call_ok z (WqCreate x) d L s" if g: "contract (WqCreate x) L s"
  proof -
    have c: "WaitQ x \<notin> L" "waitqueue_current s = None" using g by auto
    obtain s' where s': "os_waitqueue_create x s = ok s'" "kinv (insert (WaitQ x) L) Q ts s'" "tq_frame s s'" "task s' = task s"
      using waitqueue_create_result [OF inv c] by blast
    have "sys_ok z True d (insert (WaitQ x) L) s'"
      by (rule sys_ok_calm [OF inv w top s'(2)]) (use s'(3,4) \<open>isr_nesting s = 0\<close> c(2) in \<open>auto simp: tq_frame_iff\<close>)
    then show ?thesis using s'(1,3) by (simp add: tq_frame_iff)
  qed
  show "call_ok z (WqPrepare x) d L s" if g: "contract (WqPrepare x) L s"
  proof -
    let ?s = "s\<lparr>sched_lock := sched_lock s + 1, waitqueue_current := Some x\<rparr>"
    have "kinv L Q ts ?s" by (rule kinv_same [OF inv]) simp_all
    then have "sys_ok z True d L ?s"
      by (rule sys_okI [OF _ _ calm_keeps [OF w calm_same inv]]) (use g \<open>isr_nesting s = 0\<close> lock_no_wrap in auto)
    moreover have "os_waitqueue_prepare x s = ok ?s" using prepare_result [OF \<open>isr_nesting s = 0\<close>] g by (simp add: may_block_def)
    ultimately show ?thesis by simp
  qed
qed

text \<open>The timers of the application.\<close>

lemma kinv_timers:
  assumes inv: "kinv L Q ts s" and fr: "tm_frame s s'" and rel: "tm_rel ts' s'"
    and b: "\<And>t. tmr s' (BlockTimer t) = tmr s (BlockTimer t)" "\<And>t. BlockTimer t \<in> set ts' \<Longrightarrow> BlockTimer t \<in> set ts"
    and u: "\<And>n. UserTimer n \<in> set ts' \<Longrightarrow> clbck (tmr s' (UserTimer n)) \<in> range UserTimerProc"
  shows "kinv L Q ts' s'"
proof -
  have f: "tqh s' = tqh s" "qmask s' = qmask s" "task s' = task s" "task_current s' = task_current s"
    using fr by (simp_all add: tm_frame_iff)
  have "guards {} (set ts') s'"
    using kinvD(2) [OF inv] b u unfolding block_inv_def guards_def by (simp add: f(3))
  then show ?thesis using sched_inv_cong [OF f] kinvD(1,3) [OF inv] rel by (simp add: kinv_def block_inv_def)
qed

lemma timer_call_ok:
  assumes ok: "sys_ok z True d L s"
  shows "contract (TimerCreate n proc prm timeout reload) L s \<Longrightarrow> call_ok z (TimerCreate n proc prm timeout reload) d L s"
    and "contract (TimerDestroy n) L s \<Longrightarrow> call_ok z (TimerDestroy n) d L s"
proof -
  obtain Q ts where inv: "kinv L Q ts s" and top: "sched_lock s = 0 \<and> \<not> d \<longrightarrow> top_runs Q s"
    and w: "world_ok z True L s" and n: "isr_nesting s = 0" and wq: "\<forall>w. waitqueue_current s = Some w \<longrightarrow> WaitQ w \<in> L \<and> sched_lock s \<noteq> 0"
    using ok by (elim sys_okE) blast
  have rel: "tm_rel ts s" and gu: "\<And>k. UserTimer k \<in> set ts \<Longrightarrow> clbck (tmr s (UserTimer k)) \<in> range UserTimerProc"
    using kinvD(2) [OF inv] by (auto simp: block_inv_def guards_def)
  have fin: "sys_ok z True d L s'" if "tm_frame s s'" "kinv L Q ts' s'" for s' ts'
    by (rule sys_ok_calm [OF inv w top that(2)]) (use that(1) n wq in \<open>auto simp: tm_frame_iff\<close>)
  show "call_ok z (TimerCreate n proc prm timeout reload) d L s" if g: "contract (TimerCreate n proc prm timeout reload) L s"
  proof -
    obtain s' where s': "os_timer_create (UserTimer n) (UserTimerProc proc) (UserParam prm) timeout reload s = ok s'" "tm_frame s s'"
      "tmr s' = (tmr s)(UserTimer n := \<lparr>ticks_rem = timeout + timer_tick_unsynch s, ticks_reload = reload,
        clbck = UserTimerProc proc, param = UserParam prm, magic = OS_TIMER_MAGIC1\<rparr>)"
      "tm_rel (prio_insert (tkey s') (UserTimer n) ts) s'"
      using timer_create_result [OF rel, of timeout "UserTimer n" "UserTimerProc proc" "UserParam prm" reload] g by auto
    have "kinv L Q (prio_insert (tkey s') (UserTimer n) ts) s'"
      by (rule kinv_timers [OF inv s'(2,4)]) (use gu in \<open>auto simp: s'(3) set_prio_insert\<close>)
    from fin [OF s'(2) this] show ?thesis using s'(1,2) by (simp add: tm_frame_iff)
  qed
  show "call_ok z (TimerDestroy n) d L s" if g: "contract (TimerDestroy n) L s"
  proof -
    obtain s' where s': "os_timer_destroy (UserTimer n) s = ok s'" "tm_frame s s'" "tm_rel (remove1 (UserTimer n) ts) s'"
      "tmr s' = (tmr s)(UserTimer n := (tmr s (UserTimer n))\<lparr>ticks_rem := 0,
        ticks_reload := (if UserTimer n \<in> set ts then 0 else ticks_reload (tmr s (UserTimer n))), magic := OS_TIMER_MAGIC2\<rparr>)"
      using timer_destroy_result [OF rel, of "UserTimer n"] g by auto
    have "kinv L Q (remove1 (UserTimer n) ts) s'"
      by (rule kinv_timers [OF inv s'(2,3)]) (use gu in \<open>auto simp: s'(4) dest: notin_set_remove1 set_remove1_subset [THEN subsetD]\<close>)
    from fin [OF s'(2) this] show ?thesis using s'(1,2) by (simp add: tm_frame_iff)
  qed
qed

end
