(* ===== verification/System_Objects.thy ===== *)
theory System_Objects
  imports System
begin

text \<open>
  The calls of the mutexes and of the end of a task keep the invariant of the system: locking with
  the boost of the owners, unlocking and destroying with the reset of the caller's priority, exit and
  join.
\<close>

section \<open>Giving a mutex away\<close>

lemma mutex_ok_owners:
  assumes ok: "mutex_ok z L s" and e: "mxh s' = mxh s" "\<And>m. owner (mtx s' m) = owner (mtx s m)" "task s' = task s"
    "task_current s' = task_current s"
  shows "mutex_ok z L s'"
proof -
  obtain T M where m: "minv L T M s" "\<And>t. alive s t \<Longrightarrow> t \<in> T" "\<And>t. chain_ends s t" "prio_justified s" "z \<Longrightarrow> prio_exact s"
    using ok by (rule mutex_okE) blast
  have "minv L T M s'" by (rule minv_cong [OF m(1) e(1,2)]) (simp add: e(3))
  moreover have "chain_ends s' t" for t by (rule chain_ends_mono [OF m(3)]) (simp add: e(2,3))
  moreover have "prio_justified s'" using m(4) by (simp add: prio_justified_def e(2,3))
  moreover have "prio_exact s'" if z
    using m(5) [OF that] by (simp add: prio_exact_def prio_inherited_def owners_run_def active_def e(2-4))
  ultimately show ?thesis using m(2) by (intro mutex_okI) (simp_all add: suspended_def e(3,4))
qed

text \<open>The priority after the release: the own one, or that of a task that waits for a mutex still owned.\<close>

lemma reset_prio_cases:
  assumes "kinv L Q ts s"
  shows "reset_prio s ms \<le> prio_base (task s (task_current s)) \<or>
    (\<exists>k \<in> set ms. \<exists>u. task_queue (task s u) = Some (MtxQ k) \<and> reset_prio s ms = prio_current (task s u))"
proof -
  let ?W = "{u. \<exists>m \<in> set ms. task_queue (task s u) = Some (MtxQ m)}"
  let ?b = "prio_base (task s (task_current s))"
  have "inherited s ms ?b \<in> insert ?b ((\<lambda>u. prio_current (task s u)) ` ?W)"
    unfolding inherited_def by (rule Max_in) (use waiters_finite [OF assms] in auto)
  then have "reset_prio s ms \<in> insert ?b ((\<lambda>u. prio_current (task s u)) ` ?W)" by (simp add: reset_prio_def)
  then show ?thesis by auto
qed

text \<open>Without waiters for the mutex, its release never lowers the caller's priority: there is no need to schedule.\<close>

lemma release_not_lower:
  assumes inv: "kinv L Q ts s" and mi: "minv L T M s" and pj: "prio_justified s" and fl: "flat (Q (MtxQ m)) = []"
  shows "prio_current (task s (task_current s)) \<le> reset_prio s (remove1 m (M (task_current s)))"
proof (cases "prio_current (task s (task_current s)) = prio_base (task s (task_current s))")
  case False
  let ?c = "task_current s" and ?ms = "remove1 m (M (task_current s))"
  let ?S = "insert (prio_base (task s ?c)) ((\<lambda>u. prio_current (task s u)) ` {u. \<exists>m \<in> set ?ms. task_queue (task s u) = Some (MtxQ m)})"
  have le: "x \<le> inherited s ?ms (prio_base (task s ?c))" if "x \<in> ?S" for x
    unfolding inherited_def by (rule Max_ge) (use waiters_finite [OF inv] that in auto)
  consider "prio_current (task s ?c) \<le> prio_base (task s ?c)" | k u where "owner (mtx s k) = Some ?c"
    "task_queue (task s u) = Some (MtxQ k)" "prio_current (task s ?c) \<le> prio_current (task s u)"
    using pj unfolding prio_justified_def by blast
  then have "prio_current (task s ?c) \<le> inherited s ?ms (prio_base (task s ?c))"
  proof cases
    case 1
    then show ?thesis using le [of "prio_base (task s ?c)"] by simp
  next
    case 2
    have "k \<noteq> m" using 2(2) kinv_members [OF inv, of u "MtxQ m"] fl by auto
    moreover have "k \<in> set (M ?c)" using 2(1) mownD(3) [OF minvD(1) [OF mi]] by simp
    ultimately have "k \<in> set ?ms" by simp
    then show ?thesis using le [of "prio_current (task s u)"] 2(2,3) by fastforce
  qed
  then show ?thesis using False by (simp add: reset_prio_def)
qed (simp add: reset_prio_def)

text \<open>The mutex \<open>m\<close> leaves the current task: freed, handed over, or destroyed.\<close>

lemma release_justified:
  assumes inv: "kinv L Q ts s" and mi: "minv L T M s" and pj: "prio_justified s"
    and o: "owner (mtx s m) \<in> {None, Some (task_current s)}"
    and k: "\<And>k. k \<noteq> m \<Longrightarrow> owner (mtx s' k) = owner (mtx s k)"
    and q': "\<And>t k. k \<noteq> m \<Longrightarrow> task_queue (task s t) = Some (MtxQ k) \<Longrightarrow> task_queue (task s' t) = Some (MtxQ k)"
    and p: "\<And>t. prio_base (task s' t) = prio_base (task s t)"
      "\<And>t. t \<noteq> task_current s \<Longrightarrow> prio_current (task s' t) = prio_current (task s t)"
      "prio_current (task s' (task_current s)) = (if owner (mtx s m) = None then prio_current (task s (task_current s))
        else reset_prio s (remove1 m (M (task_current s))))"
  shows "prio_justified s'"
  unfolding prio_justified_def
proof
  let ?c = "task_current s"
  have cq: "task_queue (task s ?c) = None" by (rule sched_invD(4) [OF kinvD(1) [OF inv]])
  have keep: "\<exists>j v. owner (mtx s' j) = Some t \<and> task_queue (task s' v) = Some (MtxQ j) \<and> x \<le> prio_current (task s' v)"
    if "j \<noteq> m" "owner (mtx s j) = Some t" "task_queue (task s u) = Some (MtxQ j)" "x \<le> prio_current (task s u)" for t j u x
  proof -
    have "u \<noteq> ?c" using that(3) cq by auto
    then show ?thesis using that k [of j] q' [of j u] p(2) [of u] by - (rule exI [of _ j], rule exI [of _ u], simp)
  qed
  fix t
  have own: "j \<noteq> m" if "owner (mtx s j) = Some t" "task_queue (task s u) = Some (MtxQ j)" "t \<noteq> ?c \<or> owner (mtx s m) = None" for j u
    using that o by auto
  show "prio_current (task s' t) \<le> prio_base (task s' t) \<or> (\<exists>j v. owner (mtx s' j) = Some t \<and>
      task_queue (task s' v) = Some (MtxQ j) \<and> prio_current (task s' t) \<le> prio_current (task s' v))"
  proof (cases "t \<noteq> ?c \<or> owner (mtx s m) = None")
    case True
    then have pt: "prio_current (task s' t) = prio_current (task s t)" using p(2,3) by (cases "t = ?c") auto
    consider "prio_current (task s t) \<le> prio_base (task s t)" | j u where "owner (mtx s j) = Some t"
      "task_queue (task s u) = Some (MtxQ j)" "prio_current (task s t) \<le> prio_current (task s u)"
      using pj unfolding prio_justified_def by blast
    then show ?thesis
    proof cases
      case 2
      then show ?thesis using keep [OF own [OF 2(1,2) True] 2] by (simp add: pt)
    qed (simp add: p(1) pt)
  next
    case False
    then have pt: "t = ?c" "prio_current (task s' t) = reset_prio s (remove1 m (M ?c))" using p(3) by auto
    consider "reset_prio s (remove1 m (M ?c)) \<le> prio_base (task s ?c)" | j u where "j \<in> set (remove1 m (M ?c))"
      "task_queue (task s u) = Some (MtxQ j)" "reset_prio s (remove1 m (M ?c)) = prio_current (task s u)"
      using reset_prio_cases [OF inv] by blast
    then show ?thesis
    proof cases
      case 1
      then show ?thesis using pt p(1) by simp
    next
      case 2
      have j: "j \<noteq> m" "owner (mtx s j) = Some ?c"
        using 2(1) mown_distinct [OF minvD(1) [OF mi], of ?c] mownD(3) [OF minvD(1) [OF mi], of j ?c] by auto
      show ?thesis using keep [OF j 2(2)] 2(3) pt by simp
    qed
  qed
qed

lemma release_keeps:
  assumes inv: "kinv L Q ts s" and mi: "minv L T M s" and ce: "\<And>t. chain_ends s t" and pj: "prio_justified s"
    and o: "owner (mtx s m) \<in> {None, Some (task_current s)}"
    and k: "\<And>k. k \<noteq> m \<Longrightarrow> owner (mtx s' k) = owner (mtx s k)"
    and q: "\<And>t k. task_queue (task s' t) = Some (MtxQ k) \<Longrightarrow>
      task_queue (task s t) = Some (MtxQ k) \<and> (k = m \<longrightarrow> (\<exists>u. owner (mtx s' m) = Some u \<and> chain_ends s' u))"
    and q': "\<And>t k. k \<noteq> m \<Longrightarrow> task_queue (task s t) = Some (MtxQ k) \<Longrightarrow> task_queue (task s' t) = Some (MtxQ k)"
    and p: "\<And>t. prio_base (task s' t) = prio_base (task s t)"
      "\<And>t. t \<noteq> task_current s \<Longrightarrow> prio_current (task s' t) = prio_current (task s t)"
      "prio_current (task s' (task_current s)) = (if owner (mtx s m) = None then prio_current (task s (task_current s))
        else reset_prio s (remove1 m (M (task_current s))))"
  shows "(\<forall>t. chain_ends s' t) \<and> prio_justified s'"
proof (intro conjI allI)
  show "chain_ends s' t" for t
  proof (rule chain_ends_mono [OF ce])
    fix t j assume a: "task_queue (task s' t) = Some (MtxQ j)"
    show "task_queue (task s t) = Some (MtxQ j) \<and> owner (mtx s' j) = owner (mtx s j) \<or> (\<exists>u. owner (mtx s' j) = Some u \<and> chain_ends s' u)"
      using q [OF a] k [of j] by (cases "j = m") auto
  qed
  show "prio_justified s'" by (rule release_justified [OF inv mi pj o k q' p])
qed

lemma reset_prio_base: "kinv L Q ts s \<Longrightarrow> prio_base (task s (task_current s)) \<le> reset_prio s ms"
  unfolding reset_prio_def inherited_def using waiters_finite [of L Q ts s] by (auto intro!: Max_ge)

text \<open>What it does to the priorities of the owners: they keep at least those of their waiters.\<close>

lemma release_exact:
  assumes inv: "kinv L Q ts s" and mi: "minv L T M s" and ex: "prio_exact s"
    and o: "owner (mtx s m) \<in> {None, Some (task_current s)}"
    and k: "\<And>k. k \<noteq> m \<Longrightarrow> owner (mtx s' k) = owner (mtx s k)" and c: "task_current s' = task_current s"
    and q: "\<And>t k. task_queue (task s' t) = Some (MtxQ k) \<Longrightarrow> task_queue (task s t) = Some (MtxQ k)"
      "\<And>t. task_queue (task s t) = Some ReadyQ \<Longrightarrow> task_queue (task s' t) = Some ReadyQ"
      "\<And>t k. task_queue (task s t) = Some (MtxQ k) \<Longrightarrow> task_queue (task s' t) \<in> {Some (MtxQ k), Some ReadyQ}"
    and n: "\<And>u. owner (mtx s' m) = Some u \<Longrightarrow> task_queue (task s' u) = Some ReadyQ \<and> u \<noteq> task_current s \<and>
      (\<forall>t. task_queue (task s' t) = Some (MtxQ m) \<longrightarrow> prio_current (task s t) \<le> prio_current (task s u))"
    and p: "\<And>t. prio_base (task s' t) = prio_base (task s t)"
      "\<And>t. t \<noteq> task_current s \<Longrightarrow> prio_current (task s' t) = prio_current (task s t)"
      "prio_current (task s' (task_current s)) = (if owner (mtx s m) = None then prio_current (task s (task_current s))
        else reset_prio s (remove1 m (M (task_current s))))"
  shows "prio_exact s'"
proof -
  let ?c = "task_current s"
  have pi: "prio_inherited s" and base: "\<And>t. prio_base (task s t) \<le> prio_current (task s t)" and run: "owners_run s"
    using ex by (simp_all add: prio_exact_def)
  note mo = mownD(3) [OF minvD(1) [OF mi]]
  have "prio_current (task s' t) \<le> prio_current (task s' v)" if t: "task_queue (task s' t) = Some (MtxQ j)" and v: "owner (mtx s' j) = Some v" for t j v
  proof -
    have tw: "task_queue (task s t) = Some (MtxQ j)" by (rule q(1) [OF t])
    then have "t \<noteq> ?c" using sched_invD(4) [OF kinvD(1) [OF inv]] by auto
    then have tc: "prio_current (task s' t) = prio_current (task s t)" by (rule p(2))
    show ?thesis
    proof (cases "j = m")
      case True
      then show ?thesis using n [of v] v t p(2) [of v] by (simp add: tc)
    next
      case False
      then have vs: "owner (mtx s j) = Some v" "prio_current (task s t) \<le> prio_current (task s v)"
        using k [OF False] v pi tw unfolding prio_inherited_def by auto
      show ?thesis
      proof (cases "v = ?c \<and> owner (mtx s m) \<noteq> None")
        case True
        then have "j \<in> set (remove1 m (M ?c))" using vs(1) mo [of j ?c] False by simp
        then show ?thesis
          using reset_prio_waiters [OF inv minvD(1) [OF mi] pi set_remove1_subset _ tw] True p(3) vs(2) by (simp add: tc)
      next
        case False
        then show ?thesis using vs(2) p(2,3) tc by (cases "v = ?c") auto
      qed
    qed
  qed
  then have "prio_inherited s'" unfolding prio_inherited_def by blast
  moreover have "active s' v \<or> (\<exists>j. task_queue (task s' v) = Some (MtxQ j))" if v: "owner (mtx s' j) = Some v" for j v
  proof (cases "j = m")
    case True
    then show ?thesis using n [of v] v by (simp add: active_def)
  next
    case False
    then have "active s v \<or> (\<exists>i. task_queue (task s v) = Some (MtxQ i))" using run k v unfolding owners_run_def by auto
    then show ?thesis using q(2,3) by (auto simp: active_def c)
  qed
  moreover have "prio_base (task s' t) \<le> prio_current (task s' t)" for t
    using p base [of t] reset_prio_base [OF inv] by (cases "t = ?c") auto
  ultimately show ?thesis by (simp add: prio_exact_def owners_run_def)
qed

lemma owner_other:
  assumes "minv L T M s" and "minv L' T (M(c := ms)) s'" and "k \<in> set ms \<longleftrightarrow> k \<in> set (M c)"
  shows "owner (mtx s' k) = owner (mtx s k)"
proof -
  have "owner (mtx s' k) = Some t \<longleftrightarrow> owner (mtx s k) = Some t" for t
    using mownD(3) [OF minvD(1) [OF assms(1)], of k t] mownD(3) [OF minvD(1) [OF assms(2)], of k t] assms(3) by auto
  then show ?thesis by (cases "owner (mtx s k)"; cases "owner (mtx s' k)") auto
qed

section \<open>Mutex calls\<close>

text \<open>Locking and unlocking by the owner only count.\<close>

lemma recur_keeps:
  assumes ok: "sys_ok z True d L s" and wq: "waitqueue_current s = None" and f: "\<And>k. owner (f k) = owner k"
  shows "sys_ok z True d L (upd_mtx m f s)"
proof -
  obtain Q ts where inv: "kinv L Q ts s" and top: "sched_lock s = 0 \<and> \<not> d \<longrightarrow> top_runs Q s"
    and w: "world_ok z True L s" and n: "isr_nesting s = 0"
    using ok by (elim sys_okE) blast
  have tok: "tasks_ok True L s" and mok: "mutex_ok z L s" using w by (simp_all add: world_ok_def)
  have "kinv L Q ts (upd_mtx m f s)" by (rule kinv_same [OF inv]) (simp_all add: upd_mtx_def)
  moreover have "tasks_ok True L (upd_mtx m f s)"
    by (rule still_keeps [OF tok still_same sched_invD(3) [OF kinvD(1) [OF inv]]]) (simp_all add: upd_mtx_def)
  moreover have "mutex_ok z L (upd_mtx m f s)" by (rule mutex_ok_owners [OF mok]) (simp_all add: upd_mtx_def f)
  moreover have "sems_ok (upd_mtx m f s)" by (rule sems_mono [of s]) (use w in \<open>simp_all add: world_ok_def upd_mtx_def\<close>)
  ultimately show ?thesis by (intro sys_okI) (use top n wq in \<open>auto simp: world_ok_def upd_mtx_def top_runs_def\<close>)
qed

lemma unlock_free_ok:
  assumes ok: "sys_ok z True d L s" and g: "contract (MtxUnlock m) L s" and rec: "\<not> recur (mtx s m) - 1 > 0"
    and nw: "\<And>t. task_queue (task s t) \<noteq> Some (MtxQ m)"
  shows "call_ok z (MtxUnlock m) d L s"
proof -
  obtain Q ts T M where inv: "kinv L Q ts s" and top: "sched_lock s = 0 \<and> \<not> d \<longrightarrow> top_runs Q s" and n: "isr_nesting s = 0"
    and tok: "tasks_ok True L s" and mi: "minv L T M s" and T: "\<And>t. alive s t \<Longrightarrow> t \<in> T" and ce: "\<And>t. chain_ends s t"
    and pj: "prio_justified s" and ex: "z \<Longrightarrow> prio_exact s" and cq: "task_queue (task s (task_current s)) = None"
    and tko: "\<And>t. task_ok (task s t)" and sm: "sems_ok s"
    using ok by (rule sys_worldE) blast
  let ?c = "task_current s" and ?p = "reset_prio s (remove1 m (M (task_current s)))"
  have c: "isr_nesting s = 0" "waitqueue_current s = None" "owner (mtx s m) = Some ?c" using g n by auto
  have fl: "flat (Q (MtxQ m)) = []" using kinv_members [OF inv, of _ "MtxQ m"] nw by (cases "flat (Q (MtxQ m))") auto
  obtain s' where s': "os_mtx_unlock m s = ok (Return Void, s')" "kinv L Q ts s'" "minv L T (M(?c := remove1 m (M ?c))) s'"
    "task_current s' = ?c" "task s' = (task s)(?c := (task s ?c)\<lparr>prio_current := ?p\<rparr>)" "isr_nesting s' = 0" "sched_lock s' = sched_lock s"
    "waitqueue_current s' = None" "sem s' = sem s"
    using unlock_free [OF inv mi c rec refl fl] by blast
  have own: "owner (mtx s' k) = owner (mtx s k)" if "k \<noteq> m" for k by (rule owner_other [OF mi s'(3)]) (use that in simp)
  have mo': "owner (mtx s' m) \<noteq> Some u" for u
    using mownD(3) [OF minvD(1) [OF s'(3)], of m u] mownD(3) [OF minvD(1) [OF mi], of m u] c(3)
      mown_distinct [OF minvD(1) [OF mi], of ?c] by (auto split: if_splits)
  have "(\<forall>t. chain_ends s' t) \<and> prio_justified s'"
    by (rule release_keeps [OF inv mi ce pj _ own]) (use c(3) nw in \<open>auto simp: s'(5) split: if_splits\<close>)
  moreover have "prio_exact s'" if z
    by (rule release_exact [OF inv mi ex [OF that] _ own s'(4)]) (use c(3) nw mo' in \<open>auto simp: s'(5) split: if_splits\<close>)
  ultimately have "mutex_ok z L s'" by (intro mutex_okI [OF s'(3)]) (use T in \<open>auto simp: suspended_def s'(4,5) split: if_splits\<close>)
  moreover have "still True s True s'" by (rule stillI) (use cq in \<open>auto simp: s'(4,5,9) suspended_def split: if_splits\<close>)
  then have "tasks_ok True L s'" by (rule still_keeps [OF tok _ tko]) simp
  moreover have "top_runs Q s'" if "top_runs Q s"
    unfolding top_runs_def
  proof
    fix u assume u: "u \<in> set (ready Q)"
    then have "u \<noteq> ?c" using kinv_members [OF inv, of u ReadyQ] cq by auto
    moreover have "prio_current (task s u) \<le> prio_current (task s ?c)" using that u by (simp add: top_runs_def)
    ultimately show "prio_current (task s' u) \<le> prio_current (task s' (task_current s'))"
      using release_not_lower [OF inv mi pj fl] by (simp add: s'(4,5))
  qed
  moreover have "sems_ok s'" by (rule sems_mono [OF sm]) (auto simp: s'(5,9) split: if_splits)
  ultimately have "sys_ok z True d L s'" by (intro sys_okI [OF s'(2)]) (use top s'(6-8) in \<open>auto simp: world_ok_def\<close>)
  moreover have "owners_kept s s'" by (rule owners_kept_but [of m]) (simp_all add: own c(3))
  ultimately show ?thesis using s'(1) by simp
qed

lemma unlock_handover_ok:
  assumes ok: "sys_ok z True d L s" and g: "contract (MtxUnlock m) L s" and rec: "\<not> recur (mtx s m) - 1 > 0"
    and x: "task_queue (task s x) = Some (MtxQ m)"
  shows "call_ok z (MtxUnlock m) d L s"
proof -
  obtain Q ts T M where inv: "kinv L Q ts s" and top: "sched_lock s = 0 \<and> \<not> d \<longrightarrow> top_runs Q s" and n: "isr_nesting s = 0"
    and tok: "tasks_ok True L s" and mi: "minv L T M s" and T: "\<And>t. alive s t \<Longrightarrow> t \<in> T" and ce: "\<And>t. chain_ends s t"
    and pj: "prio_justified s" and ex: "z \<Longrightarrow> prio_exact s" and cq: "task_queue (task s (task_current s)) = None"
    and tko: "\<And>t. task_ok (task s t)" and sm: "sems_ok s"
    using ok by (rule sys_worldE) blast
  let ?c = "task_current s" and ?p = "reset_prio s (remove1 m (M (task_current s)))"
  have c: "isr_nesting s = 0" "waitqueue_current s = None" "owner (mtx s m) = Some ?c" using g n by auto
  obtain t us where fl: "flat (Q (MtxQ m)) = t # us" using kinv_members [OF inv, of x "MtxQ m"] x by (cases "flat (Q (MtxQ m))") auto
  obtain s3 Q3 ts3 where s3: "os_mtx_unlock m s = kbind (os_schedule (K_Schedule (sreg s)) 1 s3) (sched_exit (sreg s) Void)"
    "kinv L Q3 ts3 s3" "minv L T (M(?c := remove1 m (M ?c), t := M t @ [m])) s3" "t \<noteq> ?c" "task_queue (task s t) = Some (MtxQ m)"
    "mtx s3 m = \<lparr>owner = Some t, recur = 1\<rparr>" "\<forall>k. k \<noteq> m \<longrightarrow> mtx s3 k = mtx s k"
    "task s3 = (task s)(?c := (task s ?c)\<lparr>prio_current := ?p\<rparr>,
      t := (task s t)\<lparr>timer := None, ret_block := retcode_value OS_OK, state := TASKSTATE_READY, task_queue := Some ReadyQ\<rparr>)"
    "task_current s3 = ?c" "sreg s3 = arch_dint (sreg s)" "isr_nesting s3 = 0" "waitqueue_current s3 = None" "sem s3 = sem s"
    using unlock_handover_run [OF inv mi c rec refl fl] by blast
  have "chain_ends s3 t" by (rule chain_ends.free) (simp add: s3(8))
  then have "(\<forall>u. chain_ends s3 u) \<and> prio_justified s3"
    by (intro release_keeps [OF inv mi ce pj, of m]) (use c(3) s3(4-7) cq in \<open>auto simp: s3(8) split: if_splits\<close>)
  moreover have "prio_exact s3" if z
  proof (rule release_exact [OF inv mi ex [OF that], of m])
    have "prio_current (task s u) \<le> prio_current (task s t)" if "task_queue (task s u) = Some (MtxQ m)" for u
      using flat_sorted [OF sched_invD(1) [OF kinvD(1) [OF inv]], of "MtxQ m"] kinv_members [OF inv, of u "MtxQ m"] that fl
      by (auto simp: prio_sorted_def)
    then show "owner (mtx s3 m) = Some u \<Longrightarrow> task_queue (task s3 u) = Some ReadyQ \<and> u \<noteq> ?c \<and>
        (\<forall>t. task_queue (task s3 t) = Some (MtxQ m) \<longrightarrow> prio_current (task s t) \<le> prio_current (task s u))" for u
      using s3(4,6) cq by (auto simp: s3(8))
  qed (use c(3) s3(4,5,7,9) cq in \<open>auto simp: s3(8) split: if_splits\<close>)
  ultimately have "mutex_ok z L s3"
    by (intro mutex_okI [OF s3(3)]) (use T s3(4,5) in \<open>auto simp: suspended_def s3(8,9) split: if_splits\<close>)
  moreover have "state (task s t) = TASKSTATE_WAIT" using tko [of t] s3(5) by (simp add: task_ok_def)
  then have "still True s True s3"
    by (intro stillI) (use cq s3(4,5) in \<open>auto simp: s3(8,9,13) suspended_def split: if_splits\<close>)
  then have "tasks_ok True L s3" by (rule still_keeps [OF tok _ tko]) simp
  moreover have "sems_ok s3" by (rule sems_mono [OF sm]) (auto simp: s3(8,13) split: if_splits)
  moreover have "owners_kept s s3" by (rule owners_kept_but [of m]) (use s3(7) c(3) in simp_all)
  ultimately show ?thesis
    using call_tail [OF s3(2) _ s3(11) disjI2 [OF refl] _ s3(12), of z s "sreg s" Void d] s3(1,10) by (simp add: world_ok_def)
qed

lemma mtx_unlock_call_ok:
  assumes ok: "sys_ok z True d L s" and g: "contract (MtxUnlock m) L s"
  shows "call_ok z (MtxUnlock m) d L s"
proof (cases "recur (mtx s m) - 1 > 0")
  case True
  have c: "isr_nesting s = 0" "waitqueue_current s = None" "owner (mtx s m) = Some (task_current s)"
    using ok g by (auto elim: sys_okE)
  show ?thesis using unlock_rec [OF c True] recur_keeps [OF ok c(2), of "\<lambda>k. k\<lparr>recur := recur k - 1\<rparr>" m]
    by (simp add: owners_kept_def upd_mtx_def)
next
  case False
  then show ?thesis using unlock_free_ok [OF assms False] unlock_handover_ok [OF assms False] by blast
qed

lemma mtx_destroy_call_ok:
  assumes ok: "sys_ok z True d L s" and g: "contract (MtxDestroy m) L s"
  shows "call_ok z (MtxDestroy m) d L s"
proof -
  obtain Q ts T M where inv: "kinv L Q ts s" and top: "sched_lock s = 0 \<and> \<not> d \<longrightarrow> top_runs Q s" and n: "isr_nesting s = 0"
    and tok: "tasks_ok True L s" and mi: "minv L T M s" and T: "\<And>t. alive s t \<Longrightarrow> t \<in> T" and ce: "\<And>t. chain_ends s t"
    and pj: "prio_justified s" and ex: "z \<Longrightarrow> prio_exact s" and cq: "task_queue (task s (task_current s)) = None"
    and tko: "\<And>t. task_ok (task s t)" and sm: "sems_ok s"
    using ok by (rule sys_worldE) blast
  let ?c = "task_current s"
  have c: "MtxQ m \<in> L" "waitqueue_current s = None" "owner (mtx s m) \<in> {None, Some ?c}" using g by auto
  obtain s1 Q1 ts1 where s1: "os_mtx_destroy m s = kbind (os_schedule (K_Schedule (sreg s)) 1 s1) (sched_exit (sreg s) Void)"
    "kinv (L - {MtxQ m}) Q1 ts1 s1" "minv (L - {MtxQ m}) T (M(?c := remove1 m (M ?c))) s1"
    "\<forall>k. k \<noteq> m \<longrightarrow> mtx s1 k = mtx s k"
    "task s1 = (\<lambda>t. if task_queue (task s t) = Some (MtxQ m)
      then (task s t)\<lparr>timer := None, ret_block := retcode_value OS_DESTROYED, state := TASKSTATE_READY, task_queue := Some ReadyQ\<rparr>
      else if t = ?c \<and> owner (mtx s m) \<noteq> None then (task s t)\<lparr>prio_current := reset_prio s (remove1 m (M ?c))\<rparr> else task s t)"
    "task_current s1 = ?c" "sreg s1 = arch_dint (sreg s)" "isr_nesting s1 = 0" "waitqueue_current s1 = None" "sem s1 = sem s"
    "mtx s1 m = \<lparr>owner = None, recur = 0\<rparr>"
    using mtx_destroy_run [OF inv mi c(1) n c(2,3)] by blast
  have "(\<forall>u. chain_ends s1 u) \<and> prio_justified s1"
    by (rule release_keeps [OF inv mi ce pj c(3)]) (use s1(4) cq in \<open>auto simp: s1(5) split: if_splits\<close>)
  moreover have "prio_exact s1" if z
    by (rule release_exact [OF inv mi ex [OF that] c(3)]) (use s1(4,6,11) cq in \<open>auto simp: s1(5) split: if_splits\<close>)
  ultimately have "mutex_ok z (L - {MtxQ m}) s1"
    by (intro mutex_okI [OF s1(3)]) (use T in \<open>auto simp: suspended_def s1(5,6) split: if_splits\<close>)
  moreover have wt: "state (task s t) = TASKSTATE_WAIT" if "task_queue (task s t) = Some (MtxQ m)" for t
    using tko [of t] that by (simp add: task_ok_def)
  have "still True s True s1"
    by (rule stillI) (use cq wt in \<open>auto simp: s1(5,6,10) suspended_def split: if_splits\<close>)
  then have "tasks_ok True (L - {MtxQ m}) s1" by (rule still_keeps [OF tok _ tko]) simp
  moreover have "sems_ok s1" by (rule sems_mono [OF sm]) (auto simp: s1(5,10) split: if_splits)
  moreover have "owners_kept s s1" by (rule owners_kept_but [of m]) (use s1(4,11) c(3) in auto)
  ultimately show ?thesis
    using call_tail [OF s1(2) _ s1(8) disjI2 [OF refl] _ s1(9), of z s "sreg s" Void d] s1(1,7) by (simp add: world_ok_def)
qed

lemma mtx_create_call_ok:
  assumes ok: "sys_ok z True d L s" and g: "contract (MtxCreate m) L s"
  shows "call_ok z (MtxCreate m) d L s"
proof -
  obtain Q ts T M where inv: "kinv L Q ts s" and top: "sched_lock s = 0 \<and> \<not> d \<longrightarrow> top_runs Q s" and n: "isr_nesting s = 0"
    and tok: "tasks_ok True L s" and mi: "minv L T M s" and T: "\<And>t. alive s t \<Longrightarrow> t \<in> T" and ce: "\<And>t. chain_ends s t"
    and pj: "prio_justified s" and ex: "z \<Longrightarrow> prio_exact s" and cq: "task_queue (task s (task_current s)) = None"
    and tko: "\<And>t. task_ok (task s t)" and sm: "sems_ok s"
    using ok by (rule sys_worldE) blast
  have c: "MtxQ m \<notin> L" "waitqueue_current s = None" using g by auto
  obtain s' where s': "os_mtx_create m s = ok s'" "kinv (insert (MtxQ m) L) Q ts s'" "minv (insert (MtxQ m) L) T M s'" "task s' = task s"
    "task_current s' = task_current s" "isr_nesting s' = 0" "sched_lock s' = sched_lock s" "waitqueue_current s' = None" "sem s' = sem s"
    using mtx_create_result [OF inv mi c(1) n c(2)] by blast
  have own: "owner (mtx s' k) = owner (mtx s k)" for k by (rule owner_other [OF mi, where c = 0 and ms = "M 0"]) (use s'(3) in simp_all)
  have "chain_ends s' t" for t by (rule chain_ends_mono [OF ce]) (simp add: own s'(4))
  moreover have "prio_justified s'" using pj by (simp add: prio_justified_def own s'(4))
  moreover have "prio_exact s'" if z
    using ex [OF that] by (simp add: prio_exact_def prio_inherited_def owners_run_def active_def own s'(4,5))
  ultimately have "mutex_ok z (insert (MtxQ m) L) s'" by (intro mutex_okI [OF s'(3)]) (use T in \<open>auto simp: suspended_def s'(4,5)\<close>)
  moreover have "tasks_ok True (insert (MtxQ m) L) s'"
    by (rule still_keeps [OF tok still_same tko]) (simp_all add: s'(4,5,9))
  moreover have "sems_ok s'" by (rule sems_mono [OF sm]) (simp_all add: s'(4,9))
  ultimately have "sys_ok z True d (insert (MtxQ m) L) s'"
    by (intro sys_okI [OF s'(2)]) (use top s'(4-8) in \<open>auto simp: world_ok_def top_runs_def\<close>)
  then show ?thesis using s'(1) own by (simp add: owners_kept_def)
qed

section \<open>Locking\<close>

lemma bchain_pred:
  "bchain s (t # us) \<Longrightarrow> u \<in> set us \<Longrightarrow> \<exists>w \<in> set (t # us). waits_mtx s w \<and> blocker s w = Some u"
proof (induction us arbitrary: t)
  case (Cons v us)
  then show ?case by (cases "u = v") auto
qed simp

lemma bchain_mono:
  assumes "bchain s us" and "c \<notin> set us"
    and "\<And>t. t \<noteq> c \<Longrightarrow> waits_mtx s' t = waits_mtx s t" "\<And>t. t \<noteq> c \<Longrightarrow> blocker s' t = blocker s t"
  shows "bchain s' us"
  using assms(1,2)
proof (induction us)
  case (Cons t us)
  then show ?case using assms(3,4) by (cases us) auto
qed simp

lemma bchain_chain_ends: "kinv L Q ts s \<Longrightarrow> bchain s (t # us) \<Longrightarrow> chain_ends s t"
proof (induction us arbitrary: t)
  case Nil
  then show ?case using waits_mtx_iff [of L Q ts s t] by (intro chain_ends.free) auto
next
  case (Cons u us)
  obtain m where m: "task_queue (task s t) = Some (MtxQ m)" using waits_mtx_iff [OF Cons.prems(1)] Cons.prems(2) by auto
  moreover have "owner (mtx s m) = Some u" using Cons.prems(2) m by (simp add: blocker_def)
  moreover have "chain_ends s u" using Cons.IH [OF Cons.prems(1), of u] Cons.prems(2) by simp
  ultimately show ?case by (rule chain_ends.blocked)
qed

text \<open>Locking a mutex whose owner does not wait for the caller closes no cycle.\<close>

lemma lock_chain_ends:
  assumes inv: "kinv L Q ts s" "kinv L Q' ts' s'" and ce: "\<And>t. chain_ends s t" and nd: "no_deadlock m s"
    and o: "owner (mtx s m) = Some t" "t \<noteq> task_current s" and s': "mtx s' = mtx s"
      "task_queue (task s' (task_current s)) = Some (MtxQ m)"
      "\<forall>u k. u \<noteq> task_current s \<longrightarrow> task_queue (task s' u) = Some (MtxQ k) \<longleftrightarrow> task_queue (task s u) = Some (MtxQ k)"
  shows "chain_ends s' u"
proof -
  let ?c = "task_current s"
  obtain us where ch: "bchain s (t # us)" using chain_ends_bchain [OF inv(1) ce] by blast
  then have nc: "?c \<notin> set (t # us)" using nd o by (auto simp: no_deadlock_def)
  have w: "waits_mtx s' x = waits_mtx s x" if "x \<noteq> ?c" for x
    using waits_mtx_iff [OF inv(1), of x] waits_mtx_iff [OF inv(2), of x] s'(3) that by blast
  have b: "blocker s' x = blocker s x" if "x \<noteq> ?c" for x
  proof (cases "\<exists>k. task_queue (task s x) = Some (MtxQ k)")
    case True
    then obtain k where k: "task_queue (task s x) = Some (MtxQ k)" by blast
    then have "task_queue (task s' x) = Some (MtxQ k)" using s'(3) that by blast
    then show ?thesis using k s'(1) by (simp add: blocker_def)
  next
    case False
    then have "\<nexists>k. task_queue (task s' x) = Some (MtxQ k)" using s'(3) that by blast
    then show ?thesis using False by (auto simp: blocker_def split: option.splits qid.splits)
  qed
  have "chain_ends s' t" by (rule bchain_chain_ends [OF inv(2) bchain_mono [OF ch nc w b]])
  then show ?thesis
  proof (intro chain_ends_mono [OF ce])
    fix x k assume x: "task_queue (task s' x) = Some (MtxQ k)" and ct: "chain_ends s' t"
    show "task_queue (task s x) = Some (MtxQ k) \<and> owner (mtx s' k) = owner (mtx s k) \<or> (\<exists>v. owner (mtx s' k) = Some v \<and> chain_ends s' v)"
      using x ct s' o(1) by (cases "x = ?c") auto
  qed
qed

text \<open>The boost gives no task more than the priority of a task that waits for it.\<close>

lemma lock_justified:
  assumes inv: "kinv L Q ts s" and pj: "prio_justified s" and o: "owner (mtx s m) = Some t" and ch: "bchain s (t # us)"
    and pr: "pr = (\<lambda>u. if prio_current (task s t) < prio_current (task s (task_current s)) \<and> u \<in> set (t # us)
      then prio_current (task s (task_current s)) else prio_current (task s u))"
    and s': "mtx s' = mtx s" "task_queue (task s' (task_current s)) = Some (MtxQ m)"
      "\<forall>u k. u \<noteq> task_current s \<longrightarrow> task_queue (task s' u) = Some (MtxQ k) \<longleftrightarrow> task_queue (task s u) = Some (MtxQ k)"
      "\<forall>u. prio_current (task s' u) = pr u" "\<forall>u. prio_base (task s' u) = prio_base (task s u)"
  shows "prio_justified s'"
  unfolding prio_justified_def
proof
  let ?c = "task_current s" and ?p = "\<lambda>u. prio_current (task s u)"
  fix x
  have cq: "task_queue (task s ?c) = None" by (rule sched_invD(4) [OF kinvD(1) [OF inv]])
  have goal: "\<exists>k u. owner (mtx s' k) = Some x \<and> task_queue (task s' u) = Some (MtxQ k) \<and> prio_current (task s' x) \<le> prio_current (task s' u)"
    if "owner (mtx s k) = Some x" "task_queue (task s' u) = Some (MtxQ k)" "pr x \<le> pr u" for k u
    using that s'(1,4) by - (rule exI [of _ k], rule exI [of _ u], simp)
  have wq: "task_queue (task s' u) = Some (MtxQ k)" if "task_queue (task s u) = Some (MtxQ k)" for u k
    using that cq s'(3) by (cases "u = ?c") auto
  show "prio_current (task s' x) \<le> prio_base (task s' x) \<or> (\<exists>k u. owner (mtx s' k) = Some x \<and>
      task_queue (task s' u) = Some (MtxQ k) \<and> prio_current (task s' x) \<le> prio_current (task s' u))"
  proof (cases "?p t < ?p ?c \<and> x \<in> set (t # us)")
    case True
    show ?thesis
    proof (cases "x = t")
      case xt: True
      have "pr x \<le> pr ?c" using True by (simp add: pr)
      then show ?thesis using goal [OF _ s'(2)] o xt by blast
    next
      case False
      then obtain v where v: "v \<in> set (t # us)" "waits_mtx s v" "blocker s v = Some x" using bchain_pred [OF ch] True by auto
      then obtain k where k: "task_queue (task s v) = Some (MtxQ k)" using waits_mtx_iff [OF inv] by blast
      then have "owner (mtx s k) = Some x" using v(3) by (simp add: blocker_def)
      then show ?thesis using goal [OF _ wq [OF k]] True v(1) by (simp add: pr)
    qed
  next
    case False
    then have px: "pr x = ?p x" by (auto simp: pr)
    consider "?p x \<le> prio_base (task s x)" | k u where "owner (mtx s k) = Some x" "task_queue (task s u) = Some (MtxQ k)" "?p x \<le> ?p u"
      using pj unfolding prio_justified_def by blast
    then show ?thesis
    proof cases
      case 1
      then show ?thesis using s'(4,5) px by simp
    next
      case 2
      have "\<not> (?p t < ?p ?c \<and> u \<in> set (t # us))"
      proof
        assume a: "?p t < ?p ?c \<and> u \<in> set (t # us)"
        have "waits_mtx s u" "blocker s u = Some x" using waits_mtx_iff [OF inv, of u] 2(1,2) by (auto simp: blocker_def)
        then show False using bchain_closed [OF ch, of u] a False by auto
      qed
      then have "pr u = ?p u" by (auto simp: pr)
      then show ?thesis using goal [OF 2(1) wq [OF 2(2)]] 2(3) px by simp
    qed
  qed
qed

text \<open>If no ready task exceeds the caller, no task of the chain does, and the boost lowers none.\<close>

lemma chain_below:
  assumes inv: "kinv L Q ts s" and ex: "prio_exact s" and top: "top_runs Q s"
  shows "bchain s (t # us) \<Longrightarrow> task_current s \<notin> set (t # us) \<Longrightarrow> owner (mtx s m) = Some t \<Longrightarrow>
    \<forall>u \<in> set (t # us). prio_current (task s u) \<le> prio_current (task s (task_current s))"
proof (induction us arbitrary: t m)
  case Nil
  have "active s t \<or> (\<exists>k. task_queue (task s t) = Some (MtxQ k))" using ex Nil.prems(3) unfolding prio_exact_def owners_run_def by blast
  then have "task_queue (task s t) = Some ReadyQ" using Nil.prems(1,2) waits_mtx_iff [OF inv, of t] by (auto simp: active_def)
  then show ?case using top kinv_members [OF inv, of t ReadyQ] by (simp add: top_runs_def)
next
  case (Cons u us)
  obtain k where k: "task_queue (task s t) = Some (MtxQ k)" "owner (mtx s k) = Some u"
    using Cons.prems(1) waits_mtx_iff [OF inv, of t] by (auto simp: blocker_def)
  have ih: "\<forall>v \<in> set (u # us). prio_current (task s v) \<le> prio_current (task s (task_current s))"
    by (rule Cons.IH [OF _ _ k(2)]) (use Cons.prems(1,2) in auto)
  moreover have "prio_current (task s t) \<le> prio_current (task s u)" using ex k unfolding prio_exact_def prio_inherited_def by blast
  ultimately show ?case by auto
qed

lemma lock_exact:
  assumes inv: "kinv L Q ts s" and ex: "prio_exact s" and top: "top_runs Q s" and nd: "no_deadlock m s"
    and o: "owner (mtx s m) = Some t" "t \<noteq> task_current s" and ch: "bchain s (t # us)"
    and pr: "pr = (\<lambda>u. if prio_current (task s t) < prio_current (task s (task_current s)) \<and> u \<in> set (t # us)
      then prio_current (task s (task_current s)) else prio_current (task s u))"
    and s': "mtx s' = mtx s" "task_queue (task s' (task_current s)) = Some (MtxQ m)"
      "\<forall>u k. u \<noteq> task_current s \<longrightarrow> task_queue (task s' u) = Some (MtxQ k) \<longleftrightarrow> task_queue (task s u) = Some (MtxQ k)"
      "\<forall>u. prio_current (task s' u) = pr u" "\<forall>u. prio_base (task s' u) = prio_base (task s u)"
      "\<forall>u. task_queue (task s u) = Some ReadyQ \<longrightarrow> active s' u"
  shows "prio_exact s'"
proof -
  have nc: "task_current s \<notin> set (t # us)" using nd o ch by (auto simp: no_deadlock_def)
  have le: "\<forall>u \<in> set (t # us). prio_current (task s u) \<le> prio_current (task s (task_current s))"
    by (rule chain_below [OF inv ex top ch nc o(1)])
  have "prio_inherited s'"
    by (rule lock_inherits [OF inv _ o(1) ch _ pr s'(1,2,4,3)]) (use ex le in \<open>auto simp: prio_exact_def\<close>)
  moreover have "owners_run s'"
    unfolding owners_run_def
  proof (intro allI impI)
    fix k v assume "owner (mtx s' k) = Some v"
    then have "active s v \<or> (\<exists>k. task_queue (task s v) = Some (MtxQ k))" using ex s'(1) unfolding prio_exact_def owners_run_def by simp
    then show "active s' v \<or> (\<exists>k. task_queue (task s' v) = Some (MtxQ k))"
      using s'(2,3,6) by (cases "v = task_current s") (auto simp: active_def)
  qed
  moreover have "prio_base (task s' u) \<le> prio_current (task s' u)" for u
  proof -
    have "prio_current (task s u) \<le> pr u" using le by (auto simp: pr)
    moreover have "prio_base (task s u) \<le> prio_current (task s u)" using ex by (simp add: prio_exact_def)
    ultimately show ?thesis using s'(4,5) by (metis order_trans)
  qed
  ultimately show ?thesis by (simp add: prio_exact_def)
qed

lemma lock_free_ok:
  assumes ok: "sys_ok z True d L s" and g: "contract (MtxLock m) L s" and free: "owner (mtx s m) = None"
  shows "call_ok z (MtxLock m) d L s"
proof -
  obtain Q ts T M where inv: "kinv L Q ts s" and top: "sched_lock s = 0 \<and> \<not> d \<longrightarrow> top_runs Q s" and w: "world_ok z True L s" and n: "isr_nesting s = 0"
    and tok: "tasks_ok True L s" and mi: "minv L T M s" and T: "\<And>t. alive s t \<Longrightarrow> t \<in> T" and ce: "\<And>t. chain_ends s t"
    and pj: "prio_justified s" and ex: "z \<Longrightarrow> prio_exact s" and cq: "task_queue (task s (task_current s)) = None"
    and tko: "\<And>t. task_ok (task s t)" and sm: "sems_ok s"
    using ok by (rule sys_worldE) blast
  let ?c = "task_current s"
  have c: "task_current s \<noteq> task_idle" "waitqueue_current s = None" "MtxQ m \<in> L" "no_deadlock m s" using g by auto
  have cT: "?c \<in> T" by (rule T) (simp add: suspended_def)
  obtain h where s': "os_mtx_lock m s = ok (Return (Code OS_OK), s\<lparr>mxh := h, mtx := (mtx s)(m := \<lparr>owner = Some ?c, recur = 1\<rparr>)\<rparr>)"
    "kinv L Q ts (s\<lparr>mxh := h, mtx := (mtx s)(m := \<lparr>owner = Some ?c, recur = 1\<rparr>)\<rparr>)"
    "minv L T (M(?c := M ?c @ [m])) (s\<lparr>mxh := h, mtx := (mtx s)(m := \<lparr>owner = Some ?c, recur = 1\<rparr>)\<rparr>)"
    using lock_free [OF inv mi c(3) free cT n c(1,2)] by blast
  let ?s = "s\<lparr>mxh := h, mtx := (mtx s)(m := \<lparr>owner = Some ?c, recur = 1\<rparr>)\<rparr>"
  have nw: "task_queue (task s t) \<noteq> Some (MtxQ m)" for t using minvD(2) [OF mi, of t m] free by auto
  have "chain_ends ?s t" for t by (rule chain_ends_mono [OF ce]) (use nw in auto)
  moreover have "prio_justified ?s"
    using pj nw unfolding prio_justified_def by (simp, metis)
  moreover have "prio_exact ?s" if z
    using ex [OF that] nw by (auto simp: prio_exact_def prio_inherited_def owners_run_def active_def)
  ultimately have "mutex_ok z L ?s" by (intro mutex_okI [OF s'(3)]) (use T in \<open>auto simp: suspended_def\<close>)
  moreover have "tasks_ok True L ?s" by (rule still_keeps [OF tok still_same tko]) simp_all
  moreover have "sems_ok ?s" by (rule sems_mono [OF sm]) simp_all
  ultimately have "sys_ok z True d L ?s" by (intro sys_okI [OF s'(2)]) (use top n c(2) in \<open>auto simp: world_ok_def top_runs_def\<close>)
  then show ?thesis using s'(1) free by (simp add: owners_kept_def)
qed

lemma lock_blocks_ok:
  assumes ok: "sys_ok z True d L s" and g: "contract (MtxLock m) L s" and wait: "owner (mtx s m) = Some t" "t \<noteq> task_current s"
  shows "call_ok z (MtxLock m) d L s"
proof -
  obtain Q ts T M where inv: "kinv L Q ts s" and top: "sched_lock s = 0 \<and> \<not> d \<longrightarrow> top_runs Q s" and w: "world_ok z True L s" and n: "isr_nesting s = 0"
    and tok: "tasks_ok True L s" and mi: "minv L T M s" and T: "\<And>t. alive s t \<Longrightarrow> t \<in> T" and ce: "\<And>t. chain_ends s t"
    and pj: "prio_justified s" and ex: "z \<Longrightarrow> prio_exact s" and cq: "task_queue (task s (task_current s)) = None"
    and tko: "\<And>t. task_ok (task s t)" and sm: "sems_ok s"
    using ok by (rule sys_worldE) blast
  let ?c = "task_current s"
  have c: "task_current s \<noteq> task_idle" "waitqueue_current s = None" "MtxQ m \<in> L" "no_deadlock m s" using g by auto
  have cT: "?c \<in> T" by (rule T) (simp add: suspended_def)
  obtain us where ch: "bchain s (t # us)" using chain_ends_bchain [OF inv ce] by blast
  define pr where "pr = (\<lambda>u. if prio_current (task s t) < prio_current (task s ?c) \<and> u \<in> set (t # us)
    then prio_current (task s ?c) else prio_current (task s u))"
  obtain s' Q' where s': "os_mtx_lock m s = ok (Switched, s')" "kinv L Q' ts s'" "minv L T M s'" "mtx s' = mtx s"
    "task_queue (task s' ?c) = Some (MtxQ m)" "\<forall>u. prio_current (task s' u) = pr u"
    "\<forall>u k. u \<noteq> ?c \<longrightarrow> task_queue (task s' u) = Some (MtxQ k) \<longleftrightarrow> task_queue (task s u) = Some (MtxQ k)"
    "task s' = (\<lambda>u. if u = ?c
      then (task s u)\<lparr>prio_current := pr u, state := TASKSTATE_WAIT, block_type := OS_TASKBLOCK_MTX,
        task_queue := Some (MtxQ m), ctx_kont := K_MtxLock (sreg s)\<rparr>
      else if u = task_current s' then (task s u)\<lparr>prio_current := pr u, task_queue := None\<rparr>
      else (task s u)\<lparr>prio_current := pr u\<rparr>)"
    "task_queue (task s (task_current s')) = Some ReadyQ" "core_frame s s'"
    "\<forall>u \<in> set (ready Q'). prio_current (task s' u) \<le> prio_current (task s' (task_current s'))"
    using lock_blocks [OF inv mi c(3) cT world_cur(1) [OF w] n c(1,2) wait ch pr_def] by blast
  have ne: "task_current s' \<noteq> ?c" using s'(9) cq by auto
  have "prio_justified s'"
    by (rule lock_justified [OF inv pj wait(1) ch pr_def s'(4,5,7,6)]) (simp add: s'(8))
  moreover have "prio_exact s'" if st: "strict_after (MtxLock m) s d z"
  proof -
    have "top_runs Q s" "prio_exact s" using top ex st wait by auto
    then show ?thesis
      by (intro lock_exact [OF inv _ _ c(4) wait ch pr_def s'(4,5,7,6)]) (use cq in \<open>auto simp: s'(8) active_def\<close>)
  qed
  ultimately have "mutex_ok (strict_after (MtxLock m) s d z) L s'"
    using lock_chain_ends [OF inv s'(2) ce c(4) wait s'(4,5,7)] T s'(9)
    by (intro mutex_okI [OF s'(3)]) (auto simp: suspended_def s'(8) split: if_splits)
  moreover have "plain (task s' ?c)" using world_cur(1) [OF w] by (simp add: s'(8) plain_def)
  then have "still True s False s'"
    by (intro stillI) (use cq ne s'(9,10) world_cur(2) [OF w] in \<open>auto simp: s'(8) suspended_def core_frame_def split: if_splits\<close>)
  then have "tasks_ok False L s'" by (rule still_keeps [OF tok _ tko]) simp
  moreover have "sems_ok s'" by (rule sems_mono [OF sm]) (use s'(10) in \<open>auto simp: s'(8) core_frame_def split: if_splits\<close>)
  ultimately have "sys_ok (strict_after (MtxLock m) s d z) False d L s'"
    by (intro sys_okI [OF s'(2)]) (use s'(10,11) n c(2) in \<open>auto simp: world_ok_def top_runs_def core_frame_def\<close>)
  then show ?thesis using s'(1,4) by simp
qed

lemma mtx_lock_call_ok:
  assumes ok: "sys_ok z True d L s" and g: "contract (MtxLock m) L s"
  shows "call_ok z (MtxLock m) d L s"
proof (cases "owner (mtx s m) = Some (task_current s)")
  case True
  have c: "isr_nesting s = 0" "task_current s \<noteq> task_idle" "waitqueue_current s = None" using ok g by (auto elim: sys_okE)
  show ?thesis using lock_own [OF c True] recur_keeps [OF ok c(3), of "\<lambda>k. k\<lparr>recur := recur k + 1\<rparr>" m] True
    by (simp add: owners_kept_def upd_mtx_def)
next
  case False
  then show ?thesis using lock_free_ok [OF assms] lock_blocks_ok [OF assms] by (cases "owner (mtx s m)") auto
qed

section \<open>The end of a task\<close>

lemma distinct_single: "distinct xs \<Longrightarrow> set xs = {c} \<Longrightarrow> xs = [c]"
  by (cases xs; cases "tl xs") auto

text \<open>The task that waits for the running one in \<open>os_task_join\<close>.\<close>

lemma joiner_waits:
  assumes inv: "kinv L Q ts s" and ok: "tasks_ok True L s" and m: "join_sem (task s (task_current s)) = Some m"
  shows "\<exists>c r r'. m = JoinSem c \<and> join_q c \<in> L \<and> flat (Q (join_q c)) = [c] \<and> sem_value (sem s m) = 0 \<and>
    ctx_kont (task s c) = K_JoinDown r r' (task_current s) \<and> timer (task s c) = None"
proof -
  obtain c where c: "m = JoinSem c" "suspended True s c" "joins (ctx_kont (task s c)) = Some (task_current s)"
    using joins_okD(1) [OF tasks_okD(4) [OF ok] m] by blast
  note k = tasks_okD(1) [OF ok c(2)] and nd = tasks_okD(3) [OF ok]
  have "\<exists>r r'. ctx_kont (task s c) = K_JoinDown r r' (task_current s)"
    using c(3) k nd by (cases "ctx_kont (task s c)") (auto simp: kont_ok_def)
  then obtain r r' where kc: "ctx_kont (task s c) = K_JoinDown r r' (task_current s)" by blast
  have f: "timer (task s c) = None" "join_q c \<in> L" "sem_value (sem s (JoinSem c)) = 0" "task_queue (task s c) = Some (join_q c)"
    using k nd by (auto simp: kont_ok_def kc)
  have "set (flat (Q (join_q c))) = {c}"
    using kinv_members [OF inv, of _ "join_q c"] joins_okD(4) [OF tasks_okD(4) [OF ok], of _ c] f(4) by auto
  then have "flat (Q (join_q c)) = [c]" by (rule distinct_single [OF flat_distinct [OF inv f(2)]])
  then show ?thesis using c(1) kc f by blast
qed

lemma exit_tasks:
  assumes ok: "tasks_ok True L s" and tko: "\<And>t. task_ok (task s t)" and cq: "task_queue (task s (task_current s)) = None"
    and tk: "\<And>t. task s' t = (if t = task_current s then (task s t)\<lparr>ret_block := retv, state := TASKSTATE_DESTROYED, ctx_kont := K_Exit\<rparr>
      else (let k = (if join_sem (task s (task_current s)) = Some (JoinSem t)
          then (task s t)\<lparr>timer := None, ret_block := retcode_value OS_OK, state := TASKSTATE_READY, task_queue := Some ReadyQ\<rparr>
          else task s t) in if t = h then k\<lparr>task_queue := None\<rparr> else k))"
    and f: "task_current s' = h" "sem s' = sem s" "h \<noteq> task_current s"
    and h: "task_queue (task s h) = Some ReadyQ \<or> join_sem (task s (task_current s)) = Some (JoinSem h)"
    and jq: "\<And>j. join_sem (task s (task_current s)) = Some (JoinSem j) \<Longrightarrow>
      task_queue (task s j) = Some (join_q j) \<and> join_q j \<in> L \<and> sem_value (sem s (JoinSem j)) = 0 \<and> timer (task s j) = None \<and>
      (\<exists>r r'. ctx_kont (task s j) = K_JoinDown r r' (task_current s))"
  shows "tasks_ok False L s'"
proof -
  let ?c = "task_current s"
  note j = joins_okD [OF tasks_okD(4) [OF ok]]
  have sus: "suspended False s' x \<longleftrightarrow> suspended True s x" for x
    using cq h jq [of x] f(3) by (auto simp: suspended_def f(1) tk Let_def)
  have js: "join_sem (task s' t) = join_sem (task s t)" for t by (simp add: tk Let_def)
  have ks: "ctx_kont (task s' t) = ctx_kont (task s t)" if "t \<noteq> ?c" for t using that by (simp add: tk Let_def)
  have nc: "x \<noteq> ?c" if "suspended True s x" for x using that cq by (auto simp: suspended_def)
  have wt: "state (task s x) = TASKSTATE_WAIT" if "join_sem (task s ?c) = Some (JoinSem x)" for x
    using jq [OF that] tko [of x] by (auto simp: task_ok_def)
  have ds: "state (task s' t) = TASKSTATE_DESTROYED" if "state (task s t) = TASKSTATE_DESTROYED" for t
    using that wt [of t] by (auto simp: tk Let_def)
  have "kont_ok L s' x" if "suspended False s' x" for x
  proof (cases "join_sem (task s ?c) = Some (JoinSem x)")
    case True
    have xc: "x \<noteq> ?c" using jq [OF True] cq by auto
    obtain r r' where "ctx_kont (task s x) = K_JoinDown r r' ?c" using jq [OF True] by blast
    moreover have "timer (task s' x) = None" "ret_block (task s' x) = retcode_value OS_OK" "task_queue (task s' x) \<in> {None, Some ReadyQ}"
      using True xc by (simp_all add: tk Let_def)
    moreover have "state (task s' ?c) = TASKSTATE_DESTROYED" by (simp add: tk)
    ultimately show ?thesis using jq [OF True] True by (simp add: kont_ok_def ks [OF xc] js f(2))
  next
    case False
    have x: "suspended True s x" "x \<noteq> ?c" using that sus nc by auto
    have tx: "timer (task s' x) = timer (task s x)" "ret_block (task s' x) = ret_block (task s x)"
      "task_queue (task s' x) = (if x = h then None else task_queue (task s x))" using False x(2) by (simp_all add: tk Let_def)
    have xh: "task_queue (task s h) = Some ReadyQ" if "x = h" using h False that by simp
    show ?thesis
      by (rule kont_ok_keeps [OF tasks_okD(1) [OF ok x(1)]]) (use ds xh in \<open>auto simp: ks [OF x(2)] js f(2) tx\<close>)
  qed
  moreover have "state (task s' h) \<noteq> TASKSTATE_DESTROYED"
    using h tko [of h] f(3) by (auto simp: tk Let_def task_ok_def)
  moreover have "joins_ok False L s'"
  proof (rule joins_okI)
    fix t m assume "join_sem (task s' t) = Some m"
    then obtain x where "m = JoinSem x" "suspended True s x" "joins (ctx_kont (task s x)) = Some t" using j(1) js by metis
    then show "\<exists>x. m = JoinSem x \<and> suspended False s' x \<and> joins (ctx_kont (task s' x)) = Some t" using sus nc ks by auto
  next
    fix x assume "join_q x \<in> L"
    then show "suspended False s' x" "\<exists>r r' t. ctx_kont (task s' x) = K_JoinDown r r' t"
      using j(2,3) [of x] sus nc ks by auto
  next
    fix t x assume "task_queue (task s' t) = Some (join_q x)"
    then show "t = x" using j(4) by (auto simp: tk Let_def split: if_splits)
  qed
  ultimately show ?thesis by (simp add: tasks_ok_def f(1))
qed

text \<open>The task that runs after an exit: the first of the ready tasks and, if there is one, the joining task.\<close>

lemma exit_next:
  assumes inv: "kinv L Q ts s" and c: "task_current s \<noteq> task_idle"
    and jn: "\<And>j. j \<in> set (joiners Q s) \<longleftrightarrow> join_sem (task s (task_current s)) = Some (JoinSem j)"
    and rd: "rd = fold (prio_insert (\<lambda>t. prio_current (task s t))) (joiners Q s) (ready Q)"
  shows "rd \<noteq> []" and "task_queue (task s (hd rd)) = Some ReadyQ \<or> join_sem (task s (task_current s)) = Some (JoinSem (hd rd))"
    and "\<forall>u \<in> set (tl rd). prio_current (task s u) \<le> prio_current (task s (hd rd))"
proof -
  have set: "set rd = set (joiners Q s) \<union> set (ready Q)" unfolding rd by (rule set_fold_prio_insert)
  show ne: "rd \<noteq> []" using ready_nonempty(2) [OF kinvD(1) [OF inv] c] set by (cases rd) simp_all
  have "hd rd \<in> set (joiners Q s) \<union> set (ready Q)" using set hd_in_set [OF ne] by simp
  then show "task_queue (task s (hd rd)) = Some ReadyQ \<or> join_sem (task s (task_current s)) = Some (JoinSem (hd rd))"
    using jn kinv_members [OF inv, of "hd rd" ReadyQ] by auto
  have "prio_sorted (\<lambda>t. prio_current (task s t)) rd"
    unfolding rd by (rule fold_prio_insert_sorted [OF flat_sorted [OF sched_invD(1) [OF kinvD(1) [OF inv]]]])
  then show "\<forall>u \<in> set (tl rd). prio_current (task s u) \<le> prio_current (task s (hd rd))"
    using ne by (cases rd) (auto simp: prio_sorted_def)
qed

lemma exit_mutexes:
  assumes w: "world_ok z True L s" and cq: "task_queue (task s (task_current s)) = None"
    and tk: "\<And>t. task s' t = (if t = task_current s then (task s t)\<lparr>ret_block := retv, state := TASKSTATE_DESTROYED, ctx_kont := K_Exit\<rparr>
      else (let k = (if join_sem (task s (task_current s)) = Some (JoinSem t)
          then (task s t)\<lparr>timer := None, ret_block := retcode_value OS_OK, state := TASKSTATE_READY, task_queue := Some ReadyQ\<rparr>
          else task s t) in if t = h then k\<lparr>task_queue := None\<rparr> else k))"
    and f: "task_current s' = h" "h \<noteq> task_current s" "mxh s' = mxh s" "mtx s' = mtx s"
    and h: "task_queue (task s h) = Some ReadyQ \<or> join_sem (task s (task_current s)) = Some (JoinSem h)"
    and jq: "\<And>j. join_sem (task s (task_current s)) = Some (JoinSem j) \<Longrightarrow>
      task_queue (task s j) = Some (join_q j) \<and> join_q j \<in> L \<and> sem_value (sem s (JoinSem j)) = 0 \<and> timer (task s j) = None \<and>
      (\<exists>r r'. ctx_kont (task s j) = K_JoinDown r r' (task_current s))"
  shows "mutex_ok (strict_after (TaskExit retv) s d z) L s'"
proof -
  let ?c = "task_current s"
  have mok: "mutex_ok z L s" using w by (simp add: world_ok_def)
  have tq: "task_queue (task s' t) = Some (MtxQ m) \<longleftrightarrow> task_queue (task s t) = Some (MtxQ m)" for t m
  proof (cases "join_sem (task s ?c) = Some (JoinSem t)")
    case True
    then show ?thesis using jq [OF True] cq by (simp add: tk Let_def)
  next
    case False
    then show ?thesis using h cq by (cases "t = h") (auto simp: tk)
  qed
  have al: "alive s t" if "alive s' t" for t
  proof (cases "join_sem (task s ?c) = Some (JoinSem t)")
    case True
    then show ?thesis using jq [OF True] by (simp add: suspended_def)
  next
    case False
    then show ?thesis using that h cq by (cases "t = h") (auto simp: tk f suspended_def split: if_splits)
  qed
  have "mtx_still s s'"
    unfolding mtx_still_def using al by (simp add: f tq) (simp add: tk Let_def)
  then show ?thesis
  proof (rule mtx_still_keeps [OF mok])
    show "z \<and> owners_stay s s'" if st: "strict_after (TaskExit retv) s d z"
    proof -
      have "owner (mtx s m) \<noteq> Some ?c" for m by (rule may_block_owns [OF w]) (use st in simp)
      then have "owners_stay s s'" unfolding owners_stay_def active_def by (auto simp: tk f(1) Let_def)
      then show ?thesis using st by simp
    qed
  qed simp
qed

lemma exit_call_ok:
  assumes ok: "sys_ok z True d L s" and g: "contract (TaskExit retv) L s"
  shows "call_ok z (TaskExit retv) d L s"
proof -
  obtain Q ts where inv: "kinv L Q ts s" and w: "world_ok z True L s" and n: "isr_nesting s = 0"
    and tok: "tasks_ok True L s" and cq: "task_queue (task s (task_current s)) = None" and tko: "\<And>t. task_ok (task s t)" and sm: "sems_ok s"
    using ok by (rule sys_worldE) blast
  let ?c = "task_current s" and ?rd = "fold (prio_insert (\<lambda>t. prio_current (task s t))) (joiners Q s) (ready Q)"
  have c: "?c \<noteq> task_idle" "waitqueue_current s = None" using g by auto
  have jn: "j \<in> set (joiners Q s) \<longleftrightarrow> join_sem (task s ?c) = Some (JoinSem j)" for j
    using joiner_waits [OF inv tok] by (cases "join_sem (task s ?c)") (auto simp: joiners_def)
  have jq: "task_queue (task s j) = Some (join_q j) \<and> join_q j \<in> L \<and> sem_value (sem s (JoinSem j)) = 0 \<and> timer (task s j) = None \<and>
      (\<exists>r r'. ctx_kont (task s j) = K_JoinDown r r' ?c)" if "join_sem (task s ?c) = Some (JoinSem j)" for j
    using joiner_waits [OF inv tok that] kinv_members [OF inv, of j "join_q j"] by auto
  note next_task = exit_next [OF inv c(1) jn refl]
  have "joinable L Q s"
    unfolding joinable_def using joiner_waits [OF inv tok] n c(2) by (fastforce simp: ARCH_ATOMIC_MAX_def)
  then obtain s' Q' ts' where s': "os_task_exit retv s = ok (Switched, s')" "kinv L Q' ts' s'" "core_frame s s'"
    "task_current s' = hd ?rd" "ready Q' = tl ?rd" "hd ?rd \<noteq> ?c"
    "task s' = (\<lambda>t. if t = ?c
       then (task s t)\<lparr>ret_block := retv, state := TASKSTATE_DESTROYED, ctx_kont := K_Exit\<rparr>
       else (let k = (if t \<in> set (joiners Q s)
          then (task s t)\<lparr>timer := None, ret_block := retcode_value OS_OK, state := TASKSTATE_READY, task_queue := Some ReadyQ\<rparr>
          else task s t) in if t = hd ?rd then k\<lparr>task_queue := None\<rparr> else k))"
    using exit_result [OF inv c(1) _ refl, of retv] by blast
  define h where "h = hd ?rd"
  have tk: "task s' t = (if t = task_current s then (task s t)\<lparr>ret_block := retv, state := TASKSTATE_DESTROYED, ctx_kont := K_Exit\<rparr>
      else (let k = (if join_sem (task s (task_current s)) = Some (JoinSem t)
          then (task s t)\<lparr>timer := None, ret_block := retcode_value OS_OK, state := TASKSTATE_READY, task_queue := Some ReadyQ\<rparr>
          else task s t) in if t = h then k\<lparr>task_queue := None\<rparr> else k))" for t
    by (simp add: s'(7) jn h_def)
  have f: "task_current s' = h" "h \<noteq> ?c" "sem s' = sem s" "mxh s' = mxh s" "mtx s' = mtx s"
    using s'(3,4,6) by (simp_all add: core_frame_def h_def)
  have h: "task_queue (task s h) = Some ReadyQ \<or> join_sem (task s (task_current s)) = Some (JoinSem h)" unfolding h_def by (rule next_task(2))
  have "tasks_ok False L s'" by (rule exit_tasks [OF tok tko cq tk f(1,3,2) h jq])
  moreover have "mutex_ok (strict_after (TaskExit retv) s d z) L s'" by (rule exit_mutexes [OF w cq tk f(1,2,4,5) h jq])
  moreover have "prio_current (task s' t) = prio_current (task s t)" for t by (simp add: tk Let_def)
  then have "top_runs Q' s'" using next_task(3) by (simp add: top_runs_def s'(4,5))
  moreover have "sems_ok s'" by (rule sems_mono [OF sm]) (auto simp: tk f(3) Let_def split: if_splits)
  ultimately have "sys_ok (strict_after (TaskExit retv) s d z) False d L s'"
    by (intro sys_okI [OF s'(2)]) (use s'(3) n c(2) in \<open>auto simp: world_ok_def core_frame_def\<close>)
  then show ?thesis using s'(1) f(5) by simp
qed

section \<open>Joining a task\<close>

text \<open>The current task is back in its own code (\<open>run'\<close>), or between the two places of \<open>os_task_join\<close>; a task that it
  waited for, or that had finished before, is joined.\<close>

lemma back_tasks:
  assumes ok: "tasks_ok run L s" and tko: "\<And>t. task_ok (task s t)"
    and q: "task_queue (task s (task_current s)) = None" "task_queue (task s' (task_current s)) = None"
    and f: "task_current s' = task_current s" "run' \<Longrightarrow> timer (task s' (task_current s)) = None"
      "state (task s' (task_current s)) \<noteq> TASKSTATE_DESTROYED" "join_sem (task s' (task_current s)) = join_sem (task s (task_current s))"
    and o: "\<And>x. x \<noteq> task_current s \<Longrightarrow> task s' x = task s x \<or> state (task s x) = TASKSTATE_DESTROYED \<and>
      task_queue (task s' x) = None \<and> join_sem (task s' x) = None \<and> join_sem (task s x) \<in> {None, Some (JoinSem (task_current s))}"
    and j: "\<And>u. \<not> run \<Longrightarrow> joins (ctx_kont (task s (task_current s))) = Some u \<Longrightarrow>
      join_sem (task s' u) = None \<or> \<not> run' \<and> joins (ctx_kont (task s' (task_current s))) = Some u"
    and k: "\<not> run' \<Longrightarrow> kont_ok L' s' (task_current s)"
    and sm: "\<And>x. x \<noteq> task_current s \<Longrightarrow> sem s' (JoinSem x) = sem s (JoinSem x)"
    and L: "\<And>x. x \<noteq> task_current s \<Longrightarrow> join_q x \<in> L' \<longleftrightarrow> join_q x \<in> L" "join_q (task_current s) \<notin> L'"
  shows "tasks_ok run' L' s'"
proof -
  let ?c = "task_current s"
  note J = joins_okD [OF tasks_okD(4) [OF ok]]
  have dq: "task_queue (task s x) = None" if "state (task s x) = TASKSTATE_DESTROYED" for x
    using that tko [of x] by (cases "task_queue (task s x)") (auto simp: task_ok_def split: if_splits)
  have sus: "suspended run' s' x \<longleftrightarrow> (if x = ?c then \<not> run' else suspended run s x)" for x
    using q o [of x] dq [of x] f(1) by (cases "x = ?c") (auto simp: suspended_def)
  have same: "task s' x = task s x" if "suspended run s x" "x \<noteq> ?c" for x
    using o [OF that(2)] dq [of x] that by (auto simp: suspended_def)
  have jc: "join_sem (task s' u) = Some (JoinSem x)" if "join_sem (task s u) = Some (JoinSem x)" "x \<noteq> ?c" for u x
    using o [of u] f(4) that by (cases "u = ?c") auto
  have "kont_ok L' s' x" if "suspended run' s' x" for x
  proof (cases "x = ?c")
    case False
    then have x: "suspended run s x" "x \<noteq> ?c" "task s' x = task s x" using that sus [of x] same by auto
    have "join_sem (task s' u) = Some (JoinSem x) \<and> (state (task s u) = TASKSTATE_DESTROYED \<longrightarrow> state (task s' u) = TASKSTATE_DESTROYED)"
      if "join_sem (task s u) = Some (JoinSem x)" for u
      using jc [OF that x(2)] o [of u] that x(2) tasks_okD(3) [OF ok] by (cases "u = ?c") auto
    then show ?thesis
      by (intro kont_ok_keeps [OF tasks_okD(1) [OF ok x(1)]]) (simp_all add: x(3) sm [OF x(2)] L(1) [OF x(2)])
  qed (use k that sus in simp)
  moreover have "joins_ok run' L' s'"
  proof (rule joins_okI)
    fix u m assume m: "join_sem (task s' u) = Some m"
    then have "join_sem (task s u) = Some m" using o [of u] f(4) by (cases "u = ?c") auto
    then obtain x where x: "m = JoinSem x" "suspended run s x" "joins (ctx_kont (task s x)) = Some u" using J(1) by blast
    have "\<not> run' \<and> joins (ctx_kont (task s' ?c)) = Some u" if "x = ?c" using j [of u] x m q(1) that by (auto simp: suspended_def)
    then show "\<exists>x. m = JoinSem x \<and> suspended run' s' x \<and> joins (ctx_kont (task s' x)) = Some u"
      using x same by (intro exI [of _ x]) (auto simp: sus)
  next
    fix x assume x: "join_q x \<in> L'"
    then have "x \<noteq> ?c" using L(2) by auto
    then show "suspended run' s' x" "\<exists>r r' t. ctx_kont (task s' x) = K_JoinDown r r' t"
      using x L(1) J(2,3) [of x] sus same by auto
  next
    fix u x assume u: "task_queue (task s' u) = Some (join_q x)"
    then have "u \<noteq> ?c" using q(2) by auto
    then show "u = x" using u o [of u] J(4) by auto
  qed
  ultimately show ?thesis using f(1-3) by (simp add: tasks_ok_def)
qed

lemma back_mutexes:
  assumes ok: "mutex_ok z L s" and m: "mxh s' = mxh s" "mtx s' = mtx s" "task_current s' = task_current s"
    and tk: "\<And>t. prio_base (task s' t) = prio_base (task s t) \<and> prio_current (task s' t) = prio_current (task s t) \<and>
      task_queue (task s' t) = task_queue (task s t) \<and> timer (task s' t) \<in> {None, timer (task s t)}"
    and L: "\<And>m. MtxQ m \<in> L \<Longrightarrow> MtxQ m \<in> L'"
  shows "mutex_ok z L' s'"
  by (rule mtx_still_keeps [OF ok _ _ L]) (use m tk in \<open>auto simp: mtx_still_def owners_stay_def active_def suspended_def\<close>)

lemma join_joins:
  assumes ok: "tasks_ok True L s" and tko: "\<And>t. task_ok (task s t)" and cq: "task_queue (task s (task_current s)) = None"
    and t: "t \<noteq> task_current s" "join_sem (task s t) = None"
    and h: "task_queue (task s h) = Some ReadyQ" and tk0: "tk = (task s)(t := (task s t)\<lparr>join_sem := Some (JoinSem (task_current s))\<rparr>)"
    and tk: "task s' = tk(h := (tk h)\<lparr>task_queue := None\<rparr>,
      task_current s := (tk (task_current s))\<lparr>timer := None, state := TASKSTATE_WAIT, block_type := OS_TASKBLOCK_SEM,
        task_queue := Some (join_q (task_current s)), ctx_kont := K_JoinDown r r' t\<rparr>)"
    and f: "task_current s' = h" "sem s' = (sem s)(JoinSem (task_current s) := \<lparr>sem_value = 0\<rparr>)"
  shows "joins_ok False (insert (join_q (task_current s)) L) s'"
proof -
  let ?c = "task_current s"
  note J = joins_okD [OF tasks_okD(4) [OF ok]]
  have hc: "h \<noteq> ?c" using h cq by auto
  have c': "task s' ?c = (task s ?c)\<lparr>timer := None, state := TASKSTATE_WAIT, block_type := OS_TASKBLOCK_SEM,
      task_queue := Some (join_q ?c), ctx_kont := K_JoinDown r r' t\<rparr>"
    using t(1) by (simp add: tk tk0)
  have o: "task s' x = (task s x)\<lparr>join_sem := (if x = t then Some (JoinSem ?c) else join_sem (task s x)),
      task_queue := (if x = h then None else task_queue (task s x))\<rparr>" if "x \<noteq> ?c" for x
    using that by (simp add: tk tk0)
  have js: "join_sem (task s' x) = (if x = t then Some (JoinSem ?c) else join_sem (task s x))" for x
    using o [of x] c' t(1) by (cases "x = ?c") simp_all
  have sus: "suspended False s' x \<longleftrightarrow> suspended True s x \<or> x = ?c" for x
    using o [of x] c' h by (cases "x = ?c") (auto simp: suspended_def f(1))
  have nc: "x \<noteq> ?c" if "suspended True s x" for x using that cq by (auto simp: suspended_def)
  show ?thesis
  proof (rule joins_okI)
    fix u m assume m: "join_sem (task s' u) = Some m"
    show "\<exists>x. m = JoinSem x \<and> suspended False s' x \<and> joins (ctx_kont (task s' x)) = Some u"
    proof (cases "u = t")
      case True
      then show ?thesis using m by (intro exI [of _ ?c]) (simp add: js sus c')
    next
      case False
      then obtain x where x: "m = JoinSem x" "suspended True s x" "joins (ctx_kont (task s x)) = Some u" using m js J(1) by metis
      then show ?thesis using o [OF nc [OF x(2)]] by (intro exI [of _ x]) (simp add: sus)
    qed
  next
    fix x assume "join_q x \<in> insert (join_q ?c) L"
    then show "suspended False s' x" "\<exists>r r' t. ctx_kont (task s' x) = K_JoinDown r r' t"
      using J(2,3) [of x] nc [of x] o [of x] c' by (auto simp: sus)
  next
    fix u x assume "task_queue (task s' u) = Some (join_q x)"
    then show "u = x" using J(4) o [of u] c' by (cases "u = ?c") (auto split: if_splits)
  qed
qed

lemma join_tasks:
  assumes ok: "tasks_ok True L s" and tko: "\<And>t. task_ok (task s t)" and cq: "task_queue (task s (task_current s)) = None"
    and t: "t \<noteq> task_current s" "join_sem (task s t) = None"
    and h: "task_queue (task s h) = Some ReadyQ" and tk0: "tk = (task s)(t := (task s t)\<lparr>join_sem := Some (JoinSem (task_current s))\<rparr>)"
    and tk: "task s' = tk(h := (tk h)\<lparr>task_queue := None\<rparr>,
      task_current s := (tk (task_current s))\<lparr>timer := None, state := TASKSTATE_WAIT, block_type := OS_TASKBLOCK_SEM,
        task_queue := Some (join_q (task_current s)), ctx_kont := K_JoinDown r r' t\<rparr>)"
    and f: "task_current s' = h" "sem s' = (sem s)(JoinSem (task_current s) := \<lparr>sem_value = 0\<rparr>)"
  shows "tasks_ok False (insert (join_q (task_current s)) L) s'"
proof -
  let ?c = "task_current s"
  note J = joins_okD [OF tasks_okD(4) [OF ok]]
  have hc: "h \<noteq> ?c" using h cq by auto
  have c': "task s' ?c = (task s ?c)\<lparr>timer := None, state := TASKSTATE_WAIT, block_type := OS_TASKBLOCK_SEM,
      task_queue := Some (join_q ?c), ctx_kont := K_JoinDown r r' t\<rparr>"
    using t(1) by (simp add: tk tk0)
  have o: "task s' x = (task s x)\<lparr>join_sem := (if x = t then Some (JoinSem ?c) else join_sem (task s x)),
      task_queue := (if x = h then None else task_queue (task s x))\<rparr>" if "x \<noteq> ?c" for x
    using that by (simp add: tk tk0)
  have js: "join_sem (task s' x) = (if x = t then Some (JoinSem ?c) else join_sem (task s x))" for x
    using o [of x] c' t(1) by (cases "x = ?c") simp_all
  have sus: "suspended False s' x \<longleftrightarrow> suspended True s x \<or> x = ?c" for x
    using o [of x] c' h by (cases "x = ?c") (auto simp: suspended_def f(1))
  have nc: "x \<noteq> ?c" if "suspended True s x" for x using that cq by (auto simp: suspended_def)
  have "kont_ok (insert (join_q ?c) L) s' x" if "suspended False s' x" for x
  proof (cases "x = ?c")
    case True
    then show ?thesis by (simp add: kont_ok_def c' js f(2))
  next
    case False
    then have x: "suspended True s x" using that sus by blast
    have "join_sem (task s' u) = Some (JoinSem x) \<and> (state (task s u) = TASKSTATE_DESTROYED \<longrightarrow> state (task s' u) = TASKSTATE_DESTROYED)"
      if "join_sem (task s u) = Some (JoinSem x)" for u
      using that t(2) o [of u] tasks_okD(3) [OF ok] by (cases "u = ?c") (auto simp: js)
    then show ?thesis
      by (intro kont_ok_keeps [OF tasks_okD(1) [OF ok x]]) (use h in \<open>auto simp: o [OF False] f(2) False\<close>)
  qed
  moreover have "state (task s' h) \<noteq> TASKSTATE_DESTROYED" using tko [of h] h by (auto simp: o [OF hc] task_ok_def)
  moreover have "joins_ok False (insert (join_q ?c) L) s'" by (rule join_joins [OF assms])
  ultimately show ?thesis by (simp add: tasks_ok_def f(1))
qed

lemma join_ended_ok:
  assumes ok: "sys_ok z True d L s" and g: "contract (TaskJoin t) L s" and st: "state (task s t) = TASKSTATE_DESTROYED"
  shows "call_ok z (TaskJoin t) d L s"
proof -
  obtain Q ts where inv: "kinv L Q ts s" and top: "sched_lock s = 0 \<and> \<not> d \<longrightarrow> top_runs Q s" and w: "world_ok z True L s"
    and n: "isr_nesting s = 0" and tok: "tasks_ok True L s" and cq: "task_queue (task s (task_current s)) = None"
    and tko: "\<And>t. task_ok (task s t)" and sm: "sems_ok s"
    using ok by (rule sys_worldE) blast
  have mok: "mutex_ok z L s" using w by (simp add: world_ok_def)
  let ?c = "task_current s"
  have c: "?c \<noteq> task_idle" "waitqueue_current s = None" "t \<noteq> ?c" "join_sem (task s t) = None" "state (task s t) \<noteq> TASKSTATE_INVALID"
    "state (task s t) \<noteq> TASKSTATE_DESTROYED \<Longrightarrow> list_is_empty (MtxList ?c) (mxh s)" using g by (auto simp: may_block_def)
  have nL: "join_q ?c \<notin> L" using joins_okD(2) [OF tasks_okD(4) [OF tok], of ?c] cq by (auto simp: suspended_def)
  define s' where "s' = s\<lparr>task := (task s)(t := (task s t)\<lparr>state := TASKSTATE_INVALID, join_sem := None\<rparr>)\<rparr>"
  note fin = join_finished [OF inv n c(1,2,4) st s'_def]
  have "task_queue (task s t) = None" by (rule destroyed_unqueued [OF kinvD(1) [OF inv] st])
  then have "tasks_ok True L s'"
    by (intro back_tasks [OF tok tko cq]) (use c(3,4) cq st nL tasks_okD(2,3) [OF tok] in \<open>auto simp: s'_def\<close>)
  moreover have "mutex_ok z L s'" by (rule back_mutexes [OF mok]) (auto simp: s'_def)
  moreover have "sems_ok s'" by (rule sems_mono [OF sm]) (auto simp: s'_def split: if_splits)
  ultimately have "sys_ok z True d L s'"
    by (intro sys_okI [OF fin(2)]) (use top n c(2) in \<open>auto simp: s'_def world_ok_def top_runs_def\<close>)
  then show ?thesis using fin(1) st by (simp add: less_os_taskstate_def s'_def)
qed

lemma join_blocks_ok:
  assumes ok: "sys_ok z True d L s" and g: "contract (TaskJoin t) L s" and run: "state (task s t) \<noteq> TASKSTATE_DESTROYED"
  shows "call_ok z (TaskJoin t) d L s"
proof -
  obtain Q ts where inv: "kinv L Q ts s" and top: "sched_lock s = 0 \<and> \<not> d \<longrightarrow> top_runs Q s" and w: "world_ok z True L s"
    and n: "isr_nesting s = 0" and tok: "tasks_ok True L s" and cq: "task_queue (task s (task_current s)) = None"
    and tko: "\<And>t. task_ok (task s t)" and sm: "sems_ok s"
    using ok by (rule sys_worldE) blast
  have mok: "mutex_ok z L s" using w by (simp add: world_ok_def)
  let ?c = "task_current s"
  have c: "?c \<noteq> task_idle" "waitqueue_current s = None" "t \<noteq> ?c" "join_sem (task s t) = None" "state (task s t) \<noteq> TASKSTATE_INVALID"
    "state (task s t) \<noteq> TASKSTATE_DESTROYED \<Longrightarrow> list_is_empty (MtxList ?c) (mxh s)" using g by (auto simp: may_block_def)
  have nL: "join_q ?c \<notin> L" using joins_okD(2) [OF tasks_okD(4) [OF tok], of ?c] cq by (auto simp: suspended_def)
  have st: "state (task s t) < TASKSTATE_DESTROYED" using run c(5) by (cases "state (task s t)") (simp_all add: less_os_taskstate_def)
  define tk where "tk = (task s)(t := (task s t)\<lparr>join_sem := Some (JoinSem ?c)\<rparr>)"
  obtain s' Q' ts' where s': "os_task_join t s = ok (Switched, s')" "kinv (insert (join_q ?c) L) Q' ts' s'"
    "task_current s' = hd (ready Q)" "ready Q' = tl (ready Q)" "isr_nesting s' = 0" "waitqueue_current s' = None"
    "\<forall>u. prio_current (task s' u) = prio_current (task s u)"
    "task s' = tk(hd (ready Q) := (tk (hd (ready Q)))\<lparr>task_queue := None\<rparr>,
      ?c := (tk ?c)\<lparr>timer := None, state := TASKSTATE_WAIT, block_type := OS_TASKBLOCK_SEM,
        task_queue := Some (join_q ?c), ctx_kont := K_JoinDown (arch_dint (sreg s)) (sreg s) t\<rparr>)"
    "mxh s' = mxh s" "mtx s' = mtx s" "sem s' = (sem s)(JoinSem ?c := \<lparr>sem_value = 0\<rparr>)" "sched_lock s' = sched_lock s"
    using join_blocks_run [OF inv world_cur(1) [OF w TrueI] n c(1,2) c(6) [OF run] c(4) nL st c(5) tk_def] by blast
  obtain h us where rd: "ready Q = h # us" using ready_nonempty(2) [OF kinvD(1) [OF inv] c(1)] by (cases "ready Q") auto
  have h: "task_queue (task s h) = Some ReadyQ" "h \<noteq> ?c" using kinv_members [OF inv, of h ReadyQ] rd ready_not_current [OF inv rd] by auto
  have hd: "hd (ready Q) = h" using rd by simp
  have "tasks_ok False (insert (join_q ?c) L) s'"
    by (rule join_tasks [OF tok tko cq c(3,4) h(1) tk_def]) (use s'(3,8,11) hd in simp_all)
  moreover have "mtx_still s s'"
    unfolding mtx_still_def using s'(3,7-10) h cq by (auto simp: hd tk_def suspended_def)
  then have "mutex_ok z (insert (join_q ?c) L) s'"
  proof (rule mtx_still_keeps [OF mok])
    show "z \<and> owners_stay s s'" if z
      unfolding owners_stay_def active_def using that may_block_owns [OF w c(6) [OF run]] s'(3,8) by (auto simp: hd tk_def)
  qed simp
  moreover have "top_runs Q' s'"
    using flat_sorted [OF sched_invD(1) [OF kinvD(1) [OF inv]], of ReadyQ] s'(3,4,7) rd by (simp add: top_runs_def prio_sorted_def)
  moreover have "sems_ok s'"
    by (rule sem_still_keeps [OF sm]) (use h(2) in \<open>auto simp: sem_still_def s'(8,11) hd tk_def split: if_splits\<close>)
  ultimately have "sys_ok z False d (insert (join_q ?c) L) s'"
    by (intro sys_okI [OF s'(2)]) (use s'(5,6) in \<open>auto simp: world_ok_def\<close>)
  then show ?thesis using s'(1,10) st by simp
qed

lemma join_call_ok:
  assumes "sys_ok z True d L s" and "contract (TaskJoin t) L s"
  shows "call_ok z (TaskJoin t) d L s"
  using join_ended_ok [OF assms] join_blocks_ok [OF assms] by blast

section \<open>Every call\<close>

lemma call_keeps_order:
  assumes "sys_ok z True d L s" and "contract op L s"
  shows "call_ok z op d L s"
proof -
  note calls = create_call_ok exit_call_ok join_call_ok sched_call_ok unlock_call_ok create_calls_ok down_call_ok up_call_ok destroy_call_ok
    mtx_create_call_ok mtx_lock_call_ok mtx_unlock_call_ok mtx_destroy_call_ok wait_call_ok wakeup_call_ok timer_call_ok
  show ?thesis
    using assms(2) by (cases op; simp only:; elim calls [OF assms(1)])
qed

end
