(* ===== verification/System_Run.thy ===== *)
theory System_Run
  imports System_Objects
begin

text \<open>
  The rest of the system: interrupts, the continuation of a task after a context switch, and with
  them the invariant of every reachable state.
\<close>

section \<open>Interrupts\<close>

lemma irq_enter:
  assumes inv: "kinv L Q ts s" and w: "world_ok z True L s" and n: "isr_nesting s = 0" and s1: "s1 = arch_contextstore_i s"
  shows "kinv L Q ts s1" and "world_ok z False L s1" and "isr_nesting s1 = 1" and "sched_lock s1 = sched_lock s"
    and "waitqueue_current s1 = waitqueue_current s" and "sem s1 = sem s" and "top_runs Q s1 = top_runs Q s"
    and "ctx_kont (task s1 (task_current s1)) = K_Isr (sreg s OR 0x80)" and "mtx s1 = mtx s"
proof -
  have tk: "task s1 = (task s)(task_current s := (task s (task_current s))\<lparr>ctx_kont := K_Isr (sreg s OR 0x80)\<rparr>)"
    and f: "isr_nesting s1 = 1" "sched_lock s1 = sched_lock s" "waitqueue_current s1 = waitqueue_current s" "sem s1 = sem s"
      "task_current s1 = task_current s"
    using n by (simp_all add: s1 arch_contextstore_i_def Let_def task_upd_task)
  show "kinv L Q ts s1" unfolding s1 by (rule kinv_isr_enter [OF inv])
  have "calm True s False s1"
    by (rule calm_isr_enter [OF n _ s1 sched_invD(4) [OF kinvD(1) [OF inv]], of L]) (use w in \<open>simp add: world_ok_def\<close>)
  then show "world_ok z False L s1" by (rule calm_keeps [OF w _ inv]) simp
  have "prio_current (task s1 u) = prio_current (task s u)" for u by (simp add: tk)
  then show "top_runs Q s1 = top_runs Q s" by (simp add: top_runs_def f(5))
  show "ctx_kont (task s1 (task_current s1)) = K_Isr (sreg s OR 0x80)" by (simp add: tk f(5))
qed (simp_all add: n s1 arch_contextstore_i_def Let_def)

lemma irq_exit:
  assumes inv: "kinv L Q ts s" and w: "world_ok z False L s" and n: "isr_nesting s = 1" and top: "sched_lock s = 0 \<and> \<not> d \<longrightarrow> top_runs Q s"
    and wq: "\<forall>w. waitqueue_current s = Some w \<longrightarrow> WaitQ w \<in> L \<and> sched_lock s \<noteq> 0 \<and> still_there False s"
  shows "\<exists>s'. arch_contextrestore_i s = (Switched, s') \<and> sys_ok z False d L s' \<and> mtx s' = mtx s"
proof -
  let ?s = "snd (arch_contextrestore_i s)"
  have "fst (arch_contextrestore_i s) = Switched" using n by (simp add: arch_contextrestore_i_def)
  moreover have "world_ok z False L ?s"
    by (rule calm_keeps [OF w calm_same inv]) (simp_all add: arch_contextrestore_i_def Let_def)
  then have "sys_ok z False d L ?s"
    by (intro sys_okI [OF kinv_isr_leave [OF inv]])
      (use n top wq in \<open>auto simp: arch_contextrestore_i_def Let_def top_runs_def still_there_def\<close>)
  moreover have "mtx ?s = mtx s" by (simp add: arch_contextrestore_i_def Let_def)
  ultimately show ?thesis by (intro exI [of _ ?s]) (simp add: prod_eq_iff)
qed

abbreviation irq_ok :: "bool \<Rightarrow> irq \<Rightarrow> bool \<Rightarrow> qid set \<Rightarrow> kstate \<Rightarrow> bool" where
  "irq_ok z i d L s \<equiv> \<exists>s'. run_irq i s = ok (Switched, s') \<and> sys_ok z False (deferred_irq i s d) L s' \<and> mtx s' = mtx s"

lemma woken_irq:
  assumes inv: "kinv L Q ts s0" and wk: "all_woken c q us (Q, ts, s0) (Q', ts', s1)" and inv': "kinv L Q' ts' s1"
    and q: "q \<noteq> ReadyQ" "\<not> own_q q" and w: "world_ok z False L s0" and n: "isr_nesting s0 = 1" "arch_is_dint (sreg s0)"
      "\<forall>w. waitqueue_current s0 = Some w \<longrightarrow> WaitQ w \<in> L \<and> sched_lock s0 \<noteq> 0 \<and> still_there False s0"
  shows "\<exists>r s' s''. kbind (os_schedule (K_Schedule x) 1 s1) (sched_exit x v) = ok (r, s') \<and>
    arch_contextrestore_i s' = (Switched, s'') \<and> sys_ok z False d L s'' \<and> mtx s'' = mtx s0"
proof -
  have w1: "world_ok z False L s1" by (rule calm_keeps [OF w calm_woken [OF inv wk q] inv]) simp
  have f: "isr_nesting s1 = 1" "arch_is_dint (sreg s1)" "waitqueue_current s1 = waitqueue_current s0" "sched_lock s1 = sched_lock s0"
    "task_current s1 = task_current s0" "ctx_kont (task s1 t) = ctx_kont (task s0 t)" for t
    using wk n by (auto simp: all_woken_def core_frame_def)
  obtain r s' Q'' where s': "kbind (os_schedule (K_Schedule x) 1 s1) (sched_exit x v) = ok (r, s')" "kinv L Q'' ts' s'"
    "sched_frame s1 s'" "calm False s1 False s'" "sched_lock s1 = 0 \<longrightarrow> top_runs Q'' s'" "sched_lock s1 \<noteq> 0 \<longrightarrow> s' = s1\<lparr>sreg := x\<rparr>"
    using schedule_tail [OF inv' f(2) _ disjI2 [OF refl] _ world_cur(2) [OF w1], of x v] f(1) by auto
  have m: "mtx s' = mtx s0" using wk s'(3) by (auto simp: all_woken_def core_frame_def sched_frame_iff)
  have "\<exists>s''. arch_contextrestore_i s' = (Switched, s'') \<and> sys_ok z False d L s'' \<and> mtx s'' = mtx s'"
    by (rule irq_exit [OF s'(2) calm_keeps [OF w1 s'(4) inv']])
      (use s'(3,5,6) f n(3) in \<open>auto simp: sched_frame_iff still_there_def\<close>)
  then show ?thesis using s'(1) m by (simp only:) blast
qed

lemma up_irq_ok:
  assumes ok: "sys_ok z True d L s" and g: "irq_contract (IrqSemUp k) L s"
  shows "irq_ok z (IrqSemUp k) d L s"
proof -
  let ?m = "UserSem k"
  obtain Q ts where inv: "kinv L Q ts s" and top: "sched_lock s = 0 \<and> \<not> d \<longrightarrow> top_runs Q s" and w: "world_ok z True L s"
    and n: "isr_nesting s = 0" and wq: "\<forall>w. waitqueue_current s = Some w \<longrightarrow> WaitQ w \<in> L \<and> sched_lock s \<noteq> 0 \<and> still_there True s"
    using ok by (elim sys_okE) blast
  define s1 where "s1 = arch_contextstore_i s"
  note e = irq_enter [OF inv w n s1_def]
  have c: "isr_nesting s1 = 0 \<or> \<not> False" "isr_nesting s1 > 0 \<or> waitqueue_current s1 = None"
    "sem_value (sem s1 ?m) < ARCH_ATOMIC_MAX - 1" "SemQ ?m \<in> L" using g e(3,6) by auto
  have wq1: "\<forall>w. waitqueue_current s1 = Some w \<longrightarrow> WaitQ w \<in> L \<and> sched_lock s1 \<noteq> 0 \<and> still_there False s1"
    using wq e(4,5,8) by (auto simp: still_there_def)
  show ?thesis
  proof (cases "flat (Q (SemQ ?m))")
    case Nil
    let ?s = "s1\<lparr>sem := (sem s1)(?m := \<lparr>sem_value = sem_value (sem s1 ?m) + 1\<rparr>)\<rparr>"
    have "kinv L Q ts ?s" by (rule kinv_same [OF e(1)]) simp_all
    moreover have "task_queue (task s1 t) \<noteq> Some (SemQ ?m)" for t using kinv_members [OF e(1), of t "SemQ ?m"] Nil by auto
    then have "world_ok z False L ?s" by (intro calm_keeps [OF e(2) calm_same e(1)]) auto
    ultimately have "\<exists>s'. arch_contextrestore_i ?s = (Switched, s') \<and> sys_ok z False d L s' \<and> mtx s' = mtx ?s"
      by (rule irq_exit) (use e(3,4,7) top wq1 in \<open>simp_all add: top_runs_def still_there_def\<close>)
    then show ?thesis using sem_up_token [OF e(1) c(4) Nil c(1-3)] e(9) by (auto simp: os_sem_up_def s1_def)
  next
    case (Cons t us)
    note en = entered [OF e(1,2), of "arch_dint (sreg s1)"]
    obtain s2 Q' ts' where s2: "kinv L Q' ts' s2" "all_woken OS_OK (SemQ ?m) [t] (Q, ts, s1\<lparr>sreg := arch_dint (sreg s1)\<rparr>) (Q', ts', s2)"
      "os_sem_up_sync ?m False s1 = kbind (os_schedule (K_Schedule (sreg s1)) 1 s2) (sched_exit (sreg s1) Void)"
      using sem_up_run [OF e(1) c(4) Cons c(1-3)] by auto
    have "\<exists>r s' s''. os_sem_up_sync ?m False s1 = ok (r, s') \<and> arch_contextrestore_i s' = (Switched, s'') \<and> sys_ok z False d L s'' \<and>
        mtx s'' = mtx (s1\<lparr>sreg := arch_dint (sreg s1)\<rparr>)"
      unfolding s2(3) by (rule woken_irq [OF en(1) s2(2,1) _ _ en(2)]) (use e(3) wq1 in \<open>simp_all add: still_there_def\<close>)
    then show ?thesis using e(9) by (auto simp: os_sem_up_def s1_def)
  qed
qed

lemma wakeup_irq_ok:
  assumes ok: "sys_ok z True d L s" and g: "irq_contract (IrqWakeup x cnt) L s"
  shows "irq_ok z (IrqWakeup x cnt) d L s"
proof -
  obtain Q ts where inv: "kinv L Q ts s" and top: "sched_lock s = 0 \<and> \<not> d \<longrightarrow> top_runs Q s" and w: "world_ok z True L s"
    and n: "isr_nesting s = 0" and wq: "\<forall>w. waitqueue_current s = Some w \<longrightarrow> WaitQ w \<in> L \<and> sched_lock s \<noteq> 0 \<and> still_there True s"
    using ok by (elim sys_okE) blast
  define s1 where "s1 = arch_contextstore_i s"
  note e = irq_enter [OF inv w n s1_def]
  define hit where "hit = (isr_nesting s1 > 0 \<and> waitqueue_current s1 = Some x)"
  define us where "us = to_wake (if hit \<and> cnt \<noteq> OS_WAITQUEUE_ALL then cnt - 1 else cnt) (flat (Q (WaitQ x)))"
  define s0 where "s0 = (if hit then s1\<lparr>sreg := arch_dint (sreg s1), waitqueue_current := None\<rparr> else s1\<lparr>sreg := arch_dint (sreg s1)\<rparr>)"
  have f0: "task s0 = task s1" "task_current s0 = task_current s1" "isr_nesting s0 = 1" "arch_is_dint (sreg s0)" "sched_lock s0 = sched_lock s"
    "waitqueue_current s0 \<in> {None, waitqueue_current s}" "sem s0 = sem s1" "mxh s0 = mxh s1" "mtx s0 = mtx s1"
    using e(3-5) by (auto simp: s0_def)
  have inv0: "kinv L Q ts s0" unfolding s0_def by (cases hit) (auto intro!: kinv_same [OF e(1)])
  have w0: "world_ok z False L s0" by (rule calm_keeps [OF e(2) calm_same e(1)]) (simp_all add: f0)
  have wq0: "\<forall>w. waitqueue_current s0 = Some w \<longrightarrow> WaitQ w \<in> L \<and> sched_lock s0 \<noteq> 0 \<and> still_there False s0"
    using f0(1,2,5,6) wq e(8) by (auto simp: still_there_def)
  obtain s2 Q2 ts2 where s2: "kinv L Q2 ts2 s2" "all_woken OS_OK (WaitQ x) us (Q, ts, s0) (Q2, ts2, s2)"
    "os_waitqueue_wakeup x cnt s1 = (if us \<noteq> []
      then kbind (os_schedule (K_Schedule (sreg s1)) 1 s2) (sched_exit (sreg s1) Void)
      else ok (Return Void, s2\<lparr>sreg := sreg s1\<rparr>))"
    using wakeup_sync_run [OF e(1) _ _ _ _ hit_def us_def s0_def, of False] g e(3) by (auto simp: os_waitqueue_wakeup_def)
  show ?thesis
  proof (cases "us = []")
    case True
    have f2: "task s2 = task s0" "task_current s2 = task_current s0" "core_frame s0 s2" "ready Q2 = ready Q"
      using s2(2) True by (auto simp: all_woken_def)
    have "world_ok z False L (s2\<lparr>sreg := sreg s1\<rparr>)"
      by (rule calm_keeps [OF w0 calm_same inv0]) (use f2 in \<open>simp_all add: core_frame_def\<close>)
    then have "\<exists>s'. arch_contextrestore_i (s2\<lparr>sreg := sreg s1\<rparr>) = (Switched, s') \<and> sys_ok z False d L s' \<and> mtx s' = mtx (s2\<lparr>sreg := sreg s1\<rparr>)"
      by (rule irq_exit [OF kinv_dint [OF s2(1)]])
        (use f2 f0 e(7) top wq0 in \<open>auto simp: core_frame_def top_runs_def still_there_def\<close>)
    then show ?thesis using s2(3) True f2(3) f0(9) e(9) by (auto simp: wakeup_isr_def s1_def core_frame_def)
  next
    case False
    obtain r s' s'' where "os_waitqueue_wakeup x cnt s1 = ok (r, s')" "arch_contextrestore_i s' = (Switched, s'')" "sys_ok z False d L s''"
      "mtx s'' = mtx s0"
      using woken_irq [OF inv0 s2(2,1) _ _ w0 f0(3,4) wq0, of "sreg s1" Void d] False unfolding s2(3) by auto
    then show ?thesis using f0(9) e(9) by (simp add: wakeup_isr_def s1_def)
  qed
qed

lemma tick_irq_ok:
  assumes ok: "sys_ok z True d L s"
  shows "irq_ok z Tick d L s"
proof -
  obtain Q ts where inv: "kinv L Q ts s" and w: "world_ok z True L s"
    and n: "isr_nesting s = 0" and wq: "\<forall>w. waitqueue_current s = Some w \<longrightarrow> WaitQ w \<in> L \<and> sched_lock s \<noteq> 0 \<and> still_there True s"
    using ok by (elim sys_okE) blast
  define s1 where "s1 = arch_contextstore_i s"
  note e = irq_enter [OF inv w n s1_def]
  have f1: "task s1 = (task s)(task_current s := (task s (task_current s))\<lparr>ctx_kont := K_Isr (sreg s OR 0x80)\<rparr>)"
    "task_current s1 = task_current s" "mxh s1 = mxh s" "mtx s1 = mtx s"
    using n by (simp_all add: s1_def arch_contextstore_i_def Let_def task_upd_task)
  obtain s3 Q3 ts' r s4 Q4 where run: "tick_isr None no_user s = ok (arch_contextrestore_i s4)"
    and s3: "kinv L Q3 ts' s3" "task_current s3 = task_current s" "task s3 = timed_out (set ts - set ts') (task s1)"
      "isr_nesting s3 = 1" "sched_lock s3 = sched_lock s" "waitqueue_current s3 = waitqueue_current s"
      "sem s3 = sem s" "mxh s3 = mxh s" "mtx s3 = mtx s"
    and s4: "kinv L Q4 ts' s4" "sched_frame s3 s4" "same_tasks s3 s4"
      "\<forall>t. t \<notin> {task_current s3, task_current s4} \<longrightarrow> task s4 t = task s3 t"
      "\<forall>t. ctx_kont (task s4 t) = ctx_kont (task s3 t)"
      "if preempts 0 s3 (ready Q3) then task_current s4 = hd (ready Q3) \<and> (r = Switched \<longleftrightarrow> isr_nesting s3 = 0) \<and>
         ready Q4 = prio_insert (\<lambda>t. prio_current (task s3 t)) (task_current s3) (tl (ready Q3))
       else r = Return Void \<and> s4 = s3\<lparr>sreg := sreg s1\<rparr> \<and> Q4 = Q3"
    using tick_isr_run [OF inv no_user_inert n f1(1)] unfolding s1_def by blast
  have "calm False s1 False s3"
    by (rule calm_timed_out [OF e(1,2) _ s3(3)]) (use s3 f1 e(6) in auto)
  then have w3: "world_ok z False L s3" by (rule calm_keeps [OF e(2) _ e(1)]) simp
  have "calm False s3 False s4"
  proof (cases "preempts 0 s3 (ready Q3)")
    case False
    then show ?thesis using s4(6) by (simp add: calm_same)
  next
    case True
    then obtain u us where rd: "ready Q3 = u # us" by (cases "ready Q3") (auto simp: preempts_def)
    have cur: "task_current s4 = u" "task_current s3 \<in> set (ready Q4)" using s4(6) True rd by (simp_all add: set_prio_insert)
    have q: "task_queue (task s3 u) = Some ReadyQ" "task_queue (task s4 (task_current s3)) = Some ReadyQ"
      using kinv_members [OF s3(1), of u ReadyQ] kinv_members [OF s4(1), of _ ReadyQ] rd cur(2) by simp_all
    show ?thesis
      by (rule calm_switch [OF s3(1) s4(1) _ q(2) _ s4(2-4) _ _ world_cur(2) [OF w3]])
        (use q s4(5) ready_not_current [OF s3(1) rd] cur(1) in auto)
  qed
  then have w4: "world_ok z False L s4" by (rule calm_keeps [OF w3 _ s3(1)]) simp
  have "top_runs Q4 s4" if "sched_lock s = 0" using schedule_top [OF s3(1) _ _ _ s4(3,6)] s3(4,5) that by simp
  moreover have "still_there False s4" if "sched_lock s \<noteq> 0"
    using s4(6) s3(2,3,5) that by (auto simp: preempts_def still_there_def f1 timed_out_def)
  ultimately have "\<exists>s'. arch_contextrestore_i s4 = (Switched, s') \<and> sys_ok z False (d \<and> sched_lock s \<noteq> 0) L s' \<and> mtx s' = mtx s4"
    by (intro irq_exit [OF s4(1) w4]) (use s4(2) s3(4-6) wq in \<open>auto simp: sched_frame_iff\<close>)
  moreover have "mtx s4 = mtx s" using s4(2) s3(9) by (simp add: sched_frame_iff)
  ultimately show ?thesis using run by auto
qed

lemma irq_keeps_order: "sys_ok z True d L s \<Longrightarrow> irq_contract i L s \<Longrightarrow> irq_ok z i d L s"
  using tick_irq_ok up_irq_ok wakeup_irq_ok by (cases i) blast+

section \<open>Continuing after a switch\<close>

text \<open>The current task is back in its own code.\<close>

lemma back_ok:
  assumes ok: "kinv L Q ts s" "sched_lock s = 0 \<and> \<not> d \<longrightarrow> top_runs Q s" "mutex_ok z L s"
      "\<forall>w. waitqueue_current s = Some w \<longrightarrow> WaitQ w \<in> L \<and> sched_lock s \<noteq> 0 \<and> still_there False s"
    and inv: "kinv L' Q' ts' s'" "ready Q' = ready Q" and tok: "tasks_ok True L' s'" and L: "\<And>q. q \<noteq> join_q (task_current s) \<Longrightarrow> q \<in> L' \<longleftrightarrow> q \<in> L"
    and f: "task_current s' = task_current s" "isr_nesting s' = 0" "sched_lock s' = sched_lock s" "waitqueue_current s' = waitqueue_current s"
      "mxh s' = mxh s" "mtx s' = mtx s"
    and tk: "\<And>t. prio_base (task s' t) = prio_base (task s t) \<and> prio_current (task s' t) = prio_current (task s t) \<and>
      task_queue (task s' t) = task_queue (task s t) \<and> timer (task s' t) \<in> {None, timer (task s t)}"
    and sm: "sems_ok s'"
  shows "sys_ok z True d L' s'"
proof -
  have "mutex_ok z L' s'" by (rule back_mutexes [OF ok(3) f(5,6,1) tk]) (simp add: L)
  then show ?thesis
    by (intro sys_okI [OF inv(1)]) (use ok(2,4) inv(2) tok f tk L sm in \<open>auto simp: world_ok_def top_runs_def\<close>)
qed

lemma resumed_ok:
  assumes ok: "kinv L Q ts s" "sched_lock s = 0 \<and> \<not> d \<longrightarrow> top_runs Q s" "world_ok z False L s"
      "\<forall>w. waitqueue_current s = Some w \<longrightarrow> WaitQ w \<in> L \<and> sched_lock s \<noteq> 0 \<and> still_there False s"
    and j: "joins (ctx_kont (task s (task_current s))) = None" and inv: "kinv L Q ts' s'"
    and tk: "task s' = (task s)(task_current s := (task s (task_current s))\<lparr>state := x, timer := None\<rparr>)"
    and x: "x = TASKSTATE_RUNNING \<or> x = state (task s (task_current s))"
    and f: "task_current s' = task_current s" "isr_nesting s' = 0" "sched_lock s' = sched_lock s" "waitqueue_current s' = waitqueue_current s"
      "sem s' = sem s" "mxh s' = mxh s" "mtx s' = mtx s"
  shows "sys_ok z True d L s'"
proof -
  have tok: "tasks_ok False L s" and mok: "mutex_ok z L s" using ok(3) by (simp_all add: world_ok_def)
  have cq: "task_queue (task s (task_current s)) = None" by (rule sched_invD(4) [OF kinvD(1) [OF ok(1)]])
  have nL: "join_q (task_current s) \<notin> L"
    using joins_okD(3) [OF tasks_okD(4) [OF tok], of "task_current s"] j by auto
  have "tasks_ok True L s'"
    by (rule back_tasks [OF tok sched_invD(3) [OF kinvD(1) [OF ok(1)]] cq])
      (use tasks_okD(3) [OF tok] x cq nL j in \<open>auto simp: tk f\<close>)
  moreover have "sems_ok s'" by (rule sems_mono [of s]) (use ok(3) in \<open>auto simp: world_ok_def tk f split: if_splits\<close>)
  ultimately show ?thesis by (intro back_ok [OF ok(1,2) mok ok(4) inv refl]) (simp_all add: tk f)
qed

text \<open>The last steps of \<open>os_task_join\<close>. In the semaphore on its stack nobody waits any more.\<close>

lemma sems_but_join:
  assumes w: "world_ok z run L s" and c: "task_queue (task s (task_current s)) = None"
    and q: "\<And>u m. task_queue (task s' u) = Some (SemQ m) \<Longrightarrow> task_queue (task s u) = Some (SemQ m)"
    and e: "\<And>m. m \<noteq> JoinSem (task_current s) \<Longrightarrow> sem s' m = sem s m"
  shows "sems_ok s'"
proof (rule sems_mono [of s])
  fix u m assume "task_queue (task s' u) = Some (SemQ m)"
  then have u: "task_queue (task s u) = Some (SemQ m)" by (rule q)
  then have "m \<noteq> JoinSem (task_current s)"
    using joins_okD(4) [OF tasks_okD(4), of run L s u "task_current s"] c w by (auto simp: world_ok_def)
  then show "task_queue (task s u) = Some (SemQ m) \<and> sem s' m = sem s m" using u e by simp
qed (use w in \<open>simp add: world_ok_def\<close>)

lemma join_back:
  assumes ok: "kinv L Q ts s" "sched_lock s = 0 \<and> \<not> d \<longrightarrow> top_runs Q s" "world_ok z False L s"
      "\<forall>w. waitqueue_current s = Some w \<longrightarrow> WaitQ w \<in> L \<and> sched_lock s \<noteq> 0 \<and> still_there False s"
    and j: "joins (ctx_kont (task s (task_current s))) = Some t"
    and inv: "kinv L' Q' ts' s1" "ready Q' = ready Q" and L: "L' = L - {join_q (task_current s)}"
    and tk: "task s1 = (task s)(task_current s := (task s (task_current s))\<lparr>state := TASKSTATE_RUNNING, timer := None\<rparr>)"
    and t: "state (task s t) = TASKSTATE_DESTROYED"
    and f: "task_current s1 = task_current s" "isr_nesting s1 = 0" "sched_lock s1 = sched_lock s" "waitqueue_current s1 = waitqueue_current s"
      "\<And>m. m \<noteq> JoinSem (task_current s) \<Longrightarrow> sem s1 m = sem s m" "mxh s1 = mxh s" "mtx s1 = mtx s"
  shows "\<exists>v s'. os_task_join_tail c t s1 = ok (Return v, s') \<and> sys_ok z True d L' s' \<and> mtx s' = mtx s"
proof -
  let ?c = "task_current s"
  have tok: "tasks_ok False L s" and mok: "mutex_ok z L s" using ok(3) by (simp_all add: world_ok_def)
  have cq: "task_queue (task s ?c) = None" by (rule sched_invD(4) [OF kinvD(1) [OF ok(1)]])
  have kc: "kont_ok L s ?c" by (rule tasks_okD(1) [OF tok]) (simp add: suspended_def)
  have js: "join_sem (task s t) = Some (JoinSem ?c)" using kc j by (cases "ctx_kont (task s ?c)") (auto simp: kont_ok_def)
  have tc: "t \<noteq> ?c" using t tasks_okD(3) [OF tok] by auto
  have t1: "state (task s1 t) = TASKSTATE_DESTROYED" "task_queue (task s t) = None"
    using t tc destroyed_unqueued [OF kinvD(1) [OF ok(1)] t] by (simp_all add: tk)
  define s' where "s' = s1\<lparr>sreg := c, task := (task s1)(t := (task s1 t)\<lparr>state := TASKSTATE_INVALID, join_sem := None\<rparr>)\<rparr>"
  note tail = join_tail_result [OF inv(1) t1(1) destroyed_unqueued [OF kinvD(1) [OF inv(1)] t1(1)] s'_def]
  have "tasks_ok True L' s'"
    by (rule back_tasks [OF tok sched_invD(3) [OF kinvD(1) [OF ok(1)]] cq])
      (use tasks_okD(3) [OF tok] cq j js t t1(2) tc f in \<open>auto simp: tk s'_def L\<close>)
  moreover have "sems_ok s'"
    by (rule sems_but_join [OF ok(3) cq]) (use cq t1(2) tc f(5) in \<open>auto simp: s'_def tk split: if_splits\<close>)
  ultimately have "sys_ok z True d L' s'" by (intro back_ok [OF ok(1,2) mok ok(4) tail(2) inv(2)]) (use t1 tc f in \<open>auto simp: tk s'_def L\<close>)
  moreover have "mtx s' = mtx s" using f(7) by (simp add: s'_def)
  ultimately show ?thesis using tail(1) by blast
qed

text \<open>The semaphore of \<open>os_task_join\<close> is destroyed, which calls the scheduler.\<close>

lemma join_woken_run:
  assumes inv: "kinv L Q ts s" and tok: "tasks_ok False L s" and n: "isr_nesting s = 0" "waitqueue_current s = None"
    and k: "ctx_kont (task s (task_current s)) = K_JoinDown x y t"
  shows "\<exists>s3 Q3 ts3. resume s = kbind (kbind (os_schedule (K_ScheduleJoin x y t) 1 s3) (sched_exit x ()))
      (\<lambda>(r, s). case r of Return _ \<Rightarrow> os_task_join_tail y t s | Switched \<Rightarrow> ok (Switched, s)) \<and>
    kinv (L - {join_q (task_current s)}) Q3 ts3 s3 \<and> ready Q3 = ready Q \<and> arch_is_dint (sreg s3) \<and> task_current s3 = task_current s \<and>
    task s3 = (task s)(task_current s := (task s (task_current s))\<lparr>state := TASKSTATE_RUNNING, timer := None\<rparr>) \<and>
    isr_nesting s3 = 0 \<and> sched_lock s3 = sched_lock s \<and> waitqueue_current s3 = None \<and> mxh s3 = mxh s \<and> mtx s3 = mtx s \<and>
    (\<forall>m. m \<noteq> JoinSem (task_current s) \<longrightarrow> sem s3 m = sem s m)"
proof -
  let ?c = "task_current s" and ?m = "JoinSem (task_current s)"
  have cq: "task_queue (task s ?c) = None" by (rule sched_invD(4) [OF kinvD(1) [OF inv]])
  have "kont_ok L s ?c" by (rule tasks_okD(1) [OF tok]) (simp add: suspended_def)
  then have kc: "join_q ?c \<in> L" "block_code (task s ?c) = OS_OK" using cq by (simp_all add: kont_ok_def k block_code_def del: retcode_value.simps)
  have none: "flat (Q (join_q ?c)) = []"
    using kinv_members [OF inv, of _ "join_q ?c"] joins_okD(4) [OF tasks_okD(4) [OF tok], of _ ?c] cq by (metis last_in_set option.distinct(1))
  obtain s1 ts1 where s1: "os_sem_down_resume x s = ok (OS_OK, s1)" "kinv L Q ts1 s1" "core_frame s s1" "task_current s1 = ?c" "sreg s1 = x"
    "task s1 = (task s)(?c := (task s ?c)\<lparr>state := TASKSTATE_RUNNING, timer := None\<rparr>)"
    using sem_down_resume_result [OF inv, of x] kc(2) by auto
  have n1: "isr_nesting s1 = 0" "waitqueue_current s1 = None" using s1(3) n by (simp_all add: core_frame_def)
  obtain s2 Q3 ts3 s3 where s3: "kinv (L - {join_q ?c}) Q3 ts3 s3"
    "all_woken OS_DESTROYED (join_q ?c) (flat (Q (join_q ?c))) (Q, ts1, s1\<lparr>sreg := arch_dint (sreg s1)\<rparr>) (Q3, ts3, s2)"
    "s3 = (memset_taskqueue (join_q ?c) s2)\<lparr>sem := (sem s2)(?m := \<lparr>sem_value = 0\<rparr>)\<rparr>"
    "os_sem_destroy_api (\<lambda>c. K_ScheduleJoin c y t) ?m s1 = kbind (os_schedule (K_ScheduleJoin x y t) 1 s3) (sched_exit x ())"
    using sem_destroy_run [OF s1(2) kc(1) n1, of "\<lambda>c. K_ScheduleJoin c y t"] unfolding s1(5) by blast
  have "resume s = kbind (kbind (os_schedule (K_ScheduleJoin x y t) 1 s3) (sched_exit x ()))
      (\<lambda>(r, s). case r of Return _ \<Rightarrow> os_task_join_tail y t s | Switched \<Rightarrow> ok (Switched, s))"
    unfolding s3(4) [symmetric] using s1(1,4) by (simp add: resume_def k os_task_join_woken_def)
  moreover have "task s2 = task s1" "task_current s2 = ?c" "core_frame s1 s2" "arch_is_dint (sreg s2)" "ready Q3 = ready Q"
    using s3(2) s1(4) by (auto simp: all_woken_def none core_frame_def)
  ultimately show ?thesis using s3(1) s1(3,6) n1 n
    by (intro exI [of _ s3] exI [of _ Q3] exI [of _ ts3]) (simp add: s3(3) memset_taskqueue_def core_frame_def)
qed

lemma join_switches:
  assumes ok: "kinv L Q ts s" "world_ok z False L s"
    and k: "ctx_kont (task s (task_current s)) = K_JoinDown a y t"
    and inv: "kinv L' Q3 ts3 s3" and L: "L' = L - {join_q (task_current s)}"
    and tk: "task s3 = (task s)(task_current s := (task s (task_current s))\<lparr>state := TASKSTATE_RUNNING, timer := None\<rparr>)"
    and f: "task_current s3 = task_current s" "mxh s3 = mxh s" "mtx s3 = mtx s"
      "\<And>m. m \<noteq> JoinSem (task_current s) \<Longrightarrow> sem s3 m = sem s m"
    and inv4: "kinv L' Q4 ts3 s4" and ne: "task_current s4 \<noteq> task_current s"
    and q: "task_queue (task s4 (task_current s)) = Some ReadyQ" "task_queue (task s3 (task_current s4)) = Some ReadyQ"
    and fr: "sched_frame s3 s4" "same_tasks s3 s4" "\<forall>t. t \<notin> {task_current s3, task_current s4} \<longrightarrow> task s4 t = task s3 t"
      "\<forall>t. t \<noteq> task_current s3 \<longrightarrow> ctx_kont (task s4 t) = ctx_kont (task s3 t)" "ctx_kont (task s4 (task_current s3)) = K_ScheduleJoin x y t"
  shows "world_ok z False L' s4"
proof -
  let ?c = "task_current s" and ?s = "upd_task (task_current s) (\<lambda>k. k\<lparr>ctx_kont := K_ScheduleJoin x y t\<rparr>) s3"
  have tok: "tasks_ok False L s" and mok: "mutex_ok z L s" using ok(2) by (simp_all add: world_ok_def)
  have cq: "task_queue (task s ?c) = None" by (rule sched_invD(4) [OF kinvD(1) [OF ok(1)]])
  have "kont_ok L s ?c" by (rule tasks_okD(1) [OF tok]) (simp add: suspended_def)
  then have kc: "join_sem (task s t) = Some (JoinSem ?c)" "state (task s t) = TASKSTATE_DESTROYED" using cq by (simp_all add: kont_ok_def k)
  have tc: "t \<noteq> ?c" using kc(2) tasks_okD(3) [OF tok] by auto
  have i: "kinv L' Q3 ts3 ?s" by (rule kinv_upd_task [OF inv]) simp_all
  have "tasks_ok False L' ?s"
    by (rule back_tasks [OF tok sched_invD(3) [OF kinvD(1) [OF ok(1)]] cq])
      (use cq kc tc f in \<open>auto simp: tk task_upd_task L k kont_ok_def\<close>)
  moreover have "mutex_ok z L' ?s" by (rule back_mutexes [OF mok]) (use f in \<open>auto simp: tk task_upd_task L\<close>)
  moreover have "sems_ok ?s"
    by (rule sems_but_join [OF ok(2) cq]) (use f(4) in \<open>auto simp: tk task_upd_task upd_task_def split: if_splits\<close>)
  ultimately have w: "world_ok z False L' ?s" by (simp add: world_ok_def)
  have "sched_frame ?s s4" using fr(1) by (simp add: sched_frame_iff upd_task_def)
  moreover have "same_tasks ?s s4" using fr(2) by (simp add: same_tasks_def same_tcb_def task_upd_task)
  ultimately have "calm False ?s False s4"
    by (intro calm_switch [OF i inv4]) (use ne q fr(3-5) f(1) in \<open>auto simp: task_upd_task tk\<close>)
  then show ?thesis by (rule calm_keeps [OF w _ i]) simp
qed

lemma join_resume_ok:
  assumes ok: "sys_ok z False d L s" and k: "ctx_kont (task s (task_current s)) = K_JoinDown x y t"
  shows "\<exists>r s'. resume s = ok (r, s') \<and> sys_ok z (r \<noteq> Switched) d (L - {join_q (task_current s)}) s' \<and> mtx s' = mtx s"
proof -
  obtain Q ts where inv: "kinv L Q ts s" and top: "sched_lock s = 0 \<and> \<not> d \<longrightarrow> top_runs Q s" and w: "world_ok z False L s"
    and n: "isr_nesting s = 0" and wq: "\<forall>w. waitqueue_current s = Some w \<longrightarrow> WaitQ w \<in> L \<and> sched_lock s \<noteq> 0 \<and> still_there False s"
    using ok by (elim sys_okE) blast
  let ?c = "task_current s" and ?L = "L - {join_q (task_current s)}"
  have tok: "tasks_ok False L s" using w by (simp add: world_ok_def)
  have wn: "waitqueue_current s = None" using wq k by (cases "waitqueue_current s") (auto simp: still_there_def)
  have "kont_ok L s ?c" by (rule tasks_okD(1) [OF tok]) (simp add: suspended_def)
  then have st: "state (task s t) = TASKSTATE_DESTROYED"
    using sched_invD(4) [OF kinvD(1) [OF inv]] by (simp add: kont_ok_def k)
  obtain s3 Q3 ts3 where s3: "resume s = kbind (kbind (os_schedule (K_ScheduleJoin x y t) 1 s3) (sched_exit x ()))
      (\<lambda>(r, s). case r of Return _ \<Rightarrow> os_task_join_tail y t s | Switched \<Rightarrow> ok (Switched, s))"
    "kinv ?L Q3 ts3 s3" "ready Q3 = ready Q" "arch_is_dint (sreg s3)" "task_current s3 = ?c"
    "task s3 = (task s)(?c := (task s ?c)\<lparr>state := TASKSTATE_RUNNING, timer := None\<rparr>)"
    "isr_nesting s3 = 0" "sched_lock s3 = sched_lock s" "waitqueue_current s3 = None" "mxh s3 = mxh s" "mtx s3 = mtx s"
    "\<And>m. m \<noteq> JoinSem ?c \<Longrightarrow> sem s3 m = sem s m"
    using join_woken_run [OF inv tok n wn k] by blast
  obtain r s4 Q4 where s4: "kbind (os_schedule (K_ScheduleJoin x y t) 1 s3) (sched_exit x ()) = ok (r, s4)" "kinv ?L Q4 ts3 s4"
    "sched_frame s3 s4" "same_tasks s3 s4" "\<forall>t. t \<notin> {task_current s3, task_current s4} \<longrightarrow> task s4 t = task s3 t"
    "\<forall>t. t \<noteq> task_current s3 \<longrightarrow> ctx_kont (task s4 t) = ctx_kont (task s3 t)"
    "if r = Switched
     then ctx_kont (task s4 (task_current s3)) = K_ScheduleJoin x y t \<and> sreg s4 = kont_sreg (ctx_kont (task s3 (task_current s4)))
     else ctx_kont (task s4 (task_current s3)) = ctx_kont (task s3 (task_current s3)) \<and> sreg s4 = x"
    "if preempts 1 s3 (ready Q3) then task_current s4 = hd (ready Q3) \<and> (r = Switched \<longleftrightarrow> isr_nesting s3 = 0) \<and>
       ready Q4 = prio_insert (\<lambda>t. prio_current (task s3 t)) (task_current s3) (tl (ready Q3))
     else r = Return () \<and> s4 = s3\<lparr>sreg := x\<rparr> \<and> Q4 = Q3"
    using kinv_schedule_konts [OF s3(2,4), of "K_ScheduleJoin x y t" 1 x "()"] by blast
  show ?thesis
  proof (cases "preempts 1 s3 (ready Q3)")
    case False
    then have e: "r = Return ()" "s4 = s3\<lparr>sreg := x\<rparr>" using s4(8) by simp_all
    have "\<exists>v s'. os_task_join_tail y t s4 = ok (Return v, s') \<and> sys_ok z True d ?L s' \<and> mtx s' = mtx s"
      unfolding e(2) by (rule join_back [OF inv top w wq _ kinv_dint [OF s3(2)] s3(3) refl]) (use s3(5-12) st k wn in simp_all)
    then show ?thesis using s3(1) s4(1) e(1) by auto
  next
    case True
    then have r: "r = Switched" using s4(8) s3(7) by simp
    then have kc: "ctx_kont (task s4 (task_current s3)) = K_ScheduleJoin x y t" using s4(7) by simp
    obtain u us where rd: "ready Q3 = u # us" using True by (cases "ready Q3") (auto simp: preempts_def)
    have cur: "task_current s4 = u" "?c \<in> set (ready Q4)" using s4(8) True rd s3(5) by (simp_all add: set_prio_insert)
    have q: "task_queue (task s3 u) = Some ReadyQ" "task_queue (task s4 ?c) = Some ReadyQ"
      using kinv_members [OF s3(2), of u ReadyQ] kinv_members [OF s4(2), of _ ReadyQ] rd cur(2) by simp_all
    have "world_ok z False ?L s4"
      by (rule join_switches [OF inv w k s3(2) refl s3(6,5,10-12) s4(2) _ q(2) _ s4(3-6) kc])
        (use q ready_not_current [OF s3(2) rd] cur(1) s3(5) in auto)
    moreover have "top_runs Q4 s4" by (rule schedule_top [OF s3(2) _ _ _ s4(4,8)]) (use True in \<open>auto simp: preempts_def\<close>)
    ultimately have "sys_ok z False d ?L s4" by (intro sys_okI [OF s4(2)]) (use s4(3) s3(7,9) in \<open>auto simp: sched_frame_iff\<close>)
    moreover have "mtx s4 = mtx s" using s4(3) s3(11) by (simp add: sched_frame_iff)
    ultimately show ?thesis using s3(1) s4(1) r by simp
  qed
qed

lemma idle_back:
  assumes ok: "sys_ok z False d L s" and k: "joins (ctx_kont (task s (task_current s))) = None" and tm: "timer (task s (task_current s)) = None"
  shows "sys_ok z True d L s"
proof -
  let ?c = "task_current s"
  obtain Q ts where inv: "kinv L Q ts s" "sched_lock s = 0 \<and> \<not> d \<longrightarrow> top_runs Q s" "world_ok z False L s" "isr_nesting s = 0"
    "\<forall>w. waitqueue_current s = Some w \<longrightarrow> WaitQ w \<in> L \<and> sched_lock s \<noteq> 0 \<and> still_there False s"
    using ok by (elim sys_okE) blast
  have "(task s ?c)\<lparr>timer := None\<rparr> = task s ?c" using tm by simp
  then have "task s = (task s)(?c := (task s ?c)\<lparr>state := state (task s ?c), timer := None\<rparr>)" by simp
  then show ?thesis by (rule resumed_ok [OF inv(1-3,5) k inv(1) _ disjI2 [OF refl]]) (use inv(4) in simp_all)
qed

lemma blocked_back:
  assumes ok: "sys_ok z False d L s" and k: "joins (ctx_kont (task s (task_current s))) = None"
  shows "\<exists>r s'. kbind (os_sem_down_resume x s) (\<lambda>(ret, s). ok (Return (Code ret), s)) = ok (r, s') \<and> sys_ok z (r \<noteq> Switched) d L s' \<and>
    mtx s' = mtx s"
proof -
  let ?c = "task_current s"
  obtain Q ts where inv: "kinv L Q ts s" "sched_lock s = 0 \<and> \<not> d \<longrightarrow> top_runs Q s" "world_ok z False L s" "isr_nesting s = 0"
    "\<forall>w. waitqueue_current s = Some w \<longrightarrow> WaitQ w \<in> L \<and> sched_lock s \<noteq> 0 \<and> still_there False s"
    using ok by (elim sys_okE) blast
  obtain s' ts' where s': "os_sem_down_resume x s = ok (block_code (task s ?c), s')" "kinv L Q ts' s'" "core_frame s s'"
    "task_current s' = ?c" "task s' = (task s)(?c := (task s ?c)\<lparr>state := TASKSTATE_RUNNING, timer := None\<rparr>)"
    using sem_down_resume_result [OF inv(1), of x] by blast
  have "sys_ok z True d L s'" by (rule resumed_ok [OF inv(1-3,5) k s'(2,5)]) (use s'(3,4) inv(4) in \<open>auto simp: core_frame_def\<close>)
  moreover have "mtx s' = mtx s" using s'(3) by (simp add: core_frame_def)
  ultimately show ?thesis using s'(1) by simp
qed

lemma schedule_resumes:
  assumes "kinv L Q ts s" and "isr_nesting s = 0"
  shows "kinv L Q ts ((os_schedule_resume s)\<lparr>sreg := c\<rparr>)"
    and "task (os_schedule_resume s) = (task s)(task_current s := (task s (task_current s))\<lparr>state := TASKSTATE_RUNNING\<rparr>)"
    and "task_current (os_schedule_resume s) = task_current s" "isr_nesting (os_schedule_resume s) = 0"
      "sched_lock (os_schedule_resume s) = sched_lock s" "waitqueue_current (os_schedule_resume s) = waitqueue_current s"
      "sem (os_schedule_resume s) = sem s" "mxh (os_schedule_resume s) = mxh s" "mtx (os_schedule_resume s) = mtx s"
  using kinv_dint [OF kinv_running [OF assms(1)]] assms(2) by (simp_all add: os_schedule_resume_def task_upd_task)

lemma resume_keeps_order:
  assumes ok: "sys_ok z False d L s"
  shows "\<exists>r s'. resume s = ok (r, s') \<and> sys_ok z (r \<noteq> Switched) d (live_resumed s L) s' \<and> mtx s' = mtx s"
proof -
  obtain Q ts where inv: "kinv L Q ts s" and top: "sched_lock s = 0 \<and> \<not> d \<longrightarrow> top_runs Q s" and w: "world_ok z False L s"
    and n: "isr_nesting s = 0" and wq: "\<forall>w. waitqueue_current s = Some w \<longrightarrow> WaitQ w \<in> L \<and> sched_lock s \<noteq> 0 \<and> still_there False s"
    using ok by (elim sys_okE) blast
  let ?c = "task_current s" and ?s = "os_schedule_resume s"
  have tok: "tasks_ok False L s" using w by (simp add: world_ok_def)
  have kc: "kont_ok L s ?c" by (rule tasks_okD(1) [OF tok]) (simp add: suspended_def)
  note fin = resumed_ok [OF inv top w wq]
  note sch = schedule_resumes(1,2) [OF inv n] and fs = schedule_resumes(3-9) [OF inv n]
  have same: "k\<lparr>state := x\<rparr> = k\<lparr>state := x, timer := None\<rparr>" if "timer k = None" for k :: os_task and x using that by simp
  note idle = idle_back [OF ok] and blocked = blocked_back [OF ok]
  show ?thesis
  proof (cases "ctx_kont (task s ?c)")
    case (K_Start proc prm)
    then have "sys_ok z True d L s" using idle kc by (simp add: kont_ok_def plain_def)
    then show ?thesis by (simp add: resume_def live_resumed_def K_Start)
  next
    case (K_Isr r)
    then have "sys_ok z True d L s" using idle kc by (simp add: kont_ok_def plain_def)
    then show ?thesis by (simp add: resume_def live_resumed_def K_Isr)
  next
    case (K_Schedule x)
    have "sys_ok z True d L (?s\<lparr>sreg := x\<rparr>)"
      by (rule fin [OF _ sch(1)]) (use kc K_Schedule fs same in \<open>auto simp: sch(2) kont_ok_def plain_def\<close>)
    then show ?thesis using fs(7) by (simp add: resume_def live_resumed_def K_Schedule)
  next
    case (K_ScheduleJoin x y t)
    have nL: "L - {join_q ?c} = L" using joins_okD(3) [OF tasks_okD(4) [OF tok], of ?c] K_ScheduleJoin by auto
    have "\<exists>v s'. os_task_join_tail y t (?s\<lparr>sreg := x\<rparr>) = ok (Return v, s') \<and> sys_ok z True d L s' \<and> mtx s' = mtx s"
      by (rule join_back [OF inv top w wq _ sch(1) refl nL [symmetric]]) (use kc K_ScheduleJoin fs same in \<open>auto simp: sch(2) kont_ok_def\<close>)
    then show ?thesis by (auto simp: resume_def live_resumed_def K_ScheduleJoin)
  next
    case (K_MtxLock x)
    obtain s' where s': "os_mtx_lock_resume x s = (block_code (task s ?c), s')" "kinv L Q ts s'" "task_current s' = ?c" "core_frame s s'"
      "task s' = (task s)(?c := (task s ?c)\<lparr>state := TASKSTATE_RUNNING\<rparr>)"
      using mtx_lock_resume_result [OF inv, of x] by blast
    have "sys_ok z True d L s'" by (rule fin [OF _ s'(2)]) (use kc K_MtxLock s'(3-5) n same in \<open>auto simp: kont_ok_def plain_def core_frame_def\<close>)
    then show ?thesis using s'(1,4) by (simp add: resume_def live_resumed_def K_MtxLock core_frame_def)
  next
    case (K_SemDown x)
    then show ?thesis using blocked [of x] by (simp add: resume_def live_resumed_def)
  next
    case (K_WaitqueueWait x)
    then show ?thesis using blocked [of x] by (simp add: resume_def live_resumed_def waitqueue_wait_resume_eq)
  next
    case (K_JoinDown x y t)
    then show ?thesis using join_resume_ok [OF ok K_JoinDown] by (simp add: live_resumed_def)
  next
    case K_Exit
    then show ?thesis using kc by (simp add: kont_ok_def plain_def)
  qed
qed

section \<open>Reachable states\<close>

lemma start_kinv: "kinv {ReadyQ} (\<lambda>_ _. []) [] (os_init boot)"
proof -
  have s: "sched_inv {ReadyQ} (\<lambda>_ _. []) (os_init boot)" "floating (os_init boot) = {}"
    using init_rel_boot by (auto simp: sched_inv_def init_fields task_ok_def zero_task_def OS_CONFIG_PRIOCNT_def floating_def)
  have f: "tmh (os_init boot) = tmh (os_timers_init boot)" "tmr (os_init boot) = tmr (os_timers_init boot)"
    "timer_tick_unsynch (os_init boot) = timer_tick_unsynch (os_timers_init boot)"
    by (simp_all add: os_init_def os_timers_init_def os_taskqueue_init_def os_task_init_def upd_task_def Let_def)
  have "tm_rel [] (os_init boot)" using boot_timers tm_rel_cong [OF f] by simp
  moreover have "guards {} {} (os_init boot)" using boot_magic by (simp add: guards_def init_fields zero_task_def f(2))
  ultimately show ?thesis using s by (simp add: kinv_def block_inv_def)
qed

lemma boot_mutexes: "mxh (os_init boot) = list_init (MtxList task_idle) (mxh boot)" "mtx (os_init boot) = mtx boot"
    "owner (mtx boot m) = None"
  by (simp_all add: os_init_def os_timers_init_def os_taskqueue_init_def os_task_init_def upd_task_def Let_def boot_def)

lemma start_world: "world_ok z True {ReadyQ} (os_init boot)"
proof -
  let ?s = "os_init boot"
  have q: "task_queue (task ?s t) = None" "timer (task ?s t) = None" "join_sem (task ?s t) = None" for t
    by (simp_all add: init_fields zero_task_def)
  have "tasks_ok True {ReadyQ} ?s" by (simp add: tasks_ok_def joins_ok_def suspended_def init_fields zero_task_def)
  moreover have "minv {ReadyQ} {task_idle} (\<lambda>_. []) ?s"
    by (simp add: minv_def mown_def q boot_mutexes dlist_Nil list_init_def set_next_def set_prev_def)
  moreover have "chain_ends ?s t" for t by (rule chain_ends.free) (simp add: q)
  moreover have "prio_justified ?s" by (simp add: prio_justified_def init_fields zero_task_def)
  moreover have "prio_exact ?s"
    by (simp add: prio_exact_def prio_inherited_def owners_run_def q boot_mutexes) (simp add: init_fields zero_task_def)
  moreover have "sems_ok ?s" by (simp add: sems_ok_def q)
  ultimately show ?thesis unfolding world_ok_def
    by (intro conjI mutex_okI) (auto simp: suspended_def zero_task_def init_fields)
qed

interpretation kernel_system: invariant_system sys_start sys_step sys_inv
proof
  show "sys_inv c" if "sys_start c" for c
    using that start_world by (auto simp: sys_start_def sys_inv_def init_fields intro!: sys_okI [OF start_kinv])
  show "sys_inv c'" if inv: "sys_inv c" and step: "sys_step c c'" for c c'
    using step
  proof (cases rule: sys_step.cases)
    case (step_call op r s')
    then show ?thesis using call_keeps_order [of "strict c" "deferred c" "live c" "kern c" op] inv by (auto simp: sys_inv_def)
  next
    case (step_irq i r s')
    then show ?thesis using irq_keeps_order [of "strict c" "deferred c" "live c" "kern c" i] inv by (auto simp: sys_inv_def)
  next
    case (step_resume r s')
    then show ?thesis using resume_keeps_order [of "strict c" "deferred c" "live c" "kern c"] inv by (auto simp: sys_inv_def)
  qed
qed

lemma reachable_ok:
  assumes "reachable sys_start sys_step c" and "s = kern c"
  shows "sys_ok (strict c) (running c) (deferred c) (live c) s"
    and "\<exists>Q ts. kinv (live c) Q ts s \<and> world_ok (strict c) (running c) (live c) s \<and> isr_nesting s = 0 \<and>
      (sched_lock s = 0 \<and> \<not> deferred c \<longrightarrow> top_runs Q s)"
proof -
  show *: "sys_ok (strict c) (running c) (deferred c) (live c) s"
    using kernel_system.reachable_inv [OF assms(1)] assms(2) by (simp add: sys_inv_def)
  show "\<exists>Q ts. kinv (live c) Q ts s \<and> world_ok (strict c) (running c) (live c) s \<and> isr_nesting s = 0 \<and>
      (sched_lock s = 0 \<and> \<not> deferred c \<longrightarrow> top_runs Q s)"
    using * unfolding sys_ok_def by blast
qed

text \<open>C1. In every state the system can reach from \<open>os_init\<close>, through any sequence of calls within their
  contracts and of interrupts wherever they are enabled, the kernel is in order: the current task is in
  no queue, the idle task is current or ready, every waiting task is in an existing queue that fits the
  reason of its blocking, and the linked queues, masks, timers and guards agree with each other. If the
  scheduler is not locked and no call has put scheduling off, no ready task has a higher priority than
  the current one.\<close>

theorem reachable_in_order:
  assumes "reachable sys_start sys_step c" and "s = kern c"
  shows "(\<exists>Q ts. kinv (live c) Q ts s) \<and> isr_nesting s = 0 \<and> task_queue (task s (task_current s)) = None \<and>
    (task_current s = task_idle \<or> task_queue (task s task_idle) = Some ReadyQ) \<and>
    (\<forall>t. state (task s t) = TASKSTATE_WAIT \<longrightarrow> (\<exists>q \<in> live c. task_queue (task s t) = Some q \<and> q \<noteq> ReadyQ \<and>
      block_type (task s t) = queue_block q)) \<and>
    (sched_lock s = 0 \<and> \<not> deferred c \<longrightarrow>
      (\<forall>t. task_queue (task s t) = Some ReadyQ \<longrightarrow> prio_current (task s t) \<le> prio_current (task s (task_current s))))"
proof -
  obtain Q ts where inv: "kinv (live c) Q ts s" and top: "sched_lock s = 0 \<and> \<not> deferred c \<longrightarrow> top_runs Q s"
    and n: "isr_nesting s = 0" using reachable_ok(2) [OF assms] by blast
  note sched = sched_invD [OF kinvD(1) [OF inv]]
  have "\<exists>q \<in> live c. task_queue (task s t) = Some q \<and> q \<noteq> ReadyQ \<and> block_type (task s t) = queue_block q"
    if "state (task s t) = TASKSTATE_WAIT" for t
    using waiting_queue [OF kinvD(1,3) [OF inv] that] by blast
  moreover have "prio_current (task s t) \<le> prio_current (task s (task_current s))"
    if "sched_lock s = 0 \<and> \<not> deferred c" "task_queue (task s t) = Some ReadyQ" for t
    using top that kinv_members [OF inv, of t ReadyQ] by (simp add: top_runs_def)
  ultimately show ?thesis using inv n sched(4,6) by blast
qed


lemma bchain_last: "bchain s us \<Longrightarrow> \<not> waits_mtx s (last us)"
  by (induction s us rule: bchain.induct) auto


text \<open>C5. Priority inheritance is exact: in every state reachable with discipline, each task has the highest of its own
  priority and those of the tasks that wait for its mutexes, which may themselves be inherited.\<close>

theorem reachable_priority_exact:
  assumes "reachable sys_start sys_step c" and "strict c" and "s = kern c"
  shows "prio_current (task s t) = Max (insert (prio_base (task s t))
    ((\<lambda>u. prio_current (task s u)) ` {u. \<exists>m. owner (mtx s m) = Some t \<and> task_queue (task s u) = Some (MtxQ m)}))" (is "_ = Max ?S")
proof -
  obtain Q ts where inv: "kinv (live c) Q ts s" and w: "world_ok True (running c) (live c) s"
    using reachable_ok(2) [OF assms(1,3)] assms(2) by auto
  obtain T M where mi: "minv (live c) T M s" and pj: "prio_justified s" and ex: "prio_exact s"
    using w by (auto simp: world_ok_def elim: mutex_okE)
  have "{u. \<exists>m. owner (mtx s m) = Some t \<and> task_queue (task s u) = Some (MtxQ m)} =
      {u. \<exists>m \<in> set (M t). task_queue (task s u) = Some (MtxQ m)}"
    using mownD(3) [OF minvD(1) [OF mi]] by auto
  then have fin: "finite ?S" using waiters_finite [OF inv] by simp
  have le: "x \<le> prio_current (task s t)" if "x \<in> ?S" for x
    using ex that by (auto simp: prio_exact_def prio_inherited_def)
  obtain x where x: "x \<in> ?S" "prio_current (task s t) \<le> x" using pj unfolding prio_justified_def by blast
  have "prio_current (task s t) = x" by (rule order_antisym [OF x(2) le [OF x(1)]])
  then have "prio_current (task s t) \<in> ?S" using x(1) by (simp only:)
  then show ?thesis by (intro Max_eqI [symmetric] fin le)
qed

text \<open>C7. The records of the kernel are well-formed in every reachable state: the priorities of all tasks are in
  range, a task in a queue is in one that exists and has the state and the reason of blocking that go with it,
  and the mask of a queue has exactly the bits of the priorities of its tasks.\<close>

theorem reachable_well_formed:
  assumes "reachable sys_start sys_step c" and "s = kern c"
  shows "unat (prio_current (task s t)) < OS_CONFIG_PRIOCNT \<and> unat (prio_base (task s t)) < OS_CONFIG_PRIOCNT \<and>
    (\<forall>q. task_queue (task s t) = Some q \<longrightarrow> q \<in> live c \<and>
      (if q = ReadyQ then state (task s t) = TASKSTATE_READY
       else state (task s t) = TASKSTATE_WAIT \<and> block_type (task s t) = queue_block q)) \<and>
    (\<forall>q \<in> live c. \<forall>p. bit (qmask s q) p \<longleftrightarrow> (\<exists>u. task_queue (task s u) = Some q \<and> unat (prio_current (task s u)) = p))"
proof -
  obtain Q ts where inv: "kinv (live c) Q ts s" using reachable_ok(2) [OF assms] by blast
  note rel = tq_relD [OF sched_invD(1) [OF kinvD(1) [OF inv]]] and tko = sched_invD(3) [OF kinvD(1) [OF inv]]
  have "bit (qmask s q) p \<longleftrightarrow> (\<exists>u. task_queue (task s u) = Some q \<and> unat (prio_current (task s u)) = p)" if "q \<in> live c" for q p
    using rel(2) [OF that, of p] rel(3) [of _ q p] rel(4) [of _ q] by (cases "Q q p") (simp, force, auto)
  then show ?thesis using tko [of t] queue_live [OF inv] by (auto simp: task_ok_def)
qed

lemma chain_no_self: "chain_ends s t \<Longrightarrow> task_queue (task s t) = Some (MtxQ k) \<Longrightarrow> owner (mtx s k) \<noteq> Some t"
  by (induction rule: chain_ends.induct) auto

text \<open>C4. Nobody waits in vain: in every reachable state, a task waits for a semaphore only if the value of the semaphore is
  0, so no wake-up is lost, and for a mutex only if another task owns it.\<close>

theorem reachable_waits_justified:
  assumes "reachable sys_start sys_step c" and "s = kern c"
  shows "(task_queue (task s t) = Some (SemQ m) \<longrightarrow> sem_value (sem s m) = 0) \<and>
    (task_queue (task s t) = Some (MtxQ k) \<longrightarrow> (\<exists>u. owner (mtx s k) = Some u \<and> u \<noteq> t))"
proof -
  have w: "world_ok (strict c) (running c) (live c) s" using reachable_ok(2) [OF assms] by blast
  then have "chain_ends s t" "sems_ok s" by (auto simp: world_ok_def elim: mutex_okE)
  moreover have "owner (mtx s k) \<noteq> None" if "task_queue (task s t) = Some (MtxQ k)"
    using w minvD(2) that by (auto simp: world_ok_def elim!: mutex_okE)
  ultimately show ?thesis using chain_no_self by (fastforce simp: sems_ok_def)
qed

text \<open>C3. Mutual exclusion: in every reachable state, only a step of the running task changes the owner of a mutex. Either
  the mutex was free and the task takes it, or the task owned it and gives it up. Interrupts, context switches and other
  tasks take no mutex away from its owner.\<close>

theorem reachable_mutual_exclusion:
  assumes "reachable sys_start sys_step c" and "sys_step c c'" and "owner (mtx (kern c') m) \<noteq> owner (mtx (kern c) m)"
  shows "running c \<and> (owner (mtx (kern c) m) = Some (task_current (kern c)) \<or>
    owner (mtx (kern c) m) = None \<and> owner (mtx (kern c') m) = Some (task_current (kern c)))"
  using assms(2)
proof (cases rule: sys_step.cases)
  case (step_call op r s')
  then have "sys_ok (strict c) True (deferred c) (live c) (kern c)" using reachable_ok(1) [OF assms(1) refl] by simp
  then have "owners_kept (kern c) s'" using call_keeps_order [OF _ step_call(3)] step_call(4) by fastforce
  then show ?thesis using step_call(1,2) assms(3) by (simp add: owners_kept_def)
next
  case (step_irq i r s')
  then have "sys_ok (strict c) True (deferred c) (live c) (kern c)" using reachable_ok(1) [OF assms(1) refl] by simp
  then have "mtx s' = mtx (kern c)" using irq_keeps_order [OF _ step_irq(4)] step_irq(5) by fastforce
  then show ?thesis using step_irq(1) assms(3) by simp
next
  case (step_resume r s')
  then have "sys_ok (strict c) False (deferred c) (live c) (kern c)" using reachable_ok(1) [OF assms(1) refl] by simp
  then have "mtx s' = mtx (kern c)" using resume_keeps_order step_resume(3) by fastforce
  then show ?thesis using step_resume(1) assms(3) by simp
qed

section \<open>A run\<close>

text \<open>From the start: a task of priority 3 is created, \<open>os_start\<close> switches to it, it creates and locks a mutex and
  creates a task of priority 4, which preempts it and blocks on the mutex.\<close>

abbreviation cfg :: "bool \<Rightarrow> qid set \<Rightarrow> kstate \<Rightarrow> sys" where
  "cfg run L s \<equiv> \<lparr>running = run, live = L, deferred = False, strict = True, kern = s\<rparr>"

abbreviation run_reaches :: "bool \<Rightarrow> qid set \<Rightarrow> kstate \<Rightarrow> bool" where
  "run_reaches run L s \<equiv> reachable sys_start sys_step (cfg run L s)"

lemma run_call_reaches:
  assumes "run_reaches True L s" and "contract op L s" and "run_call op s = ok (r, s')"
    and "\<not> deferred_after op s False" and "strict_after op s False True"
  shows "run_reaches (r \<noteq> Switched) (live_after op s L) s'"
  by (rule reachable.step [OF assms(1)]) (use step_call [of "cfg True L s" op r s'] assms(2-5) in simp)

lemma run_starts_task:
  assumes "run_reaches False L s" and "ctx_kont (task s (task_current s)) = K_Start proc prm"
  shows "run_reaches True L s"
  by (rule reachable.step [OF assms(1)])
    (use step_resume [of "cfg False L s" "Return (Entered proc prm)" s] assms(2) in \<open>simp add: resume_def live_resumed_def\<close>)

text \<open>A task of higher priority than the running one is created and gets the CPU.\<close>

lemma create_preempts:
  assumes r: "run_reaches True L s" and g: "contract (TaskCreate t prio stack sz proc prm) L s" and l: "sched_lock s = 0"
    and p: "prio_current (task s (task_current s)) < prio"
  shows "\<exists>s'. run_reaches False L s' \<and> task_current s' = t \<and> sched_lock s' = 0 \<and> waitqueue_current s' = None \<and> mtx s' = mtx s \<and>
    prio_base (task s' t) = prio \<and> prio_current (task s' t) = prio \<and> ctx_kont (task s' t) = K_Start proc prm \<and>
    task_queue (task s' (task_current s)) = Some ReadyQ \<and> same_tcb (task s (task_current s)) (task s' (task_current s)) \<and>
    (\<forall>u. u \<notin> {t, task_current s} \<longrightarrow> task s' u = task s u)"
proof -
  let ?c = "task_current s"
  obtain Q ts where inv: "kinv L Q ts s" and n: "isr_nesting s = 0" and top: "top_runs Q s" using reachable_ok(2) [OF r refl] l by auto
  have t: "t \<noteq> ?c" using g by (simp add: unused_task_def)
  obtain s2 Q2 where s2: "os_task_create t prio stack sz proc prm s = kbind (os_schedule (K_Schedule (sreg s)) 1 s2) (sched_exit (sreg s) Void)"
    "kinv L Q2 ts s2" "ready Q2 = prio_insert (\<lambda>x. prio_current (task s2 x)) t (ready Q)"
    "task s2 = (task s)(t := zero_task\<lparr>prio_base := prio, prio_current := prio, state := TASKSTATE_READY, stack_size := sz,
      stack_end := stack, ctx_sp := stack + sz - 36, ctx_kont := K_Start proc prm, task_queue := Some ReadyQ\<rparr>)"
    "sreg s2 = arch_dint (sreg s)" "isr_nesting s2 = 0" "sched_lock s2 = sched_lock s" "waitqueue_current s2 = None"
    "task_current s2 = ?c" "mtx s2 = mtx s"
    using create_run [OF inv n g] by blast
  have "prio_current (task s u) < prio" if "u \<in> set (ready Q)" for u using top that p by (auto simp: top_runs_def intro: le_less_trans)
  moreover have "t \<notin> set (ready Q)" using kinv_members [OF inv, of t ReadyQ] g by (auto simp: unused_task_def)
  ultimately have rd: "ready Q2 = t # ready Q" unfolding s2(3) by (intro prio_insert_below) (auto simp: s2(4))
  have pre: "preempts 1 s2 (ready Q2)"
    using p t l by (simp add: preempts_def rd s2(4,6,7,9) inc_le)
  obtain r s' Q' where s': "kbind (os_schedule (K_Schedule (sreg s)) 1 s2) (sched_exit (sreg s) Void) = ok (r, s')" "kinv L Q' ts s'"
    "sched_frame s2 s'" "same_tasks s2 s'" "\<forall>u. u \<notin> {task_current s2, task_current s'} \<longrightarrow> task s' u = task s2 u"
    "\<forall>u. u \<noteq> task_current s2 \<longrightarrow> ctx_kont (task s' u) = ctx_kont (task s2 u)"
    "if preempts 1 s2 (ready Q2) then task_current s' = hd (ready Q2) \<and> (r = Switched \<longleftrightarrow> isr_nesting s2 = 0) \<and>
       ready Q' = prio_insert (\<lambda>t. prio_current (task s2 t)) (task_current s2) (tl (ready Q2))
     else r = Return Void \<and> s' = s2\<lparr>sreg := sreg s\<rparr> \<and> Q' = Q2"
    using kinv_schedule_konts [OF s2(2), of "K_Schedule (sreg s)" 1 "sreg s" Void] is_dint_dint unfolding s2(5) by blast
  have e: "task_current s' = t" "r = Switched" "?c \<in> set (ready Q')" using s'(7) pre rd s2(6,9) by (simp_all add: set_prio_insert)
  have "run_reaches False L s'" using run_call_reaches [OF r g, of r s'] s2(1) s'(1) e(2) by simp
  moreover have tcb: "same_tcb (task s2 u) (task s' u)" for u using s'(4) by (simp add: same_tasks_def)
  have "prio_base (task s' t) = prio" "prio_current (task s' t) = prio" using tcb [of t] by (simp_all add: same_tcb_def s2(4))
  moreover have "same_tcb (task s ?c) (task s' ?c)" using tcb [of ?c] t by (simp add: s2(4))
  moreover have "ctx_kont (task s' t) = K_Start proc prm" using s'(6) t by (simp add: s2(4,9))
  moreover have "task_queue (task s' ?c) = Some ReadyQ" using kinv_members [OF s'(2), of ?c ReadyQ] e(3) by simp
  ultimately show ?thesis using s'(3,5) e(1) s2(4,7-10) l
    by (intro exI [of _ s']) (auto simp: sched_frame_iff)
qed

text \<open>From the start: a task of priority 3 is created, then \<open>os_start\<close> switches to it.\<close>

lemma demo_created:
  "\<exists>s Q ts. run_reaches True {ReadyQ} s \<and> kinv {ReadyQ} Q ts s \<and> ready Q = [2] \<and> task_current s = task_idle \<and> sched_lock s = 1 \<and>
     waitqueue_current s = None \<and> arch_is_dint (sreg s) \<and> mtx s = mtx boot \<and> prio_base (task s 2) = 3 \<and> prio_current (task s 2) = 3 \<and>
     ctx_kont (task s 2) = K_Start 7 9 \<and> task s task_idle = zero_task \<and> task s 3 = zero_task"
proof -
  let ?s = "os_init boot" and ?op = "TaskCreate 2 3 100 200 7 9"
  have r: "run_reaches True {ReadyQ} ?s" by (rule reachable.start) (simp add: sys_start_def)
  have g: "contract ?op {ReadyQ} ?s"
    by (simp add: unused_task_def init_fields zero_task_def task_idle_def OS_CONFIG_PRIOCNT_def OS_STACK_MINSIZE_def boot_mutexes)
  obtain s2 Q2 where s2: "os_task_create 2 3 100 200 7 9 ?s = kbind (os_schedule (K_Schedule (sreg ?s)) 1 s2) (sched_exit (sreg ?s) Void)"
    "kinv {ReadyQ} Q2 [] s2" "ready Q2 = prio_insert (\<lambda>x. prio_current (task s2 x)) 2 (ready (\<lambda>_ _. []))"
    "task s2 = (task ?s)(2 := zero_task\<lparr>prio_base := 3, prio_current := 3, state := TASKSTATE_READY, stack_size := 200,
      stack_end := 100, ctx_sp := 100 + 200 - 36, ctx_kont := K_Start 7 9, task_queue := Some ReadyQ\<rparr>)"
    "sreg s2 = arch_dint (sreg ?s)" "isr_nesting s2 = 0" "sched_lock s2 = sched_lock ?s" "waitqueue_current s2 = None"
    "task_current s2 = task_current ?s" "mtx s2 = mtx ?s"
    using create_run [OF start_kinv init_fields(4) g] by blast
  have "os_schedule (K_Schedule (sreg ?s)) 1 s2 = ok (Return (), s2)" using s2(5,7) by (simp add: os_schedule_def init_fields is_dint_dint)
  then have "run_call ?op ?s = ok (Return Void, s2\<lparr>sreg := sreg ?s\<rparr>)" using s2(1) by (simp add: sched_exit_def)
  from run_call_reaches [OF r g this] have "run_reaches True {ReadyQ} (s2\<lparr>sreg := sreg ?s\<rparr>)" by simp
  moreover have "ready Q2 = [2]" unfolding s2(3) by (simp add: flat_upto_empty prio_insert_def)
  ultimately show ?thesis using kinv_dint [OF s2(2)] s2(4,7-10)
    by (intro exI [of _ "s2\<lparr>sreg := sreg ?s\<rparr>"] exI [of _ Q2] exI [of _ "[]"]) (simp add: init_fields boot_mutexes task_idle_def)
qed

lemma demo_started:
  "\<exists>s. run_reaches False {ReadyQ} s \<and> task_current s = 2 \<and> sched_lock s = 0 \<and> waitqueue_current s = None \<and> mtx s = mtx boot \<and>
     prio_base (task s 2) = 3 \<and> prio_current (task s 2) = 3 \<and> ctx_kont (task s 2) = K_Start 7 9 \<and> task s 3 = zero_task"
proof -
  obtain s Q ts where s: "run_reaches True {ReadyQ} s" "kinv {ReadyQ} Q ts s" "ready Q = [2]" "task_current s = task_idle" "sched_lock s = 1"
    "waitqueue_current s = None" "arch_is_dint (sreg s)" "mtx s = mtx boot" "prio_base (task s 2) = 3" "prio_current (task s 2) = 3"
    "ctx_kont (task s 2) = K_Start 7 9" "task s task_idle = zero_task" "task s 3 = zero_task"
    using demo_created by blast
  have n: "isr_nesting s = 0" using reachable_ok(2) [OF s(1) refl] by auto
  let ?r = "arch_eint (sreg s)"
  let ?s = "s\<lparr>sched_lock := 0, sreg := arch_dint ?r\<rparr>"
  have inv: "sched_inv {ReadyQ} Q ?s" by (rule sched_inv_same [OF kinvD(1) [OF s(2)]]) simp_all
  have pre: "preempts 0 ?s (ready Q)" using s(3,4,10,12) n by (simp add: preempts_def zero_task_def)
  obtain r s' Q' where s': "kbind (os_schedule (K_Schedule ?r) 0 ?s) (sched_exit ?r Void) = ok (r, s')" "sched_frame ?s s'" "same_tasks ?s s'"
    "\<forall>t. t \<noteq> task_current ?s \<longrightarrow> ctx_kont (task s' t) = ctx_kont (task ?s t)"
    "\<forall>t. t \<notin> {task_current ?s, task_current s'} \<longrightarrow> task s' t = task ?s t"
    "if preempts 0 ?s (ready Q) then task_current s' = hd (ready Q) \<and> (r = Switched \<longleftrightarrow> isr_nesting ?s = 0) \<and>
       ready Q' = prio_insert (\<lambda>t. prio_current (task ?s t)) (task_current ?s) (tl (ready Q))
     else r = Return Void \<and> s' = ?s\<lparr>sreg := ?r\<rparr> \<and> Q' = Q"
    using schedule_exit_result [OF inv, of "K_Schedule ?r" 0 ?r Void] by (simp add: is_dint_dint) blast
  have e: "task_current s' = 2" "r = Switched" using s'(6) pre s(3) n by simp_all
  have "run_call Start s = ok (Switched, s')" using s'(1) e(2) s(4,7) by (simp add: os_start_def)
  then have "run_reaches False {ReadyQ} s'" using run_call_reaches [OF s(1), of Start Switched s'] s(4,6,7) by simp
  moreover have "prio_base (task s' 2) = 3" "prio_current (task s' 2) = 3" using s'(3) s(9,10) by (simp_all add: same_tasks_def same_tcb_def)
  moreover have "ctx_kont (task s' 2) = K_Start 7 9" "task s' 3 = zero_task"
    using s'(4,5) s(4,11,13) e(1) by (simp_all add: task_idle_def)
  ultimately show ?thesis using e(1) s'(2) s(6,8) by (intro exI [of _ s']) (simp add: sched_frame_iff)
qed

lemma demo_lock_step:
  "\<exists>s s'. run_reaches True {MtxQ 0, ReadyQ} s \<and> owner (mtx s 0) = None \<and> task_current s = 2 \<and>
     sys_step (cfg True {MtxQ 0, ReadyQ} s) (cfg True {MtxQ 0, ReadyQ} s') \<and> task_current s' = 2 \<and> sched_lock s' = 0 \<and>
     waitqueue_current s' = None \<and> owner (mtx s' 0) = Some 2 \<and> (\<forall>m. m \<noteq> 0 \<longrightarrow> owner (mtx s' m) = None) \<and>
     prio_base (task s' 2) = 3 \<and> prio_current (task s' 2) = 3 \<and> task s' 3 = zero_task"
proof -
  obtain s0 where s0: "run_reaches False {ReadyQ} s0" "task_current s0 = 2" "sched_lock s0 = 0" "waitqueue_current s0 = None" "mtx s0 = mtx boot"
    "prio_base (task s0 2) = 3" "prio_current (task s0 2) = 3" "ctx_kont (task s0 2) = K_Start 7 9" "task s0 3 = zero_task"
    using demo_started by blast
  have r0: "run_reaches True {ReadyQ} s0" by (rule run_starts_task [OF s0(1)]) (simp add: s0(2,8))
  obtain Q ts T M where i0: "kinv {ReadyQ} Q ts s0" "minv {ReadyQ} T M s0" "isr_nesting s0 = 0"
    using reachable_ok(2) [OF r0 refl] by (auto simp: world_ok_def elim: mutex_okE)
  obtain s1 where s1: "os_mtx_create 0 s0 = ok s1" "minv {MtxQ 0, ReadyQ} T M s1" "task s1 = task s0" "task_current s1 = 2"
    "sched_lock s1 = 0" "waitqueue_current s1 = None"
    using mtx_create_result [OF i0(1,2) _ i0(3) s0(4), of 0] s0(2,3) by auto
  have r1: "run_reaches True {MtxQ 0, ReadyQ} s1" using run_call_reaches [OF r0, of "MtxCreate 0" "Return Void" s1] s0(4) s1(1) by simp
  have none: "owner (mtx s1 m) = None" for m
    using owner_other [OF i0(2), where c = 0 and ms = "M 0" and s' = s1 and L' = "{MtxQ 0, ReadyQ}" and k = m] s1(2) s0(5) by (simp add: boot_mutexes)
  obtain Q1 ts1 T1 M1 where i1: "kinv {MtxQ 0, ReadyQ} Q1 ts1 s1" "minv {MtxQ 0, ReadyQ} T1 M1 s1" "isr_nesting s1 = 0" "\<And>t. alive s1 t \<Longrightarrow> t \<in> T1"
    using reachable_ok(2) [OF r1 refl] by (auto simp: world_ok_def elim: mutex_okE)
  have c: "task_current s1 \<in> T1" "task_current s1 \<noteq> task_idle" using i1(4) s1(4) by (auto simp: suspended_def task_idle_def)
  obtain h where h: "os_mtx_lock 0 s1 = ok (Return (Code OS_OK), s1\<lparr>mxh := h, mtx := (mtx s1)(0 := \<lparr>owner = Some 2, recur = 1\<rparr>)\<rparr>)"
    using lock_free [OF i1(1,2) _ none c(1) i1(3) c(2) s1(6)] s1(4) by auto
  let ?s = "s1\<lparr>mxh := h, mtx := (mtx s1)(0 := \<lparr>owner = Some 2, recur = 1\<rparr>)\<rparr>"
  have "contract (MtxLock 0) {MtxQ 0, ReadyQ} s1" using s1(6) c(2) none by (simp add: no_deadlock_def)
  then have "sys_step (cfg True {MtxQ 0, ReadyQ} s1) (cfg True {MtxQ 0, ReadyQ} ?s)"
    using step_call [of "cfg True {MtxQ 0, ReadyQ} s1" "MtxLock 0" "Return (Code OS_OK)" ?s] h s1(5) by simp
  then show ?thesis using r1 s1(3-6) s0(6,7,9) none by (intro exI [of _ s1] exI [of _ ?s]) simp
qed

lemma demo_locked:
  "\<exists>s. run_reaches True {MtxQ 0, ReadyQ} s \<and> task_current s = 2 \<and> sched_lock s = 0 \<and> waitqueue_current s = None \<and>
     owner (mtx s 0) = Some 2 \<and> (\<forall>m. m \<noteq> 0 \<longrightarrow> owner (mtx s m) = None) \<and> prio_base (task s 2) = 3 \<and> prio_current (task s 2) = 3 \<and>
     task s 3 = zero_task"
  using demo_lock_step reachable.step [where step = sys_step] by blast

lemma demo_waits:
  "\<exists>s. run_reaches False {MtxQ 0, ReadyQ} s \<and> task_queue (task s 3) = Some (MtxQ 0) \<and> owner (mtx s 0) = Some 2 \<and>
     prio_base (task s 2) = 3 \<and> prio_current (task s 3) = 4"
proof -
  let ?L = "{MtxQ 0, ReadyQ}"
  obtain s0 where s0: "run_reaches True ?L s0" "task_current s0 = 2" "sched_lock s0 = 0" "waitqueue_current s0 = None"
    "owner (mtx s0 0) = Some 2" "\<forall>m. m \<noteq> 0 \<longrightarrow> owner (mtx s0 m) = None" "prio_base (task s0 2) = 3" "prio_current (task s0 2) = 3"
    "task s0 3 = zero_task" using demo_locked by blast
  have "owner (mtx s0 m) \<noteq> Some 3" for m using s0(5,6) by (cases "m = 0") auto
  then have g0: "contract (TaskCreate 3 4 500 200 7 9) ?L s0"
    using s0(2,4,9) by (simp add: unused_task_def zero_task_def OS_CONFIG_PRIOCNT_def OS_STACK_MINSIZE_def)
  obtain s1 where s1: "run_reaches False ?L s1" "task_current s1 = 3" "sched_lock s1 = 0" "waitqueue_current s1 = None" "mtx s1 = mtx s0"
    "prio_current (task s1 3) = 4" "ctx_kont (task s1 3) = K_Start 7 9" "task_queue (task s1 2) = Some ReadyQ" "same_tcb (task s0 2) (task s1 2)"
    using create_preempts [OF s0(1) g0 s0(3)] s0(2,8) by auto
  have r1: "run_reaches True ?L s1" by (rule run_starts_task [OF s1(1)]) (simp add: s1(2,7))
  obtain Q ts T M where i: "kinv ?L Q ts s1" "minv ?L T M s1" "isr_nesting s1 = 0" "\<And>t. alive s1 t \<Longrightarrow> t \<in> T"
      "timer (task s1 (task_current s1)) = None"
    using reachable_ok(2) [OF r1 refl] world_cur(1) by (fastforce simp: world_ok_def elim: mutex_okE)
  have c: "task_current s1 \<in> T" "task_current s1 \<noteq> task_idle" using i(4) s1(2) by (auto simp: suspended_def task_idle_def)
  have o: "owner (mtx s1 0) = Some 2" "2 \<noteq> task_current s1" using s1(2,5) s0(5) by simp_all
  have w: "\<not> waits_mtx s1 2" using waits_mtx_iff [OF i(1), of 2] s1(8) by simp
  then have ch: "bchain s1 (2 # us) \<longleftrightarrow> us = []" for us by (cases us) auto
  have g1: "contract (MtxLock 0) ?L s1" using s1(4) c(2) o(1) by (simp add: no_deadlock_def ch)
  define pr where "pr = (\<lambda>u. if prio_current (task s1 2) < prio_current (task s1 (task_current s1)) \<and> u \<in> set [2]
    then prio_current (task s1 (task_current s1)) else prio_current (task s1 u))"
  obtain s' where s': "os_mtx_lock 0 s1 = ok (Switched, s')" "mtx s' = mtx s1" "task_queue (task s' (task_current s1)) = Some (MtxQ 0)"
    "\<forall>u. prio_current (task s' u) = pr u"
    "task s' = (\<lambda>u. if u = task_current s1
        then (task s1 u)\<lparr>prio_current := pr u, state := TASKSTATE_WAIT, block_type := OS_TASKBLOCK_MTX,
          task_queue := Some (MtxQ 0), ctx_kont := K_MtxLock (sreg s1)\<rparr>
        else if u = task_current s' then (task s1 u)\<lparr>prio_current := pr u, task_queue := None\<rparr>
        else (task s1 u)\<lparr>prio_current := pr u\<rparr>)"
    using lock_blocks [OF i(1,2) _ c(1) i(5) i(3) c(2) s1(4) o _ pr_def] w by auto
  have "run_reaches False ?L s'" using run_call_reaches [OF r1 g1, of Switched s'] s'(1) s1(3) by simp
  moreover have "prio_base (task s' 2) = 3" using s'(5) s1(2,9) s0(7) by (simp add: same_tcb_def)
  moreover have "prio_current (task s' 3) = 4" using s'(4) s1(2,6) by (simp add: pr_def)
  ultimately show ?thesis using s'(2,3) s1(2) o(1) by (intro exI [of _ s']) simp
qed

text \<open>The other way, the task of priority 3 creates a semaphore with value 0 and waits for it.\<close>

lemma demo_sem_waits: "\<exists>s. run_reaches False {SemQ (UserSem 0), ReadyQ} s \<and> task_queue (task s 2) = Some (SemQ (UserSem 0))"
proof -
  let ?L = "{SemQ (UserSem 0), ReadyQ}"
  obtain s0 where s0: "run_reaches False {ReadyQ} s0" "task_current s0 = 2" "waitqueue_current s0 = None" "ctx_kont (task s0 2) = K_Start 7 9"
    "mtx s0 = mtx boot"
    using demo_started by blast
  have r0: "run_reaches True {ReadyQ} s0" by (rule run_starts_task [OF s0(1)]) (simp add: s0(2,4))
  obtain Q ts where i0: "kinv {ReadyQ} Q ts s0" using reachable_ok(2) [OF r0 refl] by auto
  obtain s1 where s1: "os_sem_create (UserSem 0) 0 s0 = ok s1" "task_current s1 = 2" "waitqueue_current s1 = None"
    "sem s1 = (sem s0)(UserSem 0 := \<lparr>sem_value = 0\<rparr>)" "mtx s1 = mtx s0"
    using sem_create_result [OF i0 _ _ s0(3), of "UserSem 0" 0] s0(2,3) by (auto simp: ARCH_ATOMIC_MAX_def)
  have r1: "run_reaches True ?L s1"
    using run_call_reaches [OF r0, of "SemCreate 0 0" "Return Void" s1] s0(3) s1(1) by (simp add: ARCH_ATOMIC_MAX_def)
  obtain Q1 ts1 where i1: "kinv ?L Q1 ts1 s1" "world_ok True True ?L s1" "isr_nesting s1 = 0" using reachable_ok(2) [OF r1 refl] by auto
  have "owner (mtx s1 m) \<noteq> Some (task_current s1)" for m using s1(5) s0(5) by (simp add: boot_mutexes)
  then have e: "list_is_empty (MtxList 2) (mxh s1)" using owns_nothing [OF i1(2)] s1(2) by simp
  obtain s' where s': "os_sem_down K_SemDown (UserSem 0) OS_TIMEOUT_INFINITE s1 = ok (Switched, s')"
    "task_queue (task s' 2) = Some (SemQ (UserSem 0))"
    using sem_down_blocks [OF i1(1) _ world_cur(1) [OF i1(2)] i1(3) _ s1(3), of "UserSem 0" OS_TIMEOUT_INFINITE K_SemDown] s1(2,4) e
    by (auto simp: task_idle_def OS_TIMEOUT_TRY_def OS_TIMEOUT_INFINITE_def OS_TICKS_MAX_def)
  have "contract (SemDown 0 OS_TIMEOUT_INFINITE) ?L s1"
    using s1(2,3) e by (simp add: may_block_def timeout_fits_def task_idle_def)
  from run_call_reaches [OF r1 this, of Switched s'] show ?thesis using s'(1,2) by auto
qed

theorem reachable_waits_justified_witness:
  "(\<exists>c. reachable sys_start sys_step c \<and> task_queue (task (kern c) 2) = Some (SemQ (UserSem 0)) \<and> sem_value (sem (kern c) (UserSem 0)) = 0) \<and>
   (\<exists>c u. reachable sys_start sys_step c \<and> task_queue (task (kern c) 3) = Some (MtxQ 0) \<and> owner (mtx (kern c) 0) = Some u \<and> u \<noteq> 3)"
proof
  obtain s where s: "run_reaches False {SemQ (UserSem 0), ReadyQ} s" "task_queue (task s 2) = Some (SemQ (UserSem 0))" using demo_sem_waits by blast
  then show "\<exists>c. reachable sys_start sys_step c \<and> task_queue (task (kern c) 2) = Some (SemQ (UserSem 0)) \<and> sem_value (sem (kern c) (UserSem 0)) = 0"
    using reachable_waits_justified [OF s(1) refl, of 2 "UserSem 0" 0] by (intro exI [of _ "cfg False {SemQ (UserSem 0), ReadyQ} s"]) simp
  obtain s where s: "run_reaches False {MtxQ 0, ReadyQ} s" "task_queue (task s 3) = Some (MtxQ 0)" using demo_waits by blast
  then show "\<exists>c u. reachable sys_start sys_step c \<and> task_queue (task (kern c) 3) = Some (MtxQ 0) \<and> owner (mtx (kern c) 0) = Some u \<and> u \<noteq> 3"
    using reachable_waits_justified [OF s(1) refl, of 3 "UserSem 0" 0] by (intro exI [of _ "cfg False {MtxQ 0, ReadyQ} s"]) simp
qed

theorem reachable_mutual_exclusion_witness:
  "\<exists>c c'. reachable sys_start sys_step c \<and> sys_step c c' \<and> owner (mtx (kern c) 0) = None \<and> owner (mtx (kern c') 0) = Some 2 \<and>
     running c \<and> owner (mtx (kern c') 0) = Some (task_current (kern c))"
proof -
  obtain s s' where s: "run_reaches True {MtxQ 0, ReadyQ} s" "owner (mtx s 0) = None" "owner (mtx s' 0) = Some 2"
    "sys_step (cfg True {MtxQ 0, ReadyQ} s) (cfg True {MtxQ 0, ReadyQ} s')"
    using demo_lock_step by blast
  then show ?thesis using reachable_mutual_exclusion [OF s(1,4), of 0]
    by (intro exI [of _ "cfg True {MtxQ 0, ReadyQ} s"] exI [of _ "cfg True {MtxQ 0, ReadyQ} s'"]) simp
qed

theorem reachable_in_order_witness:
  "\<exists>c. reachable sys_start sys_step c \<and> task_current (kern c) = 2 \<and> task_queue (task (kern c) task_idle) = Some ReadyQ \<and>
     (\<forall>t. task_queue (task (kern c) t) = Some ReadyQ \<longrightarrow> prio_current (task (kern c) t) \<le> prio_current (task (kern c) 2))"
proof -
  obtain s where s: "run_reaches False {ReadyQ} s" "task_current s = 2" "sched_lock s = 0" using demo_started by blast
  then show ?thesis using reachable_in_order [OF s(1) refl] by (intro exI [of _ "cfg False {ReadyQ} s"]) (auto simp: task_idle_def)
qed



theorem reachable_priority_exact_witness:
  "\<exists>c. reachable sys_start sys_step c \<and> owner (mtx (kern c) 0) = Some 2 \<and> task_queue (task (kern c) 3) = Some (MtxQ 0) \<and>
     prio_base (task (kern c) 2) = 3 \<and> prio_current (task (kern c) 3) = 4 \<and> 4 \<le> prio_current (task (kern c) 2)"
proof -
  obtain s where s: "run_reaches False {MtxQ 0, ReadyQ} s" "task_queue (task s 3) = Some (MtxQ 0)" "owner (mtx s 0) = Some 2"
    "prio_base (task s 2) = 3" "prio_current (task s 3) = 4" using demo_waits by blast
  have "prio_current (task s 2) = Max (insert (prio_base (task s 2))
    ((\<lambda>u. prio_current (task s u)) ` {u. \<exists>m. owner (mtx s m) = Some 2 \<and> task_queue (task s u) = Some (MtxQ m)}))" (is "_ = Max ?S")
    by (rule reachable_priority_exact [OF s(1)]) simp_all
  moreover have "prio_current (task s 3) \<in> ?S" using s(2,3) by (intro insertI2 imageI) auto
  ultimately have "4 \<le> prio_current (task s 2)" unfolding s(5) by (simp only:) (rule Max_ge [OF finite])
  then show ?thesis using s by (intro exI [of _ "cfg False {MtxQ 0, ReadyQ} s"]) simp
qed

theorem reachable_well_formed_witness:
  "\<exists>c. reachable sys_start sys_step c \<and> task_queue (task (kern c) 3) = Some (MtxQ 0) \<and> state (task (kern c) 3) = TASKSTATE_WAIT \<and>
     bit (qmask (kern c) (MtxQ 0)) 4"
proof -
  obtain s where s: "run_reaches False {MtxQ 0, ReadyQ} s" "task_queue (task s 3) = Some (MtxQ 0)" "prio_current (task s 3) = 4"
    using demo_waits by blast
  then show ?thesis using reachable_well_formed [OF s(1) refl, of 3]
    by (intro exI [of _ "cfg False {MtxQ 0, ReadyQ} s"]) (auto intro: exI [of _ 3])
qed

section \<open>Scheduling put off by os\_waitqueue\_wait\<close>

text \<open>A task prepared to wait and an interrupt took the prepared state away. Then \<open>os_waitqueue_wait\<close> releases
  the scheduler lock and returns, but does not schedule: a task of higher priority that became ready while
  the scheduler was locked stays ready until the next tick or the next scheduling call.\<close>

lemma wait_leaves_higher_ready:
  assumes "isr_nesting s = 0" "may_block s" "OS_TIMEOUT_TRY < timeout" "waitqueue_current s = None" "sched_lock s = 1"
    and "task_queue (task s t) = Some ReadyQ" "prio_current (task s (task_current s)) < prio_current (task s t)"
  shows "\<exists>v s'. os_waitqueue_wait timeout s = ok (Return v, s') \<and> sched_lock s' = 0 \<and> task_current s' = task_current s \<and>
    task_queue (task s' t) = Some ReadyQ \<and> prio_current (task s' (task_current s')) < prio_current (task s' t)"
  using wait_returns [of s timeout] assms by (auto simp: may_block_def)

end
