(* ===== verification/Avr_Asm.thy ===== *)
theory Avr_Asm
  imports Sched
begin

text \<open>
  The assembler of the AVR port, instruction by instruction: \<open>arch_context_switch\<close> of
  \<^verbatim>\<open>arch/avr/arch_port.c\<close> and the interrupt macros \<open>arch_contextstore_i\<close> and
  \<open>arch_contextrestore_i\<close> of \<^verbatim>\<open>arch/avr/arch_port.h\<close>, executed on a machine of registers, stack
  pointer, status register and data memory. The kernel model treats a context switch as the exchange
  of continuations; this theory shows that the code saves and restores the contexts behind them.
\<close>

section \<open>The machine\<close>

record avr =
  avr_reg :: "nat \<Rightarrow> u8"
  avr_sp :: u16
  avr_sreg :: u8
  avr_mem :: "u16 \<Rightarrow> u8"
  avr_pc :: u16

datatype avr_io = SP_L | SP_H | SREG

datatype avr_op =
    PUSH nat | POP nat | EOR nat nat | IN nat avr_io | OUT avr_io nat | SBIW nat u16
  | LDS nat u16 | STS u16 nat | LDD_Z nat u16 | STD_Z u16 nat | MOVW nat nat
  | INC nat | DEC nat | CPI nat u8 | SBR nat u8 | CBR nat u8 | CLI

datatype avr_instr =
    Op avr_op | LABEL string | BRNE string | RJMP string | SBRC nat nat | RET | RETI

definition word_of_bytes :: "u8 \<Rightarrow> u8 \<Rightarrow> u16" where
  "word_of_bytes hi lo = push_bit 8 (ucast hi) OR ucast lo"

definition put_flag :: "nat \<Rightarrow> bool \<Rightarrow> u8 \<Rightarrow> u8" where
  "put_flag n b r = (if b then r OR push_bit n 1 else r AND NOT (push_bit n 1))"

text \<open>The flags S, V, N and Z after an operation with the result \<open>r\<close>.\<close>

definition svnz :: "bool \<Rightarrow> bool \<Rightarrow> bool \<Rightarrow> u8 \<Rightarrow> u8" where
  "svnz v n z sr = put_flag 4 (n \<noteq> v) (put_flag 3 v (put_flag 2 n (put_flag 1 z sr)))"

definition avr_set :: "nat \<Rightarrow> u8 \<Rightarrow> avr \<Rightarrow> avr" where
  "avr_set r v m = m\<lparr>avr_reg := (avr_reg m)(r := v)\<rparr>"

definition avr_pair :: "nat \<Rightarrow> avr \<Rightarrow> u16" where
  "avr_pair r m = word_of_bytes (avr_reg m (r + 1)) (avr_reg m r)"

definition avr_flags :: "bool \<Rightarrow> u8 \<Rightarrow> avr \<Rightarrow> avr" where
  "avr_flags v res m = m\<lparr>avr_sreg := svnz v (bit res 7) (res = 0) (avr_sreg m)\<rparr>"

fun avr_in :: "avr_io \<Rightarrow> avr \<Rightarrow> u8" where
  "avr_in SP_L m = lo_byte (avr_sp m)"
| "avr_in SP_H m = hi_byte (avr_sp m)"
| "avr_in SREG m = avr_sreg m"

fun avr_out :: "avr_io \<Rightarrow> u8 \<Rightarrow> avr \<Rightarrow> avr" where
  "avr_out SP_L v m = m\<lparr>avr_sp := word_of_bytes (hi_byte (avr_sp m)) v\<rparr>"
| "avr_out SP_H v m = m\<lparr>avr_sp := word_of_bytes v (lo_byte (avr_sp m))\<rparr>"
| "avr_out SREG v m = m\<lparr>avr_sreg := v\<rparr>"

fun avr_step :: "avr_op \<Rightarrow> avr \<Rightarrow> avr" where
  "avr_step (PUSH r) m = m\<lparr>avr_mem := (avr_mem m)(avr_sp m := avr_reg m r), avr_sp := avr_sp m - 1\<rparr>"
| "avr_step (POP r) m = avr_set r (avr_mem m (avr_sp m + 1)) (m\<lparr>avr_sp := avr_sp m + 1\<rparr>)"
| "avr_step (EOR d r) m =
     (let v = avr_reg m d XOR avr_reg m r in avr_flags False v (avr_set d v m))"
| "avr_step (IN r io) m = avr_set r (avr_in io m) m"
| "avr_step (OUT io r) m = avr_out io (avr_reg m r) m"
| "avr_step (SBIW r k) m =
     (let a = avr_pair r m; v = a - k;
          m = avr_set (r + 1) (hi_byte v) (avr_set r (lo_byte v) m)
      in m\<lparr>avr_sreg := put_flag 0 (a < k)
             (svnz (bit a 15 \<and> \<not> bit v 15) (bit v 15) (v = 0) (avr_sreg m))\<rparr>)"
| "avr_step (LDS r a) m = avr_set r (avr_mem m a) m"
| "avr_step (STS a r) m = m\<lparr>avr_mem := (avr_mem m)(a := avr_reg m r)\<rparr>"
| "avr_step (LDD_Z r q) m = avr_set r (avr_mem m (avr_pair 30 m + q)) m"
| "avr_step (STD_Z q r) m = m\<lparr>avr_mem := (avr_mem m)(avr_pair 30 m + q := avr_reg m r)\<rparr>"
| "avr_step (MOVW d r) m = avr_set (d + 1) (avr_reg m (r + 1)) (avr_set d (avr_reg m r) m)"
| "avr_step (INC r) m = (let v = avr_reg m r + 1 in avr_flags (v = 0x80) v (avr_set r v m))"
| "avr_step (DEC r) m = (let v = avr_reg m r - 1 in avr_flags (v = 0x7F) v (avr_set r v m))"
| "avr_step (CPI r k) m =
     (let a = avr_reg m r; v = a - k;
          m = avr_flags ((bit a 7 \<and> \<not> bit k 7 \<and> \<not> bit v 7) \<or> (\<not> bit a 7 \<and> bit k 7 \<and> bit v 7)) v m
      in m\<lparr>avr_sreg := put_flag 5 (a AND 0xF < k AND 0xF) (put_flag 0 (a < k) (avr_sreg m))\<rparr>)"
| "avr_step (SBR r k) m = (let v = avr_reg m r OR k in avr_flags False v (avr_set r v m))"
| "avr_step (CBR r k) m = (let v = avr_reg m r AND NOT k in avr_flags False v (avr_set r v m))"
| "avr_step CLI m = m\<lparr>avr_sreg := arch_dint (avr_sreg m)\<rparr>"

text \<open>The return address lies on the stack with its high byte at the lower address.\<close>

definition avr_ret :: "avr \<Rightarrow> avr" where
  "avr_ret m = m\<lparr>avr_pc := word_of_bytes (avr_mem m (avr_sp m + 1)) (avr_mem m (avr_sp m + 2)),
     avr_sp := avr_sp m + 2\<rparr>"

text \<open>All jumps of the code go forward, to a label in the rest of the program. The program ends with
  a return, or falls through its end into the code that follows.\<close>

definition avr_jump :: "string \<Rightarrow> avr_instr list \<Rightarrow> avr_instr list" where
  "avr_jump l is = dropWhile (\<lambda>i. i \<noteq> LABEL l) is"

function avr_exec :: "avr_instr list \<Rightarrow> avr \<Rightarrow> avr" where
  "avr_exec [] m = m"
| "avr_exec (Op x # is) m = avr_exec is (avr_step x m)"
| "avr_exec (LABEL l # is) m = avr_exec is m"
| "avr_exec (BRNE l # is) m = (if \<not> bit (avr_sreg m) 1 then avr_exec (avr_jump l is) m else avr_exec is m)"
| "avr_exec (RJMP l # is) m = avr_exec (avr_jump l is) m"
| "avr_exec (SBRC r b # is) m = (if \<not> bit (avr_reg m r) b then avr_exec (drop 1 is) m else avr_exec is m)"
| "avr_exec (RET # is) m = avr_ret m"
| "avr_exec (RETI # is) m = (avr_ret m)\<lparr>avr_sreg := arch_eint (avr_sreg m)\<rparr>"
  by pat_completeness auto
termination
  by (relation "measure (length \<circ> fst)") (auto simp: avr_jump_def less_Suc_eq_le length_dropWhile_le)

section \<open>The code\<close>

text \<open>The addresses of the variables \<open>task_current\<close> (\<open>tc\<close>) and \<open>isr_nesting\<close> (\<open>ni\<close>) are given by the linker.
  The context is the first member of \<open>os_task_t\<close>, so a task pointer points to \<open>ctx.sp\<close>.\<close>

definition avr_contextstore_i :: "u16 \<Rightarrow> u16 \<Rightarrow> avr_instr list" where
  "avr_contextstore_i tc ni =
     [Op (PUSH 16),
      Op (IN 16 SREG), Op (SBR 16 0x80), Op (PUSH 16)] @
     map (\<lambda>r. Op (PUSH r))
       [28, 29,
        0, 1, 2, 3, 4, 5, 6, 7, 8, 9, 10, 11, 12, 13, 14, 15,
        17, 18, 19, 20, 21, 22, 23, 24, 25, 26, 27, 30, 31] @
     [Op (LDS 16 ni), Op (INC 16), Op (STS ni 16),
      Op (IN 28 SP_L), Op (IN 29 SP_H),
      Op (EOR 1 1),
      Op (CPI 16 1),
      BRNE ''isr_contextstore_nested'',
      Op (LDS 30 tc), Op (LDS 31 (tc + 1)),
      Op (STD_Z 0 28), Op (STD_Z 1 29),
      LABEL ''isr_contextstore_nested'']"

text \<open>The end shared by the two ways to restore a context.\<close>

definition avr_restore :: "string \<Rightarrow> avr_instr list" where
  "avr_restore enableint =
     map (\<lambda>r. Op (POP r))
       [31, 30, 27, 26, 25, 24, 23, 22, 21, 20, 19, 18, 17,
        15, 14, 13, 12, 11, 10, 9, 8, 7, 6, 5, 4, 3, 2, 1, 0,
        29, 28] @
     [Op (POP 16),
      SBRC 16 7,
      RJMP enableint,
      Op (OUT SREG 16), Op (POP 16),
      RET,
      LABEL enableint,
      Op (CBR 16 0x80),
      Op (OUT SREG 16), Op (POP 16),
      RETI]"

definition avr_contextrestore_i :: "u16 \<Rightarrow> u16 \<Rightarrow> avr_instr list" where
  "avr_contextrestore_i tc ni =
     [Op CLI,
      Op (LDS 16 ni), Op (DEC 16), Op (STS ni 16),
      BRNE ''isr_contextrestore_nested'',
      Op (LDS 30 tc), Op (LDS 31 (tc + 1)),
      Op (LDD_Z 16 0), Op (LDD_Z 17 1),
      Op (OUT SP_L 16), Op (OUT SP_H 17),
      LABEL ''isr_contextrestore_nested''] @
     avr_restore ''isr_contextrestore_enableint''"

text \<open>\<open>new_task\<close>, the operand \<open>%0\<close>, is in the registers 24 and 25.\<close>

definition avr_context_switch :: "u16 \<Rightarrow> avr_instr list" where
  "avr_context_switch tc =
     [Op (PUSH 16),
      Op (EOR 16 16), Op (PUSH 16)] @
     map (\<lambda>r. Op (PUSH r))
       [28, 29,
        0, 1, 2, 3, 4, 5, 6, 7, 8, 9, 10, 11, 12, 13, 14, 15,
        17] @
     [Op (IN 28 SP_L), Op (IN 29 SP_H),
      Op (SBIW 28 12),
      Op (LDS 30 tc), Op (LDS 31 (tc + 1)),
      Op (STD_Z 0 28), Op (STD_Z 1 29),
      Op (STS tc 24), Op (STS (tc + 1) 25),
      Op (MOVW 30 24),
      Op (LDD_Z 28 0), Op (LDD_Z 29 1),
      Op (OUT SP_L 28), Op (OUT SP_H 29)] @
     avr_restore ''arch_context_switch_enableint''"

text \<open>A call, and the entry of an interrupt, push the return address; the interrupt clears I.\<close>

definition avr_call :: "avr \<Rightarrow> avr" where
  "avr_call m = m\<lparr>avr_mem := (avr_mem m)(avr_sp m := lo_byte (avr_pc m), avr_sp m - 1 := hi_byte (avr_pc m)),
     avr_sp := avr_sp m - 2\<rparr>"

definition avr_interrupt :: "avr \<Rightarrow> avr" where
  "avr_interrupt m = (avr_call m)\<lparr>avr_sreg := arch_dint (avr_sreg m)\<rparr>"

section \<open>Pushing and popping\<close>

lemma exec_pushes:
  "avr_exec (map (\<lambda>r. Op (PUSH r)) rs @ is) m = avr_exec is
     (m\<lparr>avr_sp := fst (store_desc (map (avr_reg m) rs) (avr_sp m) (avr_mem m)),
        avr_mem := snd (store_desc (map (avr_reg m) rs) (avr_sp m) (avr_mem m))\<rparr>)"
  by (induction rs arbitrary: m) simp_all

fun popped :: "nat list \<Rightarrow> u16 \<Rightarrow> (u16 \<Rightarrow> u8) \<Rightarrow> (nat \<Rightarrow> u8) \<Rightarrow> nat \<Rightarrow> u8" where
  "popped [] p mm f = f"
| "popped (r # rs) p mm f = popped rs (p + 1) mm (f(r := mm (p + 1)))"

lemma exec_pops:
  "avr_exec (map (\<lambda>r. Op (POP r)) rs @ is) m = avr_exec is
     (m\<lparr>avr_reg := popped rs (avr_sp m) (avr_mem m) (avr_reg m), avr_sp := avr_sp m + word_of_nat (length rs)\<rparr>)"
  by (induction rs arbitrary: m) (simp_all add: avr_set_def add.assoc)

lemma popped_other: "r \<notin> set rs \<Longrightarrow> popped rs p mm f r = f r"
  by (induction rs arbitrary: p f) simp_all

lemma popped_nth:
  "distinct rs \<Longrightarrow> i < length rs \<Longrightarrow> popped rs p mm f (rs ! i) = mm (p + word_of_nat (Suc i))"
proof (induction rs arbitrary: p f i)
  case (Cons r rs)
  show ?case
  proof (cases i)
    case 0
    then show ?thesis using Cons.prems by (simp add: popped_other)
  next
    case (Suc j)
    then show ?thesis using Cons.IH [of j "p + 1"] Cons.prems by (simp add: add.assoc)
  qed
qed simp

lemma byte_masks: "(0x00ff :: u16) = mask 8" "(0xff00 :: u16) = push_bit 8 (mask 8)"
  by (simp_all add: mask_eq_exp_minus_1 push_bit_eq_mult)

lemma bit_bytes:
  "bit (lo_byte w) n \<longleftrightarrow> n < 8 \<and> bit w n" "bit (hi_byte w) n \<longleftrightarrow> n < 8 \<and> bit w (n + 8)"
  "bit (word_of_bytes h l) n \<longleftrightarrow> (if n < 8 then bit l n else bit h (n - 8))"
  unfolding lo_byte_def hi_byte_def word_of_bytes_def byte_masks
  by (auto simp: bit_simps ac_simps dest: bit_imp_le_length)

lemma word_of_bytes_split [simp]:
  "word_of_bytes (hi_byte w) (lo_byte w) = w" "lo_byte (word_of_bytes h l) = l" "hi_byte (word_of_bytes h l) = h"
  by (auto simp: bit_eq_iff bit_bytes dest: bit_imp_le_length)

section \<open>Contexts on the stack\<close>

text \<open>The registers of a context whose saved stack pointer is \<open>p\<close>: the place of each above \<open>p\<close>.\<close>

definition avr_pop_order :: "nat list" where
  "avr_pop_order = [31, 30, 27, 26, 25, 24, 23, 22, 21, 20, 19, 18, 17,
     15, 14, 13, 12, 11, 10, 9, 8, 7, 6, 5, 4, 3, 2, 1, 0, 29, 28]"

definition avr_slot :: "nat \<Rightarrow> nat" where
  "avr_slot r = (if r = 16 then 33 else Suc (length (takeWhile (\<lambda>x. x \<noteq> r) avr_pop_order)))"

definition avr_resumed :: "u16 \<Rightarrow> avr \<Rightarrow> avr" where
  "avr_resumed p m = m\<lparr>avr_reg := (\<lambda>r. if r < 32 then avr_mem m (p + word_of_nat (avr_slot r)) else avr_reg m r),
     avr_sp := p + 35, avr_sreg := avr_mem m (p + 32),
     avr_pc := word_of_bytes (avr_mem m (p + 34)) (avr_mem m (p + 35))\<rparr>"

lemma pop_order: "distinct avr_pop_order" "length avr_pop_order = 31" "set avr_pop_order = {0..<32} - {16}"
proof -
  have "set avr_pop_order = set [0..<32] - {16}" by code_simp
  then show "set avr_pop_order = {0..<32} - {16}" by simp
qed (simp_all add: avr_pop_order_def)

lemma bit_0x80: "bit (0x80 :: u8) 7"
proof -
  have "bit (push_bit SREG_I (1 :: u8)) 7" "push_bit SREG_I (1 :: u8) = 0x80" by (simp_all add: SREG_I_def bit_simps)
  then show ?thesis by metis
qed

lemma eint_cleared:
  assumes "bit (v :: u8) 7"
  shows "arch_eint (v AND NOT 0x80) = v"
proof -
  have I: "SREG_I = 7" "(0x80 :: u8) = push_bit SREG_I 1" by (simp_all add: SREG_I_def)
  show ?thesis unfolding I(2) arch_eint_def
  proof (rule bit_word_eqI)
    fix n assume n: "n < LENGTH(8)"
    then show "bit (v AND NOT (push_bit SREG_I 1) OR push_bit SREG_I 1) n = bit v n"
      using assms I(1) by (cases "n = SREG_I") (auto simp: bit_simps)
  qed
qed

lemma takeWhile_index: "x \<in> set xs \<Longrightarrow> length (takeWhile (\<lambda>y. y \<noteq> x) xs) < length xs \<and>
   xs ! length (takeWhile (\<lambda>y. y \<noteq> x) xs) = x"
  by (induction xs) auto

lemma popped_slot:
  "r < 32 \<Longrightarrow> r \<noteq> 16 \<Longrightarrow> popped avr_pop_order p mm f r = mm (p + word_of_nat (avr_slot r))"
  using takeWhile_index [of r avr_pop_order] popped_nth [OF pop_order(1), of _ p mm f]
  by (fastforce simp: pop_order(3) avr_slot_def)

text \<open>Executing the end of a restore continues exactly the context at the stack pointer, with the
  status register it was saved with, whichever of the two returns is taken.\<close>

lemma restore_resumes: "avr_exec (avr_restore l) m = avr_resumed (avr_sp m) m"
proof -
  let ?f = "popped avr_pop_order (avr_sp m) (avr_mem m) (avr_reg m)"
  let ?v = "avr_mem m (avr_sp m + 32)"
  have regs: "(\<lambda>r. if r = 16 then avr_mem m (avr_sp m + 33) else ?f r) =
      (\<lambda>r. if r < 32 then avr_mem m (avr_sp m + word_of_nat (avr_slot r)) else avr_reg m r)"
    by (auto simp: popped_slot popped_other pop_order(3) avr_slot_def fun_eq_iff)
  have tail: "avr_restore l = map (\<lambda>r. Op (POP r)) avr_pop_order @ [Op (POP 16), SBRC 16 7, RJMP l,
      Op (OUT SREG 16), Op (POP 16), RET, LABEL l, Op (CBR 16 0x80), Op (OUT SREG 16), Op (POP 16), RETI]"
    by (simp add: avr_restore_def avr_pop_order_def)
  have e: "avr_exec (avr_restore l) m = m\<lparr>avr_reg := (\<lambda>r. if r = 16 then avr_mem m (avr_sp m + 33) else ?f r),
     avr_sp := avr_sp m + 35, avr_sreg := ?v,
     avr_pc := word_of_bytes (avr_mem m (avr_sp m + 34)) (avr_mem m (avr_sp m + 35))\<rparr>"
    unfolding tail exec_pops pop_order(2) using eint_cleared
    by (cases "bit ?v 7") (simp_all add: avr_set_def avr_flags_def avr_ret_def avr_jump_def Let_def add.assoc fun_eq_iff)
  show ?thesis unfolding e regs by (simp add: avr_resumed_def)
qed

section \<open>Saving and restoring\<close>

definition avr_word :: "(u16 \<Rightarrow> u8) \<Rightarrow> u16 \<Rightarrow> u16" where
  "avr_word mm a = word_of_bytes (mm (a + 1)) (mm a)"

lemma bit_put_flag: "n < 8 \<Longrightarrow> k < 8 \<Longrightarrow> bit (put_flag n b r) k \<longleftrightarrow> (if k = n then b else bit r k)"
  by (auto simp: put_flag_def bit_simps)

lemma bit_svnz: "bit (svnz v n z r) (Suc 0) \<longleftrightarrow> z"
  by (simp add: svnz_def bit_put_flag)

lemma avr_pair_word:
  "avr_pair r m = word_of_bytes (avr_reg m (r + 1)) (avr_reg m r)" by (simp add: avr_pair_def)

lemma resumed_cong:
  assumes "avr_mem m' = avr_mem m" and "\<And>r. r \<ge> 32 \<Longrightarrow> avr_reg m' r = avr_reg m r"
  shows "avr_resumed p m' = avr_resumed p m"
  using assms by (cases m; cases m') (auto simp: avr_resumed_def fun_eq_iff)

lemma contextrestore_exec:
  assumes "mm = (avr_mem m)(ni := avr_mem m ni - 1)"
  shows "avr_exec (avr_contextrestore_i tc ni) m =
    avr_resumed (if mm ni = 0 then avr_word mm (avr_word mm tc) else avr_sp m) (m\<lparr>avr_mem := mm\<rparr>)"
  by (auto simp: avr_contextrestore_i_def restore_resumes avr_set_def avr_flags_def avr_jump_def bit_svnz Let_def
      avr_pair_def avr_word_def assms intro!: resumed_cong)

text \<open>The bytes of a full context, from the top of the stack down.\<close>

definition avr_frame :: "u8 \<Rightarrow> avr \<Rightarrow> u8 list" where
  "avr_frame sr m = [lo_byte (avr_pc m), hi_byte (avr_pc m), avr_reg m 16, sr] @ map (avr_reg m) (rev avr_pop_order)"

lemma push_other: "map (f(16 := v)) (rev avr_pop_order) = map f (rev avr_pop_order)"
  by (simp add: avr_pop_order_def)

lemma store_desc_append:
  "store_desc (as @ bs) p mm = store_desc bs (fst (store_desc as p mm)) (snd (store_desc as p mm))"
  by (induction as arbitrary: p mm) simp_all

lemma frame_len: "length (avr_frame sr m) = 35"
  by (simp add: avr_frame_def pop_order(2))

lemma contextstore_pushed:
  assumes "f = store_desc (avr_frame (arch_dint (avr_sreg m) OR 0x80) m) (avr_sp m) (avr_mem m)"
  shows "avr_exec (avr_contextstore_i tc ni) (avr_interrupt m) = avr_exec
     [Op (LDS 16 ni), Op (INC 16), Op (STS ni 16), Op (IN 28 SP_L), Op (IN 29 SP_H), Op (EOR 1 1), Op (CPI 16 1),
      BRNE ''isr_contextstore_nested'', Op (LDS 30 tc), Op (LDS 31 (tc + 1)),
      Op (STD_Z 0 28), Op (STD_Z 1 29), LABEL ''isr_contextstore_nested'']
     (m\<lparr>avr_reg := (avr_reg m)(16 := arch_dint (avr_sreg m) OR 0x80), avr_sp := avr_sp m - 35,
        avr_sreg := svnz False (bit (arch_dint (avr_sreg m) OR 0x80) 7) (arch_dint (avr_sreg m) OR 0x80 = 0) (arch_dint (avr_sreg m)),
        avr_mem := snd f\<rparr>)"
proof -
  have code: "avr_contextstore_i tc ni = [Op (PUSH 16), Op (IN 16 SREG), Op (SBR 16 0x80), Op (PUSH 16)] @
     map (\<lambda>r. Op (PUSH r)) (rev avr_pop_order) @
     [Op (LDS 16 ni), Op (INC 16), Op (STS ni 16), Op (IN 28 SP_L), Op (IN 29 SP_H), Op (EOR 1 1), Op (CPI 16 1),
      BRNE ''isr_contextstore_nested'', Op (LDS 30 tc), Op (LDS 31 (tc + 1)),
      Op (STD_Z 0 28), Op (STD_Z 1 29), LABEL ''isr_contextstore_nested'']"
    by (simp add: avr_contextstore_i_def avr_pop_order_def)
  have p: "fst f = avr_sp m - 35"
    using store_desc_result(1) [of "avr_frame (arch_dint (avr_sreg m) OR 0x80) m" "avr_sp m" "avr_mem m"]
    by (simp add: assms frame_len)
  have "avr_exec (avr_contextstore_i tc ni) (avr_interrupt m) = avr_exec (map (\<lambda>r. Op (PUSH r)) (rev avr_pop_order) @
     [Op (LDS 16 ni), Op (INC 16), Op (STS ni 16), Op (IN 28 SP_L), Op (IN 29 SP_H), Op (EOR 1 1), Op (CPI 16 1),
      BRNE ''isr_contextstore_nested'', Op (LDS 30 tc), Op (LDS 31 (tc + 1)),
      Op (STD_Z 0 28), Op (STD_Z 1 29), LABEL ''isr_contextstore_nested''])
     (m\<lparr>avr_reg := (avr_reg m)(16 := arch_dint (avr_sreg m) OR 0x80), avr_sp := avr_sp m - 4,
        avr_sreg := svnz False (bit (arch_dint (avr_sreg m) OR 0x80) 7) (arch_dint (avr_sreg m) OR 0x80 = 0) (arch_dint (avr_sreg m)),
        avr_mem := (avr_mem m)(avr_sp m := lo_byte (avr_pc m), avr_sp m - 1 := hi_byte (avr_pc m),
          avr_sp m - 2 := avr_reg m 16, avr_sp m - 3 := arch_dint (avr_sreg m) OR 0x80)\<rparr>)"
    unfolding code by (cases m) (simp add: avr_interrupt_def avr_call_def avr_set_def avr_flags_def Let_def)
  then show ?thesis unfolding exec_pushes using p
    by (cases m) (simp add: assms avr_frame_def push_other del: avr_exec.simps)
qed

lemma contextstore_exec:
  assumes mm: "mm = snd (store_desc (avr_frame (arch_dint (avr_sreg m) OR 0x80) m) (avr_sp m) (avr_mem m))"
    and m1: "m1 = avr_exec (avr_contextstore_i tc ni) (avr_interrupt m)" and mm': "mm' = mm(ni := mm ni + 1)"
  shows "avr_sp m1 = avr_sp m - 35"
    and "avr_mem m1 = (if mm' ni = 1
      then mm'(avr_word mm' tc := lo_byte (avr_sp m - 35), avr_word mm' tc + 1 := hi_byte (avr_sp m - 35)) else mm')"
  unfolding m1 mm' contextstore_pushed [OF refl] mm [symmetric]
  by (auto simp: avr_set_def avr_flags_def avr_jump_def bit_svnz bit_put_flag Let_def avr_pair_def avr_word_def)

text \<open>The machine \<open>k\<close> continues where \<open>m\<close> was, with all its registers.\<close>

definition avr_continues :: "nat set \<Rightarrow> u8 \<Rightarrow> avr \<Rightarrow> avr \<Rightarrow> bool" where
  "avr_continues R sr m k \<longleftrightarrow> (\<forall>r \<in> R. avr_reg k r = avr_reg m r) \<and> avr_sp k = avr_sp m \<and>
     avr_sreg k = sr \<and> avr_pc k = avr_pc m"

lemma slot_index: "r < 32 \<Longrightarrow> r \<noteq> 16 \<Longrightarrow> 0 < avr_slot r \<and> avr_slot r \<le> 31 \<and> avr_pop_order ! (avr_slot r - 1) = r"
  using takeWhile_index [of r avr_pop_order] by (simp add: avr_slot_def pop_order)

lemma frame_slot:
  assumes "r < 32"
  shows "avr_slot r \<le> 33" "0 < avr_slot r" "avr_frame sr m ! (35 - avr_slot r) = avr_reg m r"
proof -
  show "avr_slot r \<le> 33" "0 < avr_slot r" using slot_index [OF assms] by (cases "r = 16"; simp add: avr_slot_def)+
  show "avr_frame sr m ! (35 - avr_slot r) = avr_reg m r"
  proof (cases "r = 16")
    case False
    note s = slot_index [OF assms False]
    then have i: "35 - avr_slot r = 4 + (31 - avr_slot r)" "31 - avr_slot r < 31" "30 - (31 - avr_slot r) = avr_slot r - 1" by auto
    have "avr_frame sr m ! (35 - avr_slot r) = map (avr_reg m) (rev avr_pop_order) ! (31 - avr_slot r)"
      unfolding avr_frame_def i(1) by simp
    also have "\<dots> = avr_reg m (avr_pop_order ! (avr_slot r - 1))"
      using i(2,3) by (simp add: pop_order(2) rev_nth)
    finally show ?thesis using s by simp
  qed (simp add: avr_slot_def avr_frame_def)
qed

lemma resumed_frame:
  assumes "\<And>i. i \<in> I \<Longrightarrow> avr_mem m' (avr_sp m - word_of_nat i) = avr_frame sr m ! i"
    and "{0, 1, 3} \<subseteq> I" and "\<And>r. r \<in> R \<Longrightarrow> r < 32 \<and> 35 - avr_slot r \<in> I"
  shows "avr_continues R sr m (avr_resumed (avr_sp m - 35) m')"
proof -
  have at: "avr_mem m' (avr_sp m - 35 + word_of_nat k) = avr_frame sr m ! (35 - k)" if "k \<le> 35" "35 - k \<in> I" for k
  proof -
    have e: "avr_sp m - 35 + word_of_nat k = avr_sp m - word_of_nat (35 - k)"
      using that(1) by (simp add: of_nat_diff)
    show ?thesis unfolding e by (rule assms(1) [OF that(2)])
  qed
  have "avr_mem m' (avr_sp m - 35 + word_of_nat (avr_slot r)) = avr_reg m r" if "r \<in> R" for r
    using at [of "avr_slot r"] frame_slot [of r] assms(3) [OF that] by simp
  moreover have "avr_mem m' (avr_sp m - 3) = sr" "avr_mem m' (avr_sp m - 1) = hi_byte (avr_pc m)"
    "avr_mem m' (avr_sp m) = lo_byte (avr_pc m)"
    using assms(1) [of 3] assms(1) [of 1] assms(1) [of 0] assms(2) by (simp_all add: avr_frame_def)
  ultimately show ?thesis using assms(3) by (simp add: avr_continues_def avr_resumed_def)
qed

text \<open>An address outside of the 35 bytes below the stack pointer.\<close>

definition outside :: "u16 \<Rightarrow> u16 \<Rightarrow> bool" where
  "outside p a \<longleftrightarrow> 35 \<le> unat (p - a)"

lemma outside_frame: "outside p a \<Longrightarrow> i < 35 \<Longrightarrow> p - word_of_nat i \<noteq> a"
  by (auto simp: outside_def unat_of_nat)

lemma dint_restored:
  assumes "bit (v :: u8) 7"
  shows "arch_dint v OR 0x80 = v"
proof -
  have I: "SREG_I = 7" "(0x80 :: u8) = push_bit SREG_I 1" by (simp_all add: SREG_I_def)
  show ?thesis using eint_cleared [OF assms] unfolding I(2) arch_dint_def arch_eint_def .
qed

text \<open>Variables of the kernel the macros use, apart from each other and from the free stack: the
  pointer \<open>task_current\<close>, the counter \<open>isr_nesting\<close> and the context of the current task.\<close>

definition avr_vars :: "u16 \<Rightarrow> u16 \<Rightarrow> avr \<Rightarrow> bool" where
  "avr_vars tc ni m \<longleftrightarrow> (let z = avr_word (avr_mem m) tc in
     (\<forall>a \<in> {tc, tc + 1, ni, z, z + 1}. outside (avr_sp m) a) \<and> distinct [tc, tc + 1, ni, z, z + 1])"

lemma interrupt_frame:
  assumes m1: "m1 = avr_exec (avr_contextstore_i tc ni) (avr_interrupt m)" and en: "bit (avr_sreg m) 7"
    and vars: "avr_vars tc ni m" and z: "z = avr_word (avr_mem m) tc"
  shows "i < 35 \<Longrightarrow> avr_mem m1 (avr_sp m - word_of_nat i) = avr_frame (avr_sreg m) m ! i"
    and "avr_sp m1 = avr_sp m - 35" and "avr_mem m1 ni = avr_mem m ni + 1" and "avr_word (avr_mem m1) tc = z"
    and "avr_mem m ni = 0 \<Longrightarrow> avr_word (avr_mem m1) z = avr_sp m - 35"
    and "avr_mem m ni \<noteq> 0 \<Longrightarrow> avr_word (avr_mem m1) z = avr_word (avr_mem m) z"
proof -
  let ?f = "avr_frame (avr_sreg m) m" and ?p = "avr_sp m - 35"
  define mm where "mm = snd (store_desc ?f (avr_sp m) (avr_mem m))"
  note V = vars [unfolded avr_vars_def Let_def, folded z]
  have fr: "mm (avr_sp m - word_of_nat i) = ?f ! i" if "i < 35" for i
    using store_desc_result(2) [of ?f i] that by (simp add: frame_len mm_def)
  have keep: "mm a = avr_mem m a" if "outside (avr_sp m) a" for a
    using store_desc_result(3) [of ?f "avr_sp m" a] that by (simp add: frame_len mm_def outside_def)
  then have vars': "mm tc = avr_mem m tc" "mm (tc + 1) = avr_mem m (tc + 1)" "mm ni = avr_mem m ni"
    "mm z = avr_mem m z" "mm (z + 1) = avr_mem m (z + 1)" using V by auto
  then have zz: "avr_word (mm(ni := mm ni + 1)) tc = z" using V z by (auto simp: avr_word_def)
  note ex = contextstore_exec [OF refl m1 refl, unfolded dint_restored [OF en], folded mm_def, unfolded zz]
  show "avr_sp m1 = ?p" by (rule ex(1))
  have no: "avr_sp m - word_of_nat i \<notin> {ni, z, z + 1}" if "i < 35" for i
    using outside_frame [OF _ that] V by blast
  show "i < 35 \<Longrightarrow> avr_mem m1 (avr_sp m - word_of_nat i) = ?f ! i" using fr no [of i] by (auto simp: ex(2))
  show "avr_mem m1 ni = avr_mem m ni + 1" "avr_word (avr_mem m1) tc = z"
    "avr_mem m ni = 0 \<Longrightarrow> avr_word (avr_mem m1) z = ?p"
    "avr_mem m ni \<noteq> 0 \<Longrightarrow> avr_word (avr_mem m1) z = avr_word (avr_mem m) z"
    using V vars' z by (auto simp: ex(2) avr_word_def)
qed

text \<open>C36. Interrupts are transparent on the AVR: if the handler between \<open>arch_contextstore_i\<close> and
  \<open>arch_contextrestore_i\<close> leaves the saved frame and the kernel's variables as they are (it does not
  switch the task), the interrupted code goes on at the same address with the same 32 registers,
  status register and stack pointer, for the outermost interrupt as well as for a nested one.\<close>

theorem avr_interrupt_transparent:
  assumes en: "bit (avr_sreg m) 7" and vars: "avr_vars tc ni m"
    and m1: "m1 = avr_exec (avr_contextstore_i tc ni) (avr_interrupt m)"
    and nest: "avr_mem m ni = 0 \<or> avr_mem m ni \<noteq> 255 \<and> avr_sp m2 = avr_sp m1"
    and same: "\<forall>i < 35. avr_mem m2 (avr_sp m - word_of_nat i) = avr_mem m1 (avr_sp m - word_of_nat i)"
      "\<forall>a \<in> {tc, tc + 1, ni, avr_word (avr_mem m) tc, avr_word (avr_mem m) tc + 1}. avr_mem m2 a = avr_mem m1 a"
  shows "avr_continues {0..<32} (avr_sreg m) m (avr_exec (avr_contextrestore_i tc ni) m2) \<and>
    avr_mem (avr_exec (avr_contextrestore_i tc ni) m2) ni = avr_mem m ni"
proof -
  define z where "z = avr_word (avr_mem m) tc"
  define mm where "mm = (avr_mem m2)(ni := avr_mem m2 ni - 1)"
  note I = interrupt_frame [OF m1 en vars z_def]
  note V = vars [unfolded avr_vars_def Let_def, folded z_def]
  note S = same(2) [folded z_def]
  have w: "avr_word mm tc = z" "avr_word mm z = avr_word (avr_mem m1) z" "mm ni = avr_mem m ni"
    using V S I(3,4) by (auto simp: avr_word_def mm_def)
  have p: "(if mm ni = 0 then avr_word mm (avr_word mm tc) else avr_sp m2) = avr_sp m - 35"
    using w I(2,5) nest by auto
  have run: "avr_exec (avr_contextrestore_i tc ni) m2 = avr_resumed (avr_sp m - 35) (m2\<lparr>avr_mem := mm\<rparr>)"
    unfolding contextrestore_exec [OF mm_def] p ..
  have "mm (avr_sp m - word_of_nat i) = avr_frame (avr_sreg m) m ! i" if "i < 35" for i
    using that same(1) I(1) [OF that] outside_frame [of "avr_sp m" ni i] V by (auto simp: mm_def)
  then have "avr_continues {0..<32} (avr_sreg m) m (avr_resumed (avr_sp m - 35) (m2\<lparr>avr_mem := mm\<rparr>))"
    by (intro resumed_frame [where I = "{..<35}"]) (use frame_slot(2) in auto)
  then show ?thesis unfolding run using w(3) by (simp add: avr_resumed_def)
qed

section \<open>The context switch\<close>

text \<open>The bytes that \<open>arch_context_switch\<close> pushes below the return address.\<close>

definition avr_saved :: "nat list" where
  "avr_saved = [28, 29, 0, 1, 2, 3, 4, 5, 6, 7, 8, 9, 10, 11, 12, 13, 14, 15, 17]"

lemma avr_saved_len: "length avr_saved = 19"
  by (simp add: avr_saved_def)

lemma saved_other: "map (f(16 := v)) avr_saved = map f avr_saved"
  by (simp add: avr_saved_def)

text \<open>The code after the pushes.\<close>

definition avr_switch_tail :: "u16 \<Rightarrow> avr_instr list" where
  "avr_switch_tail tc =
     [Op (IN 28 SP_L), Op (IN 29 SP_H), Op (SBIW 28 12), Op (LDS 30 tc), Op (LDS 31 (tc + 1)),
      Op (STD_Z 0 28), Op (STD_Z 1 29), Op (STS tc 24), Op (STS (tc + 1) 25), Op (MOVW 30 24),
      Op (LDD_Z 28 0), Op (LDD_Z 29 1), Op (OUT SP_L 28), Op (OUT SP_H 29)] @
     avr_restore ''arch_context_switch_enableint''"

lemma switch_pushed:
  assumes "f = store_desc ([lo_byte (avr_pc m), hi_byte (avr_pc m), avr_reg m 16, 0] @ map (avr_reg m) avr_saved)
      (avr_sp m) (avr_mem m)"
  shows "avr_exec (avr_context_switch tc) (avr_call m) = avr_exec (avr_switch_tail tc)
     (m\<lparr>avr_reg := (avr_reg m)(16 := 0), avr_sp := avr_sp m - 23, avr_sreg := svnz False False True (avr_sreg m),
        avr_mem := snd f\<rparr>)"
proof -
  have code: "avr_context_switch tc = [Op (PUSH 16), Op (EOR 16 16), Op (PUSH 16)] @ map (\<lambda>r. Op (PUSH r)) avr_saved @
     avr_switch_tail tc"
    by (simp add: avr_context_switch_def avr_saved_def avr_switch_tail_def)
  have "avr_exec (avr_context_switch tc) (avr_call m) = avr_exec (map (\<lambda>r. Op (PUSH r)) avr_saved @ avr_switch_tail tc)
     (m\<lparr>avr_reg := (avr_reg m)(16 := 0), avr_sp := avr_sp m - 4, avr_sreg := svnz False False True (avr_sreg m),
        avr_mem := (avr_mem m)(avr_sp m := lo_byte (avr_pc m), avr_sp m - 1 := hi_byte (avr_pc m),
          avr_sp m - 2 := avr_reg m 16, avr_sp m - 3 := 0)\<rparr>)"
    unfolding code by (cases m) (simp add: avr_call_def avr_set_def avr_flags_def Let_def)
  moreover have "fst f = avr_sp m - 23"
    unfolding assms by (subst store_desc_result(1)) (simp_all add: avr_saved_len)
  ultimately show ?thesis unfolding exec_pushes
    by (cases m) (simp add: assms saved_other del: avr_exec.simps)
qed

lemma exec_ops: "avr_exec (map Op xs @ is) m = avr_exec is (fold avr_step xs m)"
  by (induction xs arbitrary: m) simp_all

lemma switch_load:
  assumes "k = fold avr_step [MOVW 30 24, LDD_Z 28 0, LDD_Z 29 1, OUT SP_L 28, OUT SP_H 29] y"
  shows "avr_mem k = avr_mem y" "avr_sp k = avr_word (avr_mem y) (avr_pair 24 y)" "r \<ge> 32 \<Longrightarrow> avr_reg k r = avr_reg y r"
  by (simp_all add: assms avr_set_def avr_pair_def avr_word_def)

lemma switch_exec:
  assumes mm: "mm = snd (store_desc ([lo_byte (avr_pc m), hi_byte (avr_pc m), avr_reg m 16, 0] @ map (avr_reg m) avr_saved)
      (avr_sp m) (avr_mem m))"
    and z: "z = avr_word mm tc"
    and mm': "mm' = mm(z := lo_byte (avr_sp m - 35), z + 1 := hi_byte (avr_sp m - 35), tc := avr_reg m 24, tc + 1 := avr_reg m 25)"
  shows "avr_exec (avr_context_switch tc) (avr_call m) = avr_resumed (avr_word mm' (avr_pair 24 m)) (m\<lparr>avr_mem := mm'\<rparr>)"
proof -
  let ?x = "m\<lparr>avr_reg := (avr_reg m)(16 := 0), avr_sp := avr_sp m - 23, avr_sreg := svnz False False True (avr_sreg m), avr_mem := mm\<rparr>"
  define y where "y = fold avr_step [IN 28 SP_L, IN 29 SP_H, SBIW 28 12, LDS 30 tc, LDS 31 (tc + 1), STD_Z 0 28, STD_Z 1 29,
      STS tc 24, STS (tc + 1) 25] ?x"
  define k where "k = fold avr_step [MOVW 30 24, LDD_Z 28 0, LDD_Z 29 1, OUT SP_L 28, OUT SP_H 29] y"
  have y: "avr_mem y = mm'" "avr_pair 24 y = avr_pair 24 m" "\<And>r. r \<ge> 32 \<Longrightarrow> avr_reg y r = avr_reg m r"
    using z [unfolded avr_word_def] by (simp_all add: y_def mm' avr_set_def avr_pair_def Let_def)
  note k = switch_load [OF k_def, unfolded y(1,2)]
  have "avr_exec (avr_context_switch tc) (avr_call m) = avr_resumed (avr_sp k) k"
    using exec_ops [of "[IN 28 SP_L, IN 29 SP_H, SBIW 28 12, LDS 30 tc, LDS 31 (tc + 1), STD_Z 0 28, STD_Z 1 29,
        STS tc 24, STS (tc + 1) 25, MOVW 30 24, LDD_Z 28 0, LDD_Z 29 1, OUT SP_L 28, OUT SP_H 29]"
        "avr_restore ''arch_context_switch_enableint''" ?x]
    unfolding switch_pushed [OF refl] avr_switch_tail_def mm [symmetric] restore_resumes list.map fold_simps y_def k_def .
  also have "\<dots> = avr_resumed (avr_sp k) (m\<lparr>avr_mem := mm'\<rparr>)" by (rule resumed_cong) (use k y(3) in simp_all)
  finally show ?thesis unfolding k(2) .
qed

text \<open>C35. A context switch on the AVR: \<open>arch_context_switch\<close> leaves in the context of the old task a frame from
  which the call returns (in any later state that still has the frame) with the call-saved registers,
  the frame pointer and the stack pointer as they were and with interrupts disabled; it sets
  \<open>task_current\<close> to the new task, and goes on in the context at the stack pointer of the new task.\<close>

theorem avr_switch_saves_and_resumes:
  assumes "z = avr_word (avr_mem m) tc"
    and "\<forall>a \<in> {tc, tc + 1, z, z + 1}. outside (avr_sp m) a" and "distinct [tc, tc + 1, z, z + 1]"
    and "m1 = avr_exec (avr_context_switch tc) (avr_call m)"
  shows "avr_word (avr_mem m1) tc = avr_pair 24 m \<and> avr_word (avr_mem m1) z = avr_sp m - 35 \<and>
    m1 = avr_resumed (avr_word (avr_mem m1) (avr_pair 24 m)) (m\<lparr>avr_mem := avr_mem m1\<rparr>) \<and>
    (\<forall>m2. (\<forall>i < 23. avr_mem m2 (avr_sp m - word_of_nat i) = avr_mem m1 (avr_sp m - word_of_nat i)) \<longrightarrow>
       avr_continues ({0..17} \<union> {28, 29}) 0 m (avr_resumed (avr_sp m - 35) m2))"
proof -
  let ?bs = "[lo_byte (avr_pc m), hi_byte (avr_pc m), avr_reg m 16, 0] @ map (avr_reg m) avr_saved"
  define mm where "mm = snd (store_desc ?bs (avr_sp m) (avr_mem m))"
  have len: "length ?bs = 23" and bs: "?bs = take 23 (avr_frame 0 m)"
    by (simp_all add: avr_saved_def avr_frame_def avr_pop_order_def)
  have fr: "mm (avr_sp m - word_of_nat i) = avr_frame 0 m ! i" if "i < 23" for i
  proof -
    have "?bs ! i = avr_frame 0 m ! i" unfolding bs using that by simp
    then show ?thesis using store_desc_result(2) [of ?bs i "avr_sp m" "avr_mem m"] that unfolding mm_def len by simp
  qed
  have keep: "mm a = avr_mem m a" if "outside (avr_sp m) a" for a
    using store_desc_result(3) [of ?bs "avr_sp m" a "avr_mem m"] that unfolding mm_def len by (simp add: outside_def)
  then have z: "z = avr_word mm tc" using assms(1,2) by (simp add: avr_word_def)
  define mm' where "mm' = mm(z := lo_byte (avr_sp m - 35), z + 1 := hi_byte (avr_sp m - 35), tc := avr_reg m 24, tc + 1 := avr_reg m 25)"
  note m1 = switch_exec [OF mm_def z mm'_def, folded assms(4)]
  have mem: "avr_mem m1 = mm'" by (simp add: m1 avr_resumed_def)
  have no: "avr_sp m - word_of_nat i \<notin> {tc, tc + 1, z, z + 1}" if "i < 23" for i
    using outside_frame [of "avr_sp m" _ i] that assms(2) by auto
  have "avr_continues ({0..17} \<union> {28, 29}) 0 m (avr_resumed (avr_sp m - 35) m2)"
    if "\<forall>i < 23. avr_mem m2 (avr_sp m - word_of_nat i) = mm' (avr_sp m - word_of_nat i)" for m2
  proof (rule resumed_frame [where I = "{..<23}"])
    have "list_all (\<lambda>r. r < 32 \<and> 35 - avr_slot r < 23) ([0..<18] @ [28, 29])" by code_simp
    then show "r < 32 \<and> 35 - avr_slot r \<in> {..<23}" if "r \<in> {0..17} \<union> {28, 29}" for r
      using that by (auto simp: list_all_iff)
  qed (use that fr no in \<open>auto simp: mm'_def\<close>)
  moreover have "avr_word mm' tc = avr_pair 24 m" "avr_word mm' z = avr_sp m - 35"
    using assms(3) by (auto simp: mm'_def avr_word_def avr_pair_def)
  ultimately show ?thesis using m1 unfolding mem by blast
qed


section \<open>Witnesses\<close>

text \<open>A machine with distinct register values, its stack below 0x200, and the variables above.\<close>

definition demo_avr :: avr where
  "demo_avr = \<lparr>avr_reg = (\<lambda>r. word_of_nat r), avr_sp = 0x200, avr_sreg = 0x80,
     avr_mem = (\<lambda>_. 0)(0x300 := 0x08, 0x301 := 0x03), avr_pc = 0x1234\<rparr>"

lemma demo_avr_vars: "avr_word (avr_mem demo_avr) 0x300 = 0x308" "avr_vars 0x300 0x302 demo_avr"
  by (simp_all add: demo_avr_def avr_vars_def avr_word_def word_of_bytes_def outside_def)

theorem avr_interrupt_transparent_witness:
  "avr_continues {0..<32} 0x80 demo_avr (avr_exec (avr_contextrestore_i 0x300 0x302)
     (avr_exec (avr_contextstore_i 0x300 0x302) (avr_interrupt demo_avr)))"
  using avr_interrupt_transparent [OF _ demo_avr_vars(2) refl, of "avr_exec (avr_contextstore_i 0x300 0x302) (avr_interrupt demo_avr)"]
  using bit_0x80 by (simp add: demo_avr_def)

theorem avr_switch_saves_and_resumes_witness:
  "\<exists>m1. m1 = avr_exec (avr_context_switch 0x300) (avr_call demo_avr) \<and> avr_word (avr_mem m1) 0x308 = 0x200 - 35 \<and>
     avr_continues ({0..17} \<union> {28, 29}) 0 demo_avr (avr_resumed (0x200 - 35) m1)"
proof -
  have sp: "avr_sp demo_avr = 0x200" by (simp add: demo_avr_def)
  show ?thesis
    using avr_switch_saves_and_resumes [where m = demo_avr and tc = "0x300", OF refl _ _ refl] demo_avr_vars
    unfolding sp by (auto simp: avr_vars_def Let_def sp)
qed


end
