(* ===== verification/Msp430_Port.thy ===== *)
theory Msp430_Port
  imports Arch_Port
begin

text \<open>
  The MSP430 port: critical sections and atomic macros on the 16 bit status register, the initial
  stack frame, and the assembler of the context switch and of the interrupt macros
  (\<^verbatim>\<open>arch/msp430/arch_port.c\<close> and \<^verbatim>\<open>arch/msp430/arch_port.h\<close>), executed instruction by instruction.
  Interrupts and context switches are transparent on their own; but a task that gave up the CPU inside
  a critical section is resumed by \<open>arch_contextrestore_i\<close> with interrupts enabled.
\<close>

section \<open>Status register and critical sections\<close>

text \<open>The bits of SR: Z is bit 1, GIE bit 3, and CPUOFF, OSCOFF, SCG0, SCG1 are bits 4 to 7.\<close>

definition GIE :: u16 where
  "GIE = 0x0008"

definition powerbits :: u16 where
  "powerbits = 0x0080 + 0x0040 + 0x0020 + 0x0010"

definition msp430_dint :: "u16 \<Rightarrow> u16" where
  "msp430_dint sr = sr AND NOT GIE"

definition msp430_eint :: "u16 \<Rightarrow> u16" where
  "msp430_eint sr = sr OR GIE"

definition msp430_is_dint :: "u16 \<Rightarrow> bool" where
  "msp430_is_dint sr \<longleftrightarrow> sr AND GIE = 0"

definition msp430_critical_enter :: "u16 \<Rightarrow> u16 \<times> u16" where
  "msp430_critical_enter sr = (sr, msp430_dint sr)"

definition msp430_critical_exit :: "u16 \<Rightarrow> u16 \<Rightarrow> u16" where
  "msp430_critical_exit critical_state sr = critical_state"

text \<open>\<open>arch_halt\<close>: the loop switches the CPU off (\<open>LPM0_bits\<close> is CPUOFF) with interrupts disabled.\<close>

definition msp430_halt_body :: "u16 \<Rightarrow> u16" where
  "msp430_halt_body sr = sr OR 0x0010"

partial_function (option) msp430_halt_loop :: "u16 \<Rightarrow> u16 option" where
  "msp430_halt_loop sr = msp430_halt_loop (msp430_halt_body sr)"

definition msp430_halt :: "u16 \<Rightarrow> u16 option" where
  "msp430_halt sr = msp430_halt_loop (msp430_dint sr)"

section \<open>Atomic macros\<close>

text \<open>The macros select their code by the size of the operand; \<open>None\<close> is the branch that does not
  compile to a defined value (\<open>arch_halt\<close>, or an unset variable).\<close>

definition msp430_atomic_inc_load :: "u16 \<Rightarrow> 'w::len word \<Rightarrow> ('w word \<times> 'w word \<times> u16) option" where
  "msp430_atomic_inc_load sr cell =
     (if LENGTH('w) = 8 \<or> LENGTH('w) = 16
      then let (cristate, sr) = msp430_critical_enter sr;
               cell = cell + 1;
               val = cell;
               sr = msp430_critical_exit cristate sr
           in Some (val, cell, sr)
      else None)"

definition msp430_atomic_dec_load :: "u16 \<Rightarrow> 'w::len word \<Rightarrow> ('w word \<times> 'w word \<times> u16) option" where
  "msp430_atomic_dec_load sr cell =
     (if LENGTH('w) = 8 \<or> LENGTH('w) = 16
      then let (cristate, sr) = msp430_critical_enter sr;
               cell = cell - 1;
               val = cell;
               sr = msp430_critical_exit cristate sr
           in Some (val, cell, sr)
      else None)"

text \<open>One memory instruction, for operands of 16 bits; nothing for others. The arithmetic flags are
  left out: the compiler reads none after the macro.\<close>

definition msp430_atomic_inc :: "'w::len word \<Rightarrow> 'w word" where
  "msp430_atomic_inc cell = (if LENGTH('w) = 16 then cell + 1 else cell)"

definition msp430_atomic_dec :: "'w::len word \<Rightarrow> 'w word" where
  "msp430_atomic_dec cell = (if LENGTH('w) = 16 then cell - 1 else cell)"

definition msp430_atomic_load :: "'w::len word \<Rightarrow> 'w word option" where
  "msp430_atomic_load cell = (if LENGTH('w) = 16 then Some cell else None)"

definition msp430_atomic_store :: "'w::len word \<Rightarrow> 'w word \<Rightarrow> 'w word" where
  "msp430_atomic_store val cell = (if LENGTH('w) = 16 then val else cell)"

definition msp430_atomic_exch :: "u16 \<Rightarrow> 'w::len word \<Rightarrow> 'w word \<Rightarrow> ('w word \<times> 'w word \<times> u16) option" where
  "msp430_atomic_exch sr val cell =
     (if LENGTH('w) = 16
      then let (cristate, sr) = msp430_critical_enter sr;
               tmp = cell;
               cell = val;
               sr = msp430_critical_exit cristate sr
           in Some (tmp, cell, sr)
      else None)"

definition msp430_atomic_cmp_exch ::
  "u16 \<Rightarrow> 'w::len word \<Rightarrow> 'w word \<Rightarrow> 'w word \<Rightarrow> (bool \<times> 'w word \<times> 'w word \<times> u16) option" where
  "msp430_atomic_cmp_exch sr exp_val val cell =
     (if LENGTH('w) = 16
      then let (cristate, sr) = msp430_critical_enter sr;
               tmp = cell
           in if tmp = exp_val
              then (let cell = val; sr = msp430_critical_exit cristate sr
                    in Some (False, cell, exp_val, sr))
              else (let sr = msp430_critical_exit cristate sr
                    in Some (True, cell, tmp, sr))
      else None)"

section \<open>The machine\<close>

text \<open>Word memory at even addresses; R0 to R2 are the program counter, the stack pointer and SR.\<close>

record msp =
  msp_pc :: u16
  msp_sp :: u16
  msp_sr :: u16
  msp_reg :: "nat \<Rightarrow> u16"
  msp_mem :: "u16 \<Rightarrow> u16"

text \<open>\<open>r1\<close> and \<open>r2\<close> as operands are written out in the names of the operations.\<close>

datatype msp_op =
    PUSH_SR | POP_SR | PUSHM nat nat | POPM nat nat
  | LOAD u16 nat        \<comment> \<open>\<open>mov &a, rN\<close>\<close>
  | STORE_SP nat        \<comment> \<open>\<open>mov r1, @rN\<close>\<close>
  | LOAD_SP u16         \<comment> \<open>\<open>mov &a, r1\<close>\<close>
  | DEREF_SP            \<comment> \<open>\<open>mov @r1, r1\<close>\<close>
  | BIC_TOP u16         \<comment> \<open>\<open>bic #k, @r1\<close>\<close>
  | BIS_TOP u16         \<comment> \<open>\<open>bis #k, @r1\<close>\<close>
  | INC_MEM u16 | DEC_MEM u16 | CMP_MEM u16 u16
  | MOVB_MEM u8 u16     \<comment> \<open>\<open>mov.b #k, &a\<close>\<close>
  | DINT_OP

datatype msp_instr = Mop msp_op | MLABEL string | JNE string | JMP string | MRET | MRETI

definition msp_push :: "u16 \<Rightarrow> msp \<Rightarrow> msp" where
  "msp_push v m = m\<lparr>msp_sp := msp_sp m - 2, msp_mem := (msp_mem m)(msp_sp m - 2 := v)\<rparr>"

text \<open>Only the zero flag is read by the code; SR itself is reloaded from the stack.\<close>

definition msp_zero :: "bool \<Rightarrow> msp \<Rightarrow> msp" where
  "msp_zero z m = m\<lparr>msp_sr := (if z then msp_sr m OR 0x0002 else msp_sr m AND NOT 0x0002)\<rparr>"

text \<open>\<open>pushm n, rD\<close> pushes \<open>rD\<close>, \<open>rD-1\<close>, ... (\<open>n\<close> registers); \<open>popm n, rD\<close> pops them in the opposite order.\<close>

fun pushm :: "nat \<Rightarrow> nat \<Rightarrow> msp \<Rightarrow> msp" where
  "pushm 0 d m = m"
| "pushm (Suc n) d m = pushm n (d - 1) (msp_push (msp_reg m d) m)"

fun popm :: "nat \<Rightarrow> nat \<Rightarrow> msp \<Rightarrow> msp" where
  "popm 0 d m = m"
| "popm (Suc n) d m = popm n d
     (m\<lparr>msp_reg := (msp_reg m)(d - n := msp_mem m (msp_sp m)), msp_sp := msp_sp m + 2\<rparr>)"

fun msp_step :: "msp_op \<Rightarrow> msp \<Rightarrow> msp" where
  "msp_step PUSH_SR m = msp_push (msp_sr m) m"
| "msp_step POP_SR m = m\<lparr>msp_sr := msp_mem m (msp_sp m), msp_sp := msp_sp m + 2\<rparr>"
| "msp_step (PUSHM n d) m = pushm n d m"
| "msp_step (POPM n d) m = popm n d m"
| "msp_step (LOAD a r) m = m\<lparr>msp_reg := (msp_reg m)(r := msp_mem m a)\<rparr>"
| "msp_step (STORE_SP r) m = m\<lparr>msp_mem := (msp_mem m)(msp_reg m r := msp_sp m)\<rparr>"
| "msp_step (LOAD_SP a) m = m\<lparr>msp_sp := msp_mem m a\<rparr>"
| "msp_step DEREF_SP m = m\<lparr>msp_sp := msp_mem m (msp_sp m)\<rparr>"
| "msp_step (BIC_TOP k) m = m\<lparr>msp_mem := (msp_mem m)(msp_sp m := msp_mem m (msp_sp m) AND NOT k)\<rparr>"
| "msp_step (BIS_TOP k) m = m\<lparr>msp_mem := (msp_mem m)(msp_sp m := msp_mem m (msp_sp m) OR k)\<rparr>"
| "msp_step (INC_MEM a) m = msp_zero (msp_mem m a + 1 = 0) (m\<lparr>msp_mem := (msp_mem m)(a := msp_mem m a + 1)\<rparr>)"
| "msp_step (DEC_MEM a) m = msp_zero (msp_mem m a - 1 = 0) (m\<lparr>msp_mem := (msp_mem m)(a := msp_mem m a - 1)\<rparr>)"
| "msp_step (CMP_MEM k a) m = msp_zero (msp_mem m a = k) m"
| "msp_step (MOVB_MEM k a) m = m\<lparr>msp_mem := (msp_mem m)(a := (msp_mem m a AND 0xFF00) OR ucast k)\<rparr>"
| "msp_step DINT_OP m = m\<lparr>msp_sr := msp430_dint (msp_sr m)\<rparr>"

definition msp_jump :: "string \<Rightarrow> msp_instr list \<Rightarrow> msp_instr list" where
  "msp_jump l is = dropWhile (\<lambda>i. i \<noteq> MLABEL l) is"

function msp_exec :: "msp_instr list \<Rightarrow> msp \<Rightarrow> msp" where
  "msp_exec [] m = m"
| "msp_exec (Mop x # is) m = msp_exec is (msp_step x m)"
| "msp_exec (MLABEL l # is) m = msp_exec is m"
| "msp_exec (JNE l # is) m = (if \<not> bit (msp_sr m) 1 then msp_exec (msp_jump l is) m else msp_exec is m)"
| "msp_exec (JMP l # is) m = msp_exec (msp_jump l is) m"
| "msp_exec (MRET # is) m = m\<lparr>msp_pc := msp_mem m (msp_sp m), msp_sp := msp_sp m + 2\<rparr>"
| "msp_exec (MRETI # is) m =
     m\<lparr>msp_sr := msp_mem m (msp_sp m), msp_pc := msp_mem m (msp_sp m + 2), msp_sp := msp_sp m + 4\<rparr>"
  by pat_completeness auto
termination
  by (relation "measure (length \<circ> fst)") (auto simp: msp_jump_def less_Suc_eq_le length_dropWhile_le)

section \<open>The code\<close>

text \<open>\<open>task_current = new_task\<close> between the two parts of \<open>arch_context_switch\<close> is C code: the store of
  the argument, which the naked function still has in its register (R15).\<close>

definition msp430_switch_save :: "u16 \<Rightarrow> msp_instr list" where
  "msp430_switch_save tc = [Mop PUSH_SR, Mop (PUSHM 12 15), Mop (LOAD tc 4), Mop (STORE_SP 4)]"

definition msp430_switch_load :: "u16 \<Rightarrow> msp_instr list" where
  "msp430_switch_load tc =
     [Mop (LOAD_SP tc), Mop DEREF_SP, Mop (POPM 12 15), Mop (BIC_TOP powerbits), Mop POP_SR, MRET]"

definition msp430_context_switch :: "u16 \<Rightarrow> u16 \<Rightarrow> msp \<Rightarrow> msp" where
  "msp430_context_switch tc new_task m =
     (let m = msp_exec (msp430_switch_save tc) m;
          m = m\<lparr>msp_mem := (msp_mem m)(tc := new_task)\<rparr>
      in msp_exec (msp430_switch_load tc) m)"

definition msp430_contextstore_i :: "u16 \<Rightarrow> u16 \<Rightarrow> msp_instr list" where
  "msp430_contextstore_i tc ni =
     [Mop (INC_MEM ni), Mop (PUSHM 12 15), Mop (CMP_MEM 1 ni),
      JNE ''contextStoreIsr_Nested'',
      Mop (LOAD tc 15), Mop (STORE_SP 15),
      MLABEL ''contextStoreIsr_Nested'']"

definition msp430_contextrestore_i :: "u16 \<Rightarrow> u16 \<Rightarrow> msp_instr list" where
  "msp430_contextrestore_i tc ni =
     [Mop DINT_OP, Mop (DEC_MEM ni),
      JNE ''contexRestoreIsr_Nested'',
      Mop (LOAD_SP tc), Mop DEREF_SP, Mop (POPM 12 15),
      Mop (BIC_TOP powerbits),
      JMP ''contexRestoreIsr_Done'',
      MLABEL ''contexRestoreIsr_Nested'',
      Mop (MOVB_MEM 0x80 0x0a20), Mop (POPM 12 15),
      MLABEL ''contexRestoreIsr_Done'',
      Mop (BIS_TOP GIE),
      MRETI]"

text \<open>A call pushes the return address; an interrupt pushes it and SR, and clears SR except SCG0.\<close>

definition msp_call :: "msp \<Rightarrow> msp" where
  "msp_call m = msp_push (msp_pc m) m"

definition msp_interrupt :: "msp \<Rightarrow> msp" where
  "msp_interrupt m = (msp_push (msp_sr m) (msp_push (msp_pc m) m))\<lparr>msp_sr := msp_sr m AND 0x0040\<rparr>"

text \<open>\<open>arch_task_init\<close>: \<open>None\<close> is the halt of a failed assertion. The words are stored from the top down.\<close>

fun store_words :: "u16 list \<Rightarrow> u16 \<Rightarrow> (u16 \<Rightarrow> u16) \<Rightarrow> u16 \<times> (u16 \<Rightarrow> u16)" where
  "store_words [] p mm = (p, mm)"
| "store_words (v # vs) p mm = store_words vs (p - 2) (mm(p := v))"

definition msp430_initial_frame :: "u16 \<Rightarrow> u16 \<Rightarrow> u16 \<Rightarrow> u16 list" where
  "msp430_initial_frame start proc prm = [start, GIE, proc, prm, 0, 0, 0, 0, 0, 0, 0, 0, 0, 0]"

definition msp430_assert :: "bool \<Rightarrow> 'a option \<Rightarrow> 'a option" where
  "msp430_assert cond k = (if \<not> cond then None else k)"

text \<open>The first assertion negates a string literal, which is a non-null pointer.\<close>

definition msp430_task_init ::
  "u16 \<Rightarrow> u16 \<Rightarrow> u16 \<Rightarrow> u16 \<Rightarrow> u16 \<Rightarrow> (u16 \<Rightarrow> u16) \<Rightarrow> (u16 \<times> (u16 \<Rightarrow> u16)) option" where
  "msp430_task_init start stack_param stack_size proc prm mm =
     (let stack = stack_param + stack_size; literal_not_null = True
      in msp430_assert (\<not> literal_not_null)
        (msp430_assert (0 = stack_param AND 1)
          (let stack = stack - 2;
               (stack, mm) = store_words (msp430_initial_frame start proc prm) stack mm;
               stack = stack + 2
           in Some (stack, mm))))"

section \<open>Pushing and popping\<close>

definition pushed :: "nat \<Rightarrow> nat \<Rightarrow> msp \<Rightarrow> u16 \<Rightarrow> u16" where
  "pushed n d m = msp_mem (pushm n d m)"

lemma pushm_fields:
  "msp_sp (pushm n d m) = msp_sp m - 2 * word_of_nat n" "msp_reg (pushm n d m) = msp_reg m"
  "msp_sr (pushm n d m) = msp_sr m" "msp_pc (pushm n d m) = msp_pc m"
  by (induction n d m rule: pushm.induct) (simp_all add: msp_push_def algebra_simps)

lemma pushed_other:
  "(\<And>k. k < n \<Longrightarrow> a \<noteq> msp_sp m - 2 * word_of_nat (Suc k)) \<Longrightarrow> msp_mem (pushm n d m) a = msp_mem m a"
proof (induction n d m rule: pushm.induct)
  case (2 n d m)
  have "a \<noteq> msp_sp m - 2" using 2(2) [of 0] by simp
  moreover have "a \<noteq> msp_sp m - 2 - 2 * word_of_nat (Suc k)" if "k < n" for k
    using 2(2) [of "Suc k"] that by (simp add: algebra_simps)
  ultimately show ?case using 2(1) by (simp add: msp_push_def)
qed simp

lemma double_inj: "j < 2 ^ 15 \<Longrightarrow> k < 2 ^ 15 \<Longrightarrow> 2 * (word_of_nat j :: u16) = 2 * word_of_nat k \<longleftrightarrow> j = k"
proof -
  assume "j < 2 ^ 15" "k < 2 ^ 15"
  then have "unat (word_of_nat (2 * j) :: u16) = 2 * j" "unat (word_of_nat (2 * k) :: u16) = 2 * k"
    unfolding unat_of_nat by simp_all
  then show ?thesis by (metis mult_cancel1 of_nat_mult of_nat_numeral zero_neq_numeral)
qed

lemma pushed_reg:
  "k < n \<Longrightarrow> n \<le> 12 \<Longrightarrow> msp_mem (pushm n d m) (msp_sp m - 2 * word_of_nat (Suc k)) = msp_reg m (d - k)"
proof (induction n d m arbitrary: k rule: pushm.induct)
  case (2 n d m)
  show ?case
  proof (cases k)
    case 0
    have "msp_mem (pushm n (d - 1) (msp_push (msp_reg m d) m)) (msp_sp m - 2) = msp_mem (msp_push (msp_reg m d) m) (msp_sp m - 2)"
    proof (rule pushed_other)
      fix k assume "k < n"
      then show "msp_sp m - 2 \<noteq> msp_sp (msp_push (msp_reg m d) m) - 2 * word_of_nat (Suc k)"
        using double_inj [of 0 "Suc k"] 2(3) by (simp add: msp_push_def del: of_nat_Suc)
    qed
    then show ?thesis using 0 by (simp add: msp_push_def)
  next
    case (Suc j)
    then show ?thesis using 2(1) [of j] 2(2,3) by (simp add: msp_push_def algebra_simps)
  qed
qed simp

lemma popm_fields:
  assumes "n \<le> Suc d"
  shows "popm n d m = m\<lparr>msp_reg := (\<lambda>r. if d < r + n \<and> r \<le> d then msp_mem m (msp_sp m + 2 * word_of_nat (r + n - Suc d)) else msp_reg m r),
    msp_sp := msp_sp m + 2 * word_of_nat n\<rparr>"
  using assms
proof (induction n d m rule: popm.induct)
  case (2 n d m)
  have "msp_reg (popm (Suc n) d m) r = (if d < r + Suc n \<and> r \<le> d
      then msp_mem m (msp_sp m + 2 * word_of_nat (r + Suc n - Suc d)) else msp_reg m r)" for r
  proof (cases "r = d - n")
    case True
    then show ?thesis using 2 by auto
  next
    case False
    then have "d < r + Suc n \<and> r \<le> d \<longleftrightarrow> d < r + n \<and> r \<le> d" using 2(2) by auto
    moreover have "r + Suc n - Suc d = Suc (r + n - Suc d)" if "d < r + n" using that by simp
    ultimately show ?thesis using False 2 by (simp add: algebra_simps)
  qed
  moreover have "msp_sp (popm (Suc n) d m) = msp_sp m + 2 * word_of_nat (Suc n)" "msp_mem (popm (Suc n) d m) = msp_mem m"
    "msp_sr (popm (Suc n) d m) = msp_sr m" "msp_pc (popm (Suc n) d m) = msp_pc m"
    using 2 by (simp_all add: algebra_simps)
  ultimately show ?case by (intro msp.equality) (simp_all add: fun_eq_iff)
next
  case (1 d m)
  show ?case by (cases m) (auto simp: fun_eq_iff)
qed

section \<open>Contexts on the stack\<close>

text \<open>The context with the saved stack pointer \<open>p\<close>: R4 to R15 upwards, then SR and the return address.
  The word of SR is changed in place to \<open>sr\<close> before it is popped.\<close>

definition msp_resumed :: "u16 \<Rightarrow> u16 \<Rightarrow> msp \<Rightarrow> msp" where
  "msp_resumed sr p m = m\<lparr>msp_pc := msp_mem m (p + 26), msp_sp := p + 28, msp_sr := sr,
     msp_reg := (\<lambda>r. if 4 \<le> r \<and> r \<le> 15 then msp_mem m (p + 2 * word_of_nat (r - 4)) else msp_reg m r),
     msp_mem := (msp_mem m)(p + 24 := sr)\<rparr>"

lemma popm_12:
  "popm 12 15 m = m\<lparr>msp_reg := (\<lambda>r. if 4 \<le> r \<and> r \<le> 15 then msp_mem m (msp_sp m + 2 * word_of_nat (r - 4)) else msp_reg m r),
     msp_sp := msp_sp m + 24\<rparr>"
proof -
  have "(\<lambda>r. if 15 < r + 12 \<and> r \<le> 15 then msp_mem m (msp_sp m + 2 * word_of_nat (r + 12 - Suc 15)) else msp_reg m r) =
    (\<lambda>r. if 4 \<le> r \<and> r \<le> 15 then msp_mem m (msp_sp m + 2 * word_of_nat (r - 4)) else msp_reg m r)"
    by (auto simp: fun_eq_iff)
  then show ?thesis using popm_fields [of 12 15 m] by simp
qed

lemma switch_load_exec:
  assumes "p = msp_mem m (msp_mem m tc)"
  shows "msp_exec (msp430_switch_load tc) m = msp_resumed (msp_mem m (p + 24) AND NOT powerbits) p m"
  by (cases m) (simp add: msp430_switch_load_def popm_12 msp_resumed_def assms add.assoc cong: if_cong)

lemma restore_exec:
  assumes mm: "mm = (msp_mem m)(ni := msp_mem m ni - 1)"
  shows "mm ni = 0 \<Longrightarrow> p = mm (mm tc) \<Longrightarrow> msp_exec (msp430_contextrestore_i tc ni) m =
      msp_resumed (mm (p + 24) AND NOT powerbits OR GIE) p (m\<lparr>msp_mem := mm\<rparr>)"
    and "mm ni \<noteq> 0 \<Longrightarrow> mm' = mm(0x0a20 := (mm 0x0a20 AND 0xFF00) OR 0x80) \<Longrightarrow> msp_exec (msp430_contextrestore_i tc ni) m =
      msp_resumed (mm' (msp_sp m + 24) OR GIE) (msp_sp m) (m\<lparr>msp_mem := mm'\<rparr>)"
  by (cases m; simp add: msp430_contextrestore_i_def popm_12 msp_resumed_def mm msp_zero_def msp_jump_def bit_simps add.assoc cong: if_cong)+

text \<open>The memory \<open>mm\<close> holds the context of \<open>m\<close>, saved with the status register \<open>sr\<close>.\<close>

definition frame_addrs :: "msp \<Rightarrow> u16 set" where
  "frame_addrs m = (\<lambda>k. msp_sp m - 2 * word_of_nat k) ` {1..14}"

definition msp_saved :: "u16 \<Rightarrow> msp \<Rightarrow> (u16 \<Rightarrow> u16) \<Rightarrow> bool" where
  "msp_saved sr m mm \<longleftrightarrow> mm (msp_sp m - 2) = msp_pc m \<and> mm (msp_sp m - 4) = sr \<and>
     (\<forall>k < 12. mm (msp_sp m - 2 * word_of_nat (k + 3)) = msp_reg m (15 - k))"

definition msp_continues :: "u16 \<Rightarrow> msp \<Rightarrow> msp \<Rightarrow> bool" where
  "msp_continues sr m k \<longleftrightarrow> msp_pc k = msp_pc m \<and> msp_sp k = msp_sp m \<and> msp_sr k = sr \<and>
     (\<forall>r \<in> {4..15}. msp_reg k r = msp_reg m r)"

lemma saved_cong: "msp_saved sr m mm \<Longrightarrow> (\<And>a. a \<in> frame_addrs m \<Longrightarrow> mm' a = mm a) \<Longrightarrow> msp_saved sr m mm'"
proof -
  assume s: "msp_saved sr m mm" and e: "\<And>a. a \<in> frame_addrs m \<Longrightarrow> mm' a = mm a"
  have "mm' (msp_sp m - 2 * word_of_nat k) = mm (msp_sp m - 2 * word_of_nat k)" if "k \<in> {1..14}" for k
    using e that by (auto simp: frame_addrs_def)
  from this [of 1] this [of 2] this [of "_ + 3"] s show ?thesis by (auto simp: msp_saved_def)
qed

lemma resumed_saved:
  assumes "msp_saved sr0 m (msp_mem m2)"
  shows "msp_continues sr m (msp_resumed sr (msp_sp m - 28) m2)" "msp_mem m2 (msp_sp m - 28 + 24) = sr0"
proof -
  have "msp_mem m2 (msp_sp m - 28 + 2 * word_of_nat (r - 4)) = msp_reg m r" if "r \<in> {4..15}" for r
  proof -
    have e: "msp_sp m - 28 + 2 * word_of_nat (r - 4) = msp_sp m - 2 * word_of_nat ((15 - r) + 3)"
      using that by (simp add: of_nat_diff)
    have "\<forall>k < 12. msp_mem m2 (msp_sp m - 2 * word_of_nat (k + 3)) = msp_reg m (15 - k)"
      using assms by (simp add: msp_saved_def)
    then have "msp_mem m2 (msp_sp m - 2 * word_of_nat ((15 - r) + 3)) = msp_reg m (15 - (15 - r))"
      by (rule allE [of _ "15 - r"]) (use that in auto)
    then show ?thesis unfolding e using that by simp
  qed
  then show "msp_continues sr m (msp_resumed sr (msp_sp m - 28) m2)"
    using assms by (simp add: msp_continues_def msp_resumed_def msp_saved_def)
  show "msp_mem m2 (msp_sp m - 28 + 24) = sr0" using assms by (simp add: msp_saved_def)
qed

text \<open>Pushing R15 to R4 below a return address and a status word completes the frame.\<close>

lemma pushm_saves:
  assumes x: "msp_sp x = msp_sp m - 4" "msp_reg x = msp_reg m"
    and top: "msp_mem x (msp_sp m - 2) = msp_pc m" "msp_mem x (msp_sp m - 4) = sr"
  shows "msp_saved sr m (msp_mem (pushm 12 15 x))" and "msp_sp (pushm 12 15 x) = msp_sp m - 28"
    and "a \<notin> frame_addrs m \<Longrightarrow> msp_mem (pushm 12 15 x) a = msp_mem x a"
proof -
  have addr: "msp_sp x - 2 * word_of_nat (Suc k) = msp_sp m - 2 * word_of_nat (k + 3)" for k
    by (simp add: x algebra_simps)
  have ne: "msp_sp m - 2 * word_of_nat j \<noteq> msp_sp x - 2 * word_of_nat (Suc k)" if "j \<in> {1, 2}" "k < 12" for j k
    unfolding addr using double_inj [of j "k + 3"] that by (auto simp del: of_nat_add)
  have "msp_mem (pushm 12 15 x) (msp_sp m - 2 * word_of_nat j) = msp_mem x (msp_sp m - 2 * word_of_nat j)" if "j \<in> {1, 2}" for j
    by (rule pushed_other) (use ne that in auto)
  from this [of 1] this [of 2] show "msp_saved sr m (msp_mem (pushm 12 15 x))"
    using pushed_reg [of _ 12 15 x] top x(2) unfolding addr by (simp add: msp_saved_def)
  show "msp_sp (pushm 12 15 x) = msp_sp m - 28" by (simp add: pushm_fields x)
  show "msp_mem (pushm 12 15 x) a = msp_mem x a" if "a \<notin> frame_addrs m"
  proof (rule pushed_other)
    fix k :: nat assume "k < 12"
    then have "msp_sp x - 2 * word_of_nat (Suc k) \<in> frame_addrs m"
      unfolding addr frame_addrs_def by (intro image_eqI [of _ _ "k + 3"]) auto
    then show "a \<noteq> msp_sp x - 2 * word_of_nat (Suc k)" using that by auto
  qed
qed

definition msp_vars :: "u16 \<Rightarrow> u16 \<Rightarrow> msp \<Rightarrow> bool" where
  "msp_vars tc ni m \<longleftrightarrow> {tc, ni, msp_mem m tc} \<inter> frame_addrs m = {} \<and> distinct [tc, ni, msp_mem m tc]"

lemma top_addrs: "msp_sp m - 2 \<in> frame_addrs m" "msp_sp m - 4 \<in> frame_addrs m"
proof -
  have "msp_sp m - 2 * word_of_nat k \<in> frame_addrs m" if "k \<in> {1..14}" for k using that by (auto simp: frame_addrs_def)
  from this [of 1] this [of 2] show "msp_sp m - 2 \<in> frame_addrs m" "msp_sp m - 4 \<in> frame_addrs m" by simp_all
qed

lemma interrupt_saves:
  assumes vars: "msp_vars tc ni m" and m1: "m1 = msp_exec (msp430_contextstore_i tc ni) (msp_interrupt m)"
  shows "msp_saved (msp_sr m) m (msp_mem m1)" "msp_sp m1 = msp_sp m - 28" "msp_mem m1 ni = msp_mem m ni + 1"
    "msp_mem m1 tc = msp_mem m tc"
    "msp_mem m ni = 0 \<Longrightarrow> msp_mem m1 (msp_mem m tc) = msp_sp m - 28"
proof -
  define x where "x = msp_step (INC_MEM ni) (msp_interrupt m)"
  define y where "y = pushm 12 15 x"
  note V = vars [unfolded msp_vars_def]
  have x: "msp_sp x = msp_sp m - 4" "msp_reg x = msp_reg m" "msp_mem x (msp_sp m - 2) = msp_pc m" "msp_mem x (msp_sp m - 4) = msp_sr m"
    "msp_mem x ni = msp_mem m ni + 1" "msp_mem x tc = msp_mem m tc"
    using V top_addrs [of m] by (auto simp: x_def msp_interrupt_def msp_push_def msp_zero_def)
  note y = pushm_saves [OF x(1-4), folded y_def]
  have yv: "msp_mem y ni = msp_mem m ni + 1" "msp_mem y tc = msp_mem m tc" using y(3) [of ni] y(3) [of tc] V x(5,6) by auto
  have run: "m1 = (if msp_mem m ni = 0
      then (msp_zero True y)\<lparr>msp_reg := (msp_reg y)(15 := msp_mem y tc), msp_mem := (msp_mem y)(msp_mem y tc := msp_sp y)\<rparr>
      else msp_zero False y)"
  proof -
    have "m1 = msp_exec [Mop (CMP_MEM 1 ni), JNE ''contextStoreIsr_Nested'', Mop (LOAD tc 15), Mop (STORE_SP 15),
        MLABEL ''contextStoreIsr_Nested''] y"
      unfolding m1 y_def x_def msp430_contextstore_i_def msp_exec.simps(2) msp_step.simps(3) ..
    then show ?thesis using yv(1) by (cases y) (simp add: msp_zero_def msp_jump_def bit_simps)
  qed
  show "msp_sp m1 = msp_sp m - 28" using y(2) by (simp add: run msp_zero_def)
  have mem: "msp_mem m1 = (if msp_mem m ni = 0 then (msp_mem y)(msp_mem m tc := msp_sp y) else msp_mem y)"
    by (simp add: run msp_zero_def yv(2))
  show "msp_saved (msp_sr m) m (msp_mem m1)" by (rule saved_cong [OF y(1)]) (use V in \<open>auto simp: mem\<close>)
  show "msp_mem m1 ni = msp_mem m ni + 1" "msp_mem m1 tc = msp_mem m tc"
    "msp_mem m ni = 0 \<Longrightarrow> msp_mem m1 (msp_mem m tc) = msp_sp m - 28"
    using V yv y(2) by (auto simp: mem)
qed

section \<open>Properties\<close>

lemma GIE_bit: "bit GIE n \<longleftrightarrow> n = 3"
proof -
  have "bit (push_bit 3 1 :: u16) n \<longleftrightarrow> n = 3"
    unfolding bit_push_bit_iff bit_1_iff by (auto simp: possible_bit_def)
  then show ?thesis by (simp add: GIE_def)
qed

lemma is_dint_GIE: "msp430_is_dint sr \<longleftrightarrow> \<not> bit sr 3"
proof -
  have "sr AND GIE = 0 \<longleftrightarrow> (\<forall>n < 16. \<not> (bit sr n \<and> n = 3))"
    by (auto simp: bit_eq_iff [where ?'a = u16] bit_and_iff GIE_bit)
  then show ?thesis unfolding msp430_is_dint_def by (auto dest: spec [of _ 3])
qed

text \<open>\<open>arch_halt\<close> never returns; after any number of rounds the interrupts are still disabled, and the CPU is off.\<close>

lemma msp430_halts:
  "msp430_halt sr = None"
  "msp430_is_dint ((msp430_halt_body ^^ n) (msp430_dint sr))"
  "bit ((msp430_halt_body ^^ Suc n) (msp430_dint sr)) 4"
proof -
  have "msp430_halt_loop sr = Some r \<Longrightarrow> False" for sr r by (rule msp430_halt_loop.raw_induct) auto
  then show "msp430_halt sr = None" by (cases "msp430_halt sr") (auto simp: msp430_halt_def)
  have "bit (push_bit 4 1 :: u16) i \<longleftrightarrow> i = 4" for i
    unfolding bit_push_bit_iff bit_1_iff by (auto simp: possible_bit_def)
  then have 4: "bit (16 :: u16) i \<longleftrightarrow> i = 4" for i by simp
  show "bit ((msp430_halt_body ^^ Suc n) (msp430_dint sr)) 4" by (simp add: msp430_halt_body_def bit_simps 4)
  show "msp430_is_dint ((msp430_halt_body ^^ n) (msp430_dint sr))"
    by (induction n) (simp_all add: is_dint_GIE msp430_dint_def msp430_halt_body_def bit_simps GIE_bit 4)
qed

lemma powerbits_bit: "\<not> bit powerbits 3"
  by (simp add: powerbits_def)

lemma enabled_or_GIE:
  assumes "\<not> msp430_is_dint sr"
  shows "sr OR GIE = sr" "sr AND NOT powerbits OR GIE = sr AND NOT powerbits"
  using assms powerbits_bit
  by (auto simp: is_dint_GIE bit_eq_iff [where ?'a = u16] bit_or_iff bit_and_iff bit_not_iff GIE_bit)

text \<open>Interrupts are transparent on the MSP430: if the handler leaves the saved frame and the kernel's
  variables as they are, the interrupted code goes on at the same address with R4 to R15 and the stack
  pointer unchanged and interrupts enabled; the outermost interrupt wakes the CPU up by clearing the
  power bits of the status register, and is otherwise as it was.\<close>

theorem msp430_interrupt_transparent:
  assumes en: "\<not> msp430_is_dint (msp_sr m)" and vars: "msp_vars tc ni m"
    and m1: "m1 = msp_exec (msp430_contextstore_i tc ni) (msp_interrupt m)"
    and same: "\<forall>a \<in> frame_addrs m \<union> {tc, ni, msp_mem m tc}. msp_mem m2 a = msp_mem m1 a"
    and nest: "msp_mem m ni = 0 \<or> msp_mem m ni \<noteq> 0xFFFF \<and> msp_sp m2 = msp_sp m1 \<and> 0x0a20 \<notin> frame_addrs m \<union> {ni}"
  shows "msp_continues (if msp_mem m ni = 0 then msp_sr m AND NOT powerbits else msp_sr m) m
      (msp_exec (msp430_contextrestore_i tc ni) m2) \<and>
    msp_mem (msp_exec (msp430_contextrestore_i tc ni) m2) ni = msp_mem m ni"
proof -
  note S = interrupt_saves [OF vars m1]
  note V = vars [unfolded msp_vars_def]
  define mm where "mm = (msp_mem m2)(ni := msp_mem m2 ni - 1)"
  have sv: "msp_saved (msp_sr m) m mm" by (rule saved_cong [OF S(1)]) (use same V in \<open>auto simp: mm_def\<close>)
  have v: "mm ni = msp_mem m ni" "mm tc = msp_mem m tc" "mm (msp_mem m tc) = msp_mem m1 (msp_mem m tc)"
    using same S(3,4) V by (auto simp: mm_def)
  have e: "msp_sp m - 28 + 24 = msp_sp m - 4" by simp
  have ni: "ni \<noteq> msp_sp m - 4" using top_addrs(2) [of m] V by auto
  show ?thesis
  proof (cases "msp_mem m ni = 0")
    case True
    have run: "msp_exec (msp430_contextrestore_i tc ni) m2 =
        msp_resumed (mm (msp_sp m - 28 + 24) AND NOT powerbits OR GIE) (msp_sp m - 28) (m2\<lparr>msp_mem := mm\<rparr>)"
      by (rule restore_exec(1) [OF mm_def]) (use v True S(5) in simp_all)
    have sv2: "msp_saved (msp_sr m) m (msp_mem (m2\<lparr>msp_mem := mm\<rparr>))" using sv by simp
    show ?thesis using True resumed_saved [OF sv2] v(1) enabled_or_GIE(2) [OF en] ni unfolding run
      by (simp add: msp_resumed_def msp_continues_def)
  next
    case False
    define mm' where "mm' = mm(0x0a20 := (mm 0x0a20 AND 0xFF00) OR 0x80)"
    have run: "msp_exec (msp430_contextrestore_i tc ni) m2 =
        msp_resumed (mm' (msp_sp m - 28 + 24) OR GIE) (msp_sp m - 28) (m2\<lparr>msp_mem := mm'\<rparr>)"
      using restore_exec(2) [OF mm_def _ mm'_def, of tc] False nest v(1) S(2) by auto
    have "msp_saved (msp_sr m) m mm'" by (rule saved_cong [OF sv]) (use False nest in \<open>auto simp: mm'_def\<close>)
    then have "msp_saved (msp_sr m) m (msp_mem (m2\<lparr>msp_mem := mm'\<rparr>))" by simp
    from resumed_saved [OF this] show ?thesis
      using False nest v(1) enabled_or_GIE(1) [OF en] ni unfolding run by (auto simp: msp_resumed_def msp_continues_def mm'_def)
  qed
qed

lemma switch_saves:
  assumes V: "{tc, msp_mem m tc} \<inter> frame_addrs m = {}" "tc \<noteq> msp_mem m tc"
    and x: "x = msp_exec (msp430_switch_save tc) (msp_call m)"
  shows "msp_saved (msp_sr m) m (msp_mem x)" "msp_mem x (msp_mem m tc) = msp_sp m - 28"
    "a \<notin> frame_addrs m \<union> {msp_mem m tc} \<Longrightarrow> msp_mem x a = msp_mem m a"
proof -
  define w where "w = msp_step PUSH_SR (msp_call m)"
  have w: "msp_sp w = msp_sp m - 4" "msp_reg w = msp_reg m" "msp_mem w (msp_sp m - 2) = msp_pc m" "msp_mem w (msp_sp m - 4) = msp_sr m"
    "msp_mem w tc = msp_mem m tc"
    using V top_addrs [of m] by (auto simp: w_def msp_call_def msp_push_def)
  note y = pushm_saves [OF w(1-4)]
  have tc: "msp_mem (pushm 12 15 w) tc = msp_mem m tc" using y(3) [of tc] V w(5) by auto
  have run: "x = (pushm 12 15 w)\<lparr>msp_reg := (msp_reg (pushm 12 15 w))(4 := msp_mem m tc),
      msp_mem := (msp_mem (pushm 12 15 w))(msp_mem m tc := msp_sp m - 28)\<rparr>"
    unfolding x w_def msp430_switch_save_def msp_exec.simps(2) msp_step.simps(3) unfolding w_def [symmetric]
    by (simp add: tc y(2))
  show "msp_saved (msp_sr m) m (msp_mem x)" by (rule saved_cong [OF y(1)]) (use V in \<open>auto simp: run\<close>)
  show "msp_mem x (msp_mem m tc) = msp_sp m - 28" by (simp add: run)
  show "msp_mem x a = msp_mem m a" if "a \<notin> frame_addrs m \<union> {msp_mem m tc}"
    using that y(3) [of a] top_addrs [of m] by (auto simp: run w_def msp_call_def msp_push_def)
qed

lemma switch_keeps:
  assumes V: "{tc, msp_mem m tc} \<inter> frame_addrs m = {}" "tc \<noteq> msp_mem m tc" and z: "z = msp_mem m tc"
    and new: "new_task \<notin> frame_addrs m \<union> {tc, z}" "msp_mem m new_task + 24 \<notin> frame_addrs m \<union> {tc, z}"
    and x: "x = msp_exec (msp430_switch_save tc) (msp_call m)"
    and m1: "m1 = msp430_context_switch tc new_task (msp_call m)"
  shows "a \<in> frame_addrs m \<union> {z} \<Longrightarrow> msp_mem m1 a = msp_mem x a" "msp_mem m1 tc = new_task"
    "m1 = msp_resumed (msp_mem m (msp_mem m new_task + 24) AND NOT powerbits) (msp_mem m new_task)
      (x\<lparr>msp_mem := (msp_mem x)(tc := new_task)\<rparr>)"
proof -
  let ?y = "x\<lparr>msp_mem := (msp_mem x)(tc := new_task)\<rparr>"
  have o: "msp_mem x a = msp_mem m a" if "a \<notin> frame_addrs m \<union> {z}" for a using switch_saves(3) [OF V x] that z by simp
  have p: "msp_mem m new_task = msp_mem ?y (msp_mem ?y tc)" using new(1) o [of new_task] by auto
  have "msp_mem ?y (msp_mem m new_task + 24) = msp_mem m (msp_mem m new_task + 24)"
    using new(2) o [of "msp_mem m new_task + 24"] by auto
  then show e: "m1 = msp_resumed (msp_mem m (msp_mem m new_task + 24) AND NOT powerbits) (msp_mem m new_task) ?y"
    using switch_load_exec [OF p] unfolding m1 msp430_context_switch_def Let_def x [symmetric] by simp
  show "msp_mem m1 tc = new_task" "a \<in> frame_addrs m \<union> {z} \<Longrightarrow> msp_mem m1 a = msp_mem x a"
    using new(2) V z by (auto simp: e msp_resumed_def)
qed

text \<open>C38. The context switch of the MSP430 saves the caller so that it can be resumed in two ways. A later
  switch back returns from the call with R4 to R15, the stack pointer and the interrupt flag as they
  were (interrupts stay disabled inside the kernel's critical section). If an interrupt handler makes
  the task current again, \<open>arch_contextrestore_i\<close> resumes it at the same place with interrupts
  enabled, although it left the CPU inside a critical section.\<close>

theorem msp430_switch_resumes:
  assumes V: "{tc, msp_mem m tc} \<inter> frame_addrs m = {}" "tc \<noteq> msp_mem m tc" and z: "z = msp_mem m tc"
    and new: "new_task \<notin> frame_addrs m \<union> {tc, z}" "msp_mem m new_task + 24 \<notin> frame_addrs m \<union> {tc, z}"
    and dint: "msp430_is_dint (msp_sr m)" and m1: "m1 = msp430_context_switch tc new_task (msp_call m)"
    and same: "\<forall>a \<in> frame_addrs m \<union> {z}. msp_mem m2 a = msp_mem m1 a" and cur: "msp_mem m2 tc = z"
  shows "msp_mem m1 tc = new_task \<and> msp_continues (msp_sr m AND NOT powerbits) m (msp_exec (msp430_switch_load tc) m2) \<and>
    msp430_is_dint (msp_sr (msp_exec (msp430_switch_load tc) m2)) \<and>
    (msp_mem m2 ni = 1 \<and> ni \<notin> frame_addrs m \<union> {tc, z} \<longrightarrow>
       msp_pc (msp_exec (msp430_contextrestore_i tc ni) m2) = msp_pc m \<and>
       \<not> msp430_is_dint (msp_sr (msp_exec (msp430_contextrestore_i tc ni) m2)))"
proof -
  note S = switch_saves [OF V refl]
  note K = switch_keeps [OF V z new refl m1]
  have sv: "msp_saved (msp_sr m) m (msp_mem m2)" by (rule saved_cong [OF S(1)]) (use same K(1) in auto)
  have p: "msp_mem m2 (msp_mem m2 tc) = msp_sp m - 28" using same K(1) S(2) cur z by auto
  have load: "msp_exec (msp430_switch_load tc) m2 = msp_resumed (msp_sr m AND NOT powerbits) (msp_sp m - 28) m2"
    using switch_load_exec [OF refl, of tc m2] resumed_saved(2) [OF sv] p by simp
  have 1: "msp_continues (msp_sr m AND NOT powerbits) m (msp_exec (msp430_switch_load tc) m2)"
    unfolding load by (rule resumed_saved(1) [OF sv])
  have 2: "msp430_is_dint (msp_sr (msp_exec (msp430_switch_load tc) m2))"
    using dint unfolding load by (simp add: msp_resumed_def is_dint_GIE bit_and_iff)
  have 3: "msp_pc (msp_exec (msp430_contextrestore_i tc ni) m2) = msp_pc m \<and>
      \<not> msp430_is_dint (msp_sr (msp_exec (msp430_contextrestore_i tc ni) m2))"
    if ni: "msp_mem m2 ni = 1" "ni \<notin> frame_addrs m \<union> {tc, z}"
  proof -
    define mm where "mm = (msp_mem m2)(ni := msp_mem m2 ni - 1)"
    have mm: "mm ni = 0" "msp_sp m - 28 = mm (mm tc)" using ni p cur by (auto simp: mm_def)
    have "msp_saved (msp_sr m) m mm" by (rule saved_cong [OF sv]) (use ni in \<open>auto simp: mm_def\<close>)
    then have "msp_saved (msp_sr m) m (msp_mem (m2\<lparr>msp_mem := mm\<rparr>))" by simp
    from resumed_saved(1) [OF this] show ?thesis
      unfolding restore_exec(1) [OF mm_def mm]
      by (simp add: msp_continues_def msp_resumed_def is_dint_GIE bit_or_iff GIE_bit)
  qed
  show ?thesis using K(2) 1 2 3 by blast
qed

text \<open>The always false assertion makes \<open>arch_task_init\<close> halt whatever its arguments.\<close>

lemma msp430_task_init_halts: "msp430_task_init start stack_param stack_size proc prm mm = None"
  by (simp add: msp430_task_init_def msp430_assert_def Let_def)

section \<open>Witnesses\<close>

text \<open>A machine with its stack below 0x400 and the variables above; \<open>en\<close> is the interrupt flag.\<close>

definition demo_msp :: "u16 \<Rightarrow> msp" where
  "demo_msp sr = \<lparr>msp_pc = 0x1234, msp_sp = 0x400, msp_sr = sr, msp_reg = (\<lambda>r. word_of_nat r),
     msp_mem = (\<lambda>_. 0)(0x500 := 0x510, 0x520 := 0x600)\<rparr>"

lemma demo_msp_frame: "frame_addrs (demo_msp sr) = {0x3E4, 0x3E6, 0x3E8, 0x3EA, 0x3EC, 0x3EE, 0x3F0, 0x3F2, 0x3F4, 0x3F6,
    0x3F8, 0x3FA, 0x3FC, 0x3FE}"
proof -
  have "set [1..<15] = {1, 2, 3, 4, 5, 6, 7, 8, 9, 10, 11, 12, 13, 14 :: nat}" by code_simp
  moreover have "{1..14 :: nat} = set [1..<15]" by auto
  ultimately have "{1..14 :: nat} = {1, 2, 3, 4, 5, 6, 7, 8, 9, 10, 11, 12, 13, 14}" by simp
  then show ?thesis by (simp add: frame_addrs_def demo_msp_def insert_commute)
qed

theorem msp430_interrupt_transparent_witness:
  "msp_continues (GIE AND NOT powerbits) (demo_msp GIE) (msp_exec (msp430_contextrestore_i 0x500 0x502)
     (msp_exec (msp430_contextstore_i 0x500 0x502) (msp_interrupt (demo_msp GIE))))"
proof -
  have "\<not> msp430_is_dint (msp_sr (demo_msp GIE))" by (simp add: demo_msp_def is_dint_GIE GIE_bit)
  moreover have "msp_vars 0x500 0x502 (demo_msp GIE)" unfolding msp_vars_def demo_msp_frame by (simp add: demo_msp_def)
  moreover have "msp_mem (demo_msp GIE) 0x502 = 0" "msp_sr (demo_msp GIE) = GIE" by (simp_all add: demo_msp_def)
  ultimately show ?thesis
    using msp430_interrupt_transparent [OF _ _ refl, of "demo_msp GIE" "0x500" "0x502"
        "msp_exec (msp430_contextstore_i 0x500 0x502) (msp_interrupt (demo_msp GIE))"] by simp
qed

theorem msp430_switch_resumes_witness:
  "\<exists>m1. m1 = msp430_context_switch 0x500 0x520 (msp_call (demo_msp 0)) \<and> msp_mem m1 0x500 = 0x520 \<and>
     \<not> msp430_is_dint (msp_sr (msp_exec (msp430_contextrestore_i 0x500 0x502)
       (m1\<lparr>msp_mem := (msp_mem m1)(0x500 := 0x510, 0x502 := 1)\<rparr>)))"
proof -
  let ?m = "demo_msp 0"
  define m1 where "m1 = msp430_context_switch 0x500 0x520 (msp_call ?m)"
  let ?m2 = "m1\<lparr>msp_mem := (msp_mem m1)(0x500 := 0x510, 0x502 := 1)\<rparr>"
  have m: "msp_mem ?m 0x500 = 0x510" "msp_mem ?m 0x520 = 0x600" "msp_sr ?m = 0" by (simp_all add: demo_msp_def)
  show ?thesis
    using msp430_switch_resumes [OF _ _ refl _ _ _ m1_def, of ?m2 "0x502"] m1_def
    unfolding demo_msp_frame m by (simp add: msp430_is_dint_def)
qed

end
