(* ===== verification/Linux_Port.thy ===== *)
theory Linux_Port
  imports Msp430_Port
begin

text \<open>
  The Linux port (\<^verbatim>\<open>arch/linux/arch_port.c\<close>, \<^verbatim>\<open>arch/linux/arch_port.h\<close>): interrupts are signals, disabling
  them is masking all signals but SIGUSR1, and a context switch raises SIGUSR1, whose handler replaces
  the context that the operating system restores when the handler returns. The signal functions of
  POSIX are modelled on sets of signal numbers; \<open>makecontext\<close> and the addresses the compiler
  provides are parameters. The atomic macros of the three ports are compared at the end.
\<close>

section \<open>Signals\<close>

type_synonym u64 = "64 word"
type_synonym sigset = "nat set"

definition SIGKILL :: nat where "SIGKILL = 9"

definition SIGUSR1 :: nat where "SIGUSR1 = 10"

definition SIGSTOP :: nat where "SIGSTOP = 19"

datatype sig_how = SIG_BLOCK | SIG_UNBLOCK | SIG_SETMASK

definition sigfillset :: sigset where
  "sigfillset = {1..64}"

text \<open>The operating system silently keeps SIGKILL and SIGSTOP out of a mask. The third argument of
  \<open>sigprocmask\<close>, the old mask, is the first component of the result.\<close>

definition accepted :: "sigset \<Rightarrow> sigset" where
  "accepted s = s - {SIGKILL, SIGSTOP}"

fun new_mask :: "sig_how \<Rightarrow> sigset \<Rightarrow> sigset \<Rightarrow> sigset" where
  "new_mask SIG_BLOCK s m = accepted (m \<union> s)"
| "new_mask SIG_UNBLOCK s m = m - s"
| "new_mask SIG_SETMASK s m = accepted s"

definition sigprocmask :: "sig_how \<Rightarrow> sigset option \<Rightarrow> sigset \<Rightarrow> sigset \<times> sigset" where
  "sigprocmask how s m = (m, case s of None \<Rightarrow> m | Some s \<Rightarrow> new_mask how s m)"

section \<open>Critical sections\<close>

text \<open>\<open>arch_os_init\<close> computes \<open>arch_crit_signals\<close>; the mask of the caller is put back.\<close>

definition linux_os_init :: "sigset \<Rightarrow> sigset \<times> sigset" where
  "linux_os_init m =
     (let arch_crit_signals = sigfillset;
          arch_crit_signals = arch_crit_signals - {SIGUSR1};
          (prev_sigmask, m) = sigprocmask SIG_SETMASK (Some arch_crit_signals) m;
          (arch_crit_signals, m) = sigprocmask SIG_SETMASK None m;
          (_, m) = sigprocmask SIG_SETMASK (Some prev_sigmask) m
      in (arch_crit_signals, m))"

definition linux_critical_enter :: "sigset \<Rightarrow> sigset \<Rightarrow> sigset \<times> sigset" where
  "linux_critical_enter arch_crit_signals m = sigprocmask SIG_BLOCK (Some arch_crit_signals) m"

definition linux_critical_exit :: "sigset \<Rightarrow> sigset \<Rightarrow> sigset" where
  "linux_critical_exit critical_state m = snd (sigprocmask SIG_SETMASK (Some critical_state) m)"

definition linux_dint :: "sigset \<Rightarrow> sigset \<Rightarrow> sigset" where
  "linux_dint arch_crit_signals m = snd (sigprocmask SIG_BLOCK (Some arch_crit_signals) m)"

definition linux_eint :: "sigset \<Rightarrow> sigset \<Rightarrow> sigset" where
  "linux_eint arch_crit_signals m = snd (sigprocmask SIG_UNBLOCK (Some arch_crit_signals) m)"

definition linux_is_dint :: "sigset \<Rightarrow> sigset \<Rightarrow> bool" where
  "linux_is_dint arch_crit_signals m =
     (let (current_mask, _) = sigprocmask SIG_SETMASK None m in current_mask = arch_crit_signals)"

section \<open>Contexts\<close>

text \<open>The members of \<open>ucontext_t\<close> the code touches; \<open>gregs\<close> has 23 entries, of which the first 18 are
  the registers (R8 to R15, RDI, RSI, RBP, RBX, RDX, RAX, RCX, RSP, RIP, EFL).\<close>

record ucontext =
  uc_stack :: "u64 \<times> u64"
  gregs :: "nat \<Rightarrow> u64"
  fpregs_mem :: "u8 list"
  uc_sigmask :: sigset

definition REG_RDI :: nat where "REG_RDI = 8"

definition REG_RSI :: nat where "REG_RSI = 9"

definition REG_RBP :: nat where "REG_RBP = 10"

definition REG_RSP :: nat where "REG_RSP = 15"

definition REG_RIP :: nat where "REG_RIP = 16"

text \<open>The process: the registers of the CPU are the context \<open>lx_cpu\<close>, whose mask is the signal mask.\<close>

record linux =
  lx_cpu :: ucontext
  lx_crit :: sigset
  lx_pending :: sigset
  lx_isr_nesting :: int
  lx_current :: nat
  lx_ctx :: "nat \<Rightarrow> ucontext"

text \<open>The copies that \<open>arch_sig_switch\<close> and \<open>arch_contextrestore_i\<close> make into the frame of the handler.\<close>

definition copy_registers :: "ucontext \<Rightarrow> ucontext \<Rightarrow> ucontext" where
  "copy_registers c u = u\<lparr>uc_stack := uc_stack c,
     gregs := (\<lambda>i. if i < 18 then gregs c i else gregs u i), fpregs_mem := fpregs_mem c\<rparr>"

definition linux_sig_switch :: "linux \<Rightarrow> ucontext \<Rightarrow> ucontext" where
  "linux_sig_switch s u =
     (let u = copy_registers (lx_ctx s (lx_current s)) u
      in u\<lparr>uc_sigmask := uc_sigmask (lx_ctx s (lx_current s))\<rparr>)"

text \<open>\<open>raise\<close>: a blocked signal stays pending; otherwise the handler gets the interrupted context, and
  what it leaves there is what the process continues with.\<close>

definition raise_SIGUSR1 :: "linux \<Rightarrow> linux" where
  "raise_SIGUSR1 s =
     (if SIGUSR1 \<in> uc_sigmask (lx_cpu s)
      then s\<lparr>lx_pending := insert SIGUSR1 (lx_pending s)\<rparr>
      else let u = linux_sig_switch s (lx_cpu s)
           in s\<lparr>lx_cpu := u\<lparr>uc_sigmask := accepted (uc_sigmask u)\<rparr>\<rparr>)"

text \<open>\<open>ra\<close> and \<open>fp\<close> are \<open>__builtin_return_address(0)\<close> and \<open>__builtin_frame_address(1)\<close>.\<close>

definition linux_context_switch :: "u64 \<Rightarrow> u64 \<Rightarrow> nat \<Rightarrow> linux \<Rightarrow> linux" where
  "linux_context_switch ra fp new_task s =
     (let c = lx_cpu s;
          c = c\<lparr>gregs := (gregs c)(REG_RIP := ra)\<rparr>;
          c = c\<lparr>gregs := (gregs c)(REG_RSP := gregs c REG_RSP + 0x20)\<rparr>;
          c = c\<lparr>gregs := (gregs c)(REG_RBP := fp)\<rparr>;
          s = s\<lparr>lx_ctx := (lx_ctx s)(lx_current s := c)\<rparr>;
          s = s\<lparr>lx_current := new_task\<rparr>
      in raise_SIGUSR1 s)"

definition linux_contextstore_i :: "ucontext \<Rightarrow> linux \<Rightarrow> linux" where
  "linux_contextstore_i u s =
     (let s = s\<lparr>lx_isr_nesting := lx_isr_nesting s + 1\<rparr>
      in if 1 \<ge> lx_isr_nesting s then s\<lparr>lx_ctx := (lx_ctx s)(lx_current s := u)\<rparr> else s)"

definition linux_contextrestore_i :: "ucontext \<Rightarrow> linux \<Rightarrow> ucontext \<times> linux" where
  "linux_contextrestore_i u s =
     (let s = s\<lparr>lx_cpu := (lx_cpu s)\<lparr>uc_sigmask := linux_dint (lx_crit s) (uc_sigmask (lx_cpu s))\<rparr>\<rparr>;
          s = s\<lparr>lx_isr_nesting := lx_isr_nesting s - 1\<rparr>;
          u = (if 0 = lx_isr_nesting s then copy_registers (lx_ctx s (lx_current s)) u else u)
      in (u\<lparr>uc_sigmask := uc_sigmask (lx_ctx s (lx_current s))\<rparr>, s))"

text \<open>\<open>arch_task_init\<close>; \<open>mk\<close> is \<open>makecontext\<close> with the start function and its two arguments, \<open>None\<close> is the halt.\<close>

definition linux_task_init ::
  "(ucontext \<Rightarrow> u64 \<Rightarrow> u64 \<Rightarrow> u64 \<Rightarrow> ucontext) \<Rightarrow> u64 \<Rightarrow> nat \<Rightarrow> u64 \<Rightarrow> u64 \<Rightarrow> u64 \<Rightarrow> u64 \<Rightarrow> linux \<Rightarrow> linux option" where
  "linux_task_init mk start t stack_param stack_size proc prm s =
     (if \<not> (0 = stack_param AND 7) then None
      else let c = lx_cpu s;
               c = c\<lparr>uc_stack := (stack_param, stack_size)\<rparr>
           in Some (s\<lparr>lx_ctx := (lx_ctx s)(t := mk c start proc prm)\<rparr>))"

text \<open>The first statement of \<open>arch_task_start\<close>.\<close>

definition linux_task_start :: "linux \<Rightarrow> linux" where
  "linux_task_start s =
     s\<lparr>lx_cpu := (lx_cpu s)\<lparr>uc_sigmask := linux_eint (lx_crit s) (uc_sigmask (lx_cpu s))\<rparr>\<rparr>"

section \<open>Atomic macros\<close>

definition linux_atomic_inc_load :: "'w::len word \<Rightarrow> 'w word \<times> 'w word" where
  "linux_atomic_inc_load cell = (cell + 1, cell + 1)"

definition linux_atomic_dec_load :: "'w::len word \<Rightarrow> 'w word \<times> 'w word" where
  "linux_atomic_dec_load cell = (cell - 1, cell - 1)"

definition linux_atomic_inc :: "'w::len word \<Rightarrow> 'w word" where
  "linux_atomic_inc cell = snd (linux_atomic_inc_load cell)"

definition linux_atomic_dec :: "'w::len word \<Rightarrow> 'w word" where
  "linux_atomic_dec cell = snd (linux_atomic_dec_load cell)"

definition linux_atomic_load :: "'p \<Rightarrow> 'p" where
  "linux_atomic_load cell = cell"

definition linux_atomic_store :: "'p \<Rightarrow> 'p \<Rightarrow> 'p" where
  "linux_atomic_store val cell = val"

definition linux_atomic_exch :: "'p \<Rightarrow> 'p \<Rightarrow> 'p \<times> 'p" where
  "linux_atomic_exch val cell = (cell, val)"

definition linux_atomic_cmp_exch :: "'p \<Rightarrow> 'p \<Rightarrow> 'p \<Rightarrow> bool \<times> 'p \<times> 'p" where
  "linux_atomic_cmp_exch exp_val val cell =
     (let (success, cell, exp_val) = (if cell = exp_val then (True, val, exp_val) else (False, cell, cell))
      in (\<not> success, cell, exp_val))"

section \<open>Properties\<close>

lemma crit_signals: "fst (linux_os_init m) = {1..64} - {SIGKILL, SIGSTOP, SIGUSR1}"
  by (auto simp: linux_os_init_def sigprocmask_def accepted_def sigfillset_def)

text \<open>C40. The critical sections of the Linux port: \<open>arch_os_init\<close> computes the mask of all signals that can
  be masked except SIGUSR1 and leaves the process's mask alone; then, in a process that never masks
  SIGUSR1, \<open>arch_is_dint\<close> holds exactly inside critical sections (if not all signals were masked
  before), sections nest, leaving restores the mask, and SIGUSR1 stays deliverable, so that the context switch works inside.\<close>

theorem linux_critical_sections:
  assumes "crit = fst (linux_os_init m0)" and "m \<subseteq> {1..64}" and "SIGUSR1 \<notin> m" and "accepted m = m" and "accepted m0 = m0"
  shows "snd (linux_os_init m0) = m0 \<and>
    (let (c1, m1) = linux_critical_enter crit m; (c2, m2) = linux_critical_enter crit m1;
         m3 = linux_critical_exit c2 m2; m4 = linux_critical_exit c1 m3
     in linux_is_dint crit m1 \<and> linux_is_dint crit m2 \<and> linux_is_dint crit m3 \<and> m4 = m \<and>
        SIGUSR1 \<notin> m1 \<and> linux_eint crit m1 = {} \<and> (linux_is_dint crit m \<longleftrightarrow> m = crit))"
proof -
  have crit: "crit = {1..64} - {SIGKILL, SIGSTOP, SIGUSR1}" using assms(1) crit_signals by simp
  have enter: "m' \<subseteq> crit \<Longrightarrow> linux_critical_enter crit m' = (m', crit)" for m'
    by (auto simp: linux_critical_enter_def sigprocmask_def accepted_def crit)
  have mc: "m \<subseteq> crit" using assms(2-4) by (auto simp: crit accepted_def)
  have ac: "accepted crit = crit" by (auto simp: crit accepted_def)
  have "snd (linux_os_init m0) = m0" using assms(5) by (simp add: linux_os_init_def sigprocmask_def)
  moreover have "SIGUSR1 \<notin> crit" by (simp add: crit)
  ultimately show ?thesis
    using enter [OF mc] enter [of crit] assms(4) ac
    by (simp add: linux_critical_exit_def linux_is_dint_def linux_eint_def sigprocmask_def)
qed

text \<open>What \<open>makecontext\<close> is documented to do: the context runs the function with its arguments, and keeps the
  signal mask.\<close>

definition makes_context :: "(ucontext \<Rightarrow> u64 \<Rightarrow> u64 \<Rightarrow> u64 \<Rightarrow> ucontext) \<Rightarrow> bool" where
  "makes_context mk \<longleftrightarrow> (\<forall>c f a b. gregs (mk c f a b) REG_RIP = f \<and> gregs (mk c f a b) REG_RDI = a \<and>
     gregs (mk c f a b) REG_RSI = b \<and> uc_sigmask (mk c f a b) = uc_sigmask c \<and> uc_stack (mk c f a b) = uc_stack c)"

text \<open>The CPU continues the context: its registers, stack and signal mask.\<close>

definition continues_ctx :: "ucontext \<Rightarrow> ucontext \<Rightarrow> bool" where
  "continues_ctx c u \<longleftrightarrow> uc_stack u = uc_stack c \<and> (\<forall>i < 18. gregs u i = gregs c i) \<and> fpregs_mem u = fpregs_mem c \<and>
     uc_sigmask u = accepted (uc_sigmask c)"

lemma raise_switches:
  "SIGUSR1 \<notin> uc_sigmask (lx_cpu s) \<Longrightarrow> continues_ctx (lx_ctx s (lx_current s)) (lx_cpu (raise_SIGUSR1 s)) \<and>
     lx_ctx (raise_SIGUSR1 s) = lx_ctx s \<and> lx_current (raise_SIGUSR1 s) = lx_current s"
  by (simp add: raise_SIGUSR1_def linux_sig_switch_def copy_registers_def continues_ctx_def)

text \<open>C39. Context switches of the Linux port: as long as SIGUSR1 is not masked, \<open>arch_context_switch\<close>
  continues the saved context of the new task at once, with its registers and its signal mask
  (so a task suspended in a critical section comes back in it, and one suspended by a signal comes
  back with signals enabled); and a switch back to the old task continues at the return address of its
  call with its registers, frame pointer and mask.\<close>

theorem linux_switch_roundtrip:
  assumes u: "SIGUSR1 \<notin> uc_sigmask (lx_cpu s)" "SIGUSR1 \<notin> uc_sigmask (lx_ctx s b)" and b: "b \<noteq> lx_current s"
    and m: "accepted (uc_sigmask (lx_cpu s)) = uc_sigmask (lx_cpu s)"
    and s1: "s1 = linux_context_switch ra fp b s" and s2: "s2 = linux_context_switch ra' fp' (lx_current s) s1"
  shows "continues_ctx (lx_ctx s b) (lx_cpu s1) \<and> lx_current s1 = b \<and> lx_current s2 = lx_current s \<and>
    gregs (lx_cpu s2) REG_RIP = ra \<and> gregs (lx_cpu s2) REG_RBP = fp \<and>
    gregs (lx_cpu s2) REG_RSP = gregs (lx_cpu s) REG_RSP + 0x20 \<and>
    (\<forall>i < 18. i \<notin> {REG_RIP, REG_RBP, REG_RSP} \<longrightarrow> gregs (lx_cpu s2) i = gregs (lx_cpu s) i) \<and>
    fpregs_mem (lx_cpu s2) = fpregs_mem (lx_cpu s) \<and> uc_sigmask (lx_cpu s2) = uc_sigmask (lx_cpu s)"
proof -
  let ?a = "lx_current s"
  have c1: "continues_ctx (lx_ctx s b) (lx_cpu s1)" "lx_current s1 = b" and sv: "lx_ctx s1 ?a = (lx_cpu s)\<lparr>gregs :=
      (gregs (lx_cpu s))(REG_RIP := ra, REG_RSP := gregs (lx_cpu s) REG_RSP + 0x20, REG_RBP := fp)\<rparr>"
    using u(1) b by (simp_all add: s1 linux_context_switch_def Let_def raise_SIGUSR1_def linux_sig_switch_def
        copy_registers_def continues_ctx_def REG_RIP_def REG_RSP_def REG_RBP_def)
  have "SIGUSR1 \<notin> uc_sigmask (lx_cpu s1)" using c1(1) u(2) by (simp add: continues_ctx_def accepted_def)
  then have c2: "continues_ctx (lx_ctx s1 ?a) (lx_cpu s2)" "lx_current s2 = ?a"
    using b c1(2) by (simp_all add: s2 linux_context_switch_def Let_def raise_SIGUSR1_def linux_sig_switch_def
        copy_registers_def continues_ctx_def)
  then show ?thesis using c1 m by (simp add: continues_ctx_def sv REG_RIP_def REG_RSP_def REG_RBP_def)
qed

text \<open>The first switch to a task from \<open>arch_task_init\<close> enters the start function with the task function and
  its argument, and signals are enabled after its first statement.\<close>

lemma linux_fresh_task_starts:
  assumes "makes_context mk" and "linux_task_init mk start t stk sz proc prm s = Some s1"
    and "SIGUSR1 \<notin> uc_sigmask (lx_cpu s2)" "uc_sigmask (lx_cpu s) \<subseteq> lx_crit s2" "t \<noteq> lx_current s2" "lx_ctx s2 t = lx_ctx s1 t"
    and "s3 = linux_context_switch ra fp t s2"
  shows "gregs (lx_cpu s3) REG_RIP = start \<and> gregs (lx_cpu s3) REG_RDI = proc \<and> gregs (lx_cpu s3) REG_RSI = prm \<and>
    uc_stack (lx_cpu s3) = (stk, sz) \<and> uc_sigmask (lx_cpu (linux_task_start s3)) = {}"
proof -
  have c: "lx_ctx s2 t = mk ((lx_cpu s)\<lparr>uc_stack := (stk, sz)\<rparr>) start proc prm"
    using assms(2,6) by (auto simp: linux_task_init_def Let_def split: if_splits)
  have "continues_ctx (lx_ctx s2 t) (lx_cpu s3)" "lx_crit s3 = lx_crit s2"
    using assms(3,5) by (simp_all add: assms(7) linux_context_switch_def Let_def raise_SIGUSR1_def linux_sig_switch_def
        copy_registers_def continues_ctx_def)
  then show ?thesis using assms(1,4)
    by (auto simp: continues_ctx_def c makes_context_def REG_RIP_def REG_RDI_def REG_RSI_def linux_task_start_def
        linux_eint_def sigprocmask_def accepted_def)
qed

text \<open>A signal handler that does not switch the task returns to exactly the interrupted context; a nested
  one returns with the registers it interrupted and the mask of the current task.\<close>

lemma linux_signal_transparent:
  assumes "s1 = linux_contextstore_i u s" and "lx_current s2 = lx_current s1" "lx_ctx s2 = lx_ctx s1" "lx_isr_nesting s2 = lx_isr_nesting s1"
  shows "lx_isr_nesting s = 0 \<Longrightarrow> fst (linux_contextrestore_i u s2) = u"
    and "lx_isr_nesting s > 0 \<Longrightarrow> fst (linux_contextrestore_i u s2) = u\<lparr>uc_sigmask := uc_sigmask (lx_ctx s (lx_current s))\<rparr>"
  using assms by (auto simp: linux_contextstore_i_def linux_contextrestore_i_def copy_registers_def Let_def)

text \<open>The atomic macros of the three ports, built from critical sections (AVR, MSP430) or from the
  compiler's atomic built-ins (Linux), compute the same results on the widths the MSP430 port
  supports and leave the interrupt state alone.\<close>

theorem atomics_ports_agree:
  fixes cell :: "16 word"
  shows "msp430_atomic_inc_load r cell = Some (fst (linux_atomic_inc_load cell), snd (linux_atomic_inc_load cell), r) \<and>
    os_atomic_inc_load sr cell = (fst (linux_atomic_inc_load cell), snd (linux_atomic_inc_load cell), sr) \<and>
    msp430_atomic_dec_load r cell = Some (fst (linux_atomic_dec_load cell), snd (linux_atomic_dec_load cell), r) \<and>
    os_atomic_dec_load sr cell = (fst (linux_atomic_dec_load cell), snd (linux_atomic_dec_load cell), sr) \<and>
    msp430_atomic_inc cell = fst (os_atomic_inc sr cell) \<and> linux_atomic_inc cell = fst (os_atomic_inc sr cell) \<and>
    msp430_atomic_dec cell = fst (os_atomic_dec sr cell) \<and> linux_atomic_dec cell = fst (os_atomic_dec sr cell) \<and>
    msp430_atomic_load cell = Some (fst (os_atomic_load sr cell)) \<and> linux_atomic_load cell = fst (os_atomic_load sr cell) \<and>
    msp430_atomic_store v cell = fst (os_atomic_store sr v cell) \<and> linux_atomic_store v cell = fst (os_atomic_store sr v cell) \<and>
    msp430_atomic_exch r v cell = Some (fst (linux_atomic_exch v cell), snd (linux_atomic_exch v cell), r) \<and>
    os_atomic_exch sr v cell = (fst (linux_atomic_exch v cell), snd (linux_atomic_exch v cell), sr) \<and>
    (case linux_atomic_cmp_exch e v cell of (f, c, e') \<Rightarrow>
       msp430_atomic_cmp_exch r e v cell = Some (f, c, e', r) \<and> os_atomic_cmp_exch sr e v cell = (f, c, e', sr))"
  by (simp add: msp430_atomic_inc_load_def msp430_atomic_dec_load_def msp430_atomic_inc_def msp430_atomic_dec_def
      msp430_atomic_load_def msp430_atomic_store_def msp430_atomic_exch_def msp430_atomic_cmp_exch_def
      msp430_critical_enter_def msp430_critical_exit_def linux_atomic_inc_load_def linux_atomic_dec_load_def
      linux_atomic_inc_def linux_atomic_dec_def linux_atomic_load_def linux_atomic_store_def
      linux_atomic_exch_def linux_atomic_cmp_exch_def os_atomic_inc_load_def os_atomic_dec_load_def os_atomic_inc_def
      os_atomic_dec_def os_atomic_load_def os_atomic_store_def os_atomic_exch_def os_atomic_cmp_exch_def
      arch_critical_enter_def arch_critical_exit_def Let_def)

section \<open>Witnesses\<close>

theorem linux_critical_sections_witness: "SIGUSR1 \<notin> snd (linux_critical_enter (fst (linux_os_init {})) {})"
  using linux_critical_sections [OF refl, of "{}" "{}"] by (simp add: accepted_def Let_def split: prod.splits)

definition demo_linux :: linux where
  "demo_linux = (let c = \<lparr>uc_stack = (0, 0), gregs = (\<lambda>_. 0), fpregs_mem = [], uc_sigmask = {}\<rparr>
     in \<lparr>lx_cpu = c, lx_crit = fst (linux_os_init {}), lx_pending = {}, lx_isr_nesting = 0, lx_current = 0, lx_ctx = (\<lambda>_. c)\<rparr>)"

theorem linux_switch_roundtrip_witness:
  "gregs (lx_cpu (linux_context_switch 5 6 0 (linux_context_switch 0x400 0x800 1 demo_linux))) REG_RIP = 0x400"
proof -
  have "uc_sigmask (lx_cpu demo_linux) = {}" "uc_sigmask (lx_ctx demo_linux 1) = {}" "lx_current demo_linux = 0"
    by (simp_all add: demo_linux_def Let_def)
  then show ?thesis
    using linux_switch_roundtrip [of demo_linux 1, OF _ _ _ _ refl refl, of "0x400" "0x800" 5 6] by (simp add: accepted_def)
qed

end
