(* ===== verification/Test_Support.thy ===== *)
theory Test_Support
  imports Linux_Port Msp430_Port Kernel_State
begin

text \<open>
  The test support: the marks \<open>test_verbose_debug\<close> prints (\<^verbatim>\<open>source/os_test.c\<close>), the output through the UART of the
  AVR, the results of tests, and the set-up of tests and of the periodic tick on the AVR and on Linux
  (\<^verbatim>\<open>arch/avr/arch_test.c\<close> and \<^verbatim>\<open>arch/linux/arch_test.c\<close>; on the MSP430 they fail at once, \<^verbatim>\<open>arch/msp430/arch_test.c\<close>). The handler of the tick itself is \<open>tick_isr\<close> of the
  theory \<open>Timeout\<close>.
\<close>

section \<open>The scrolling mark\<close>

definition test_debug_star :: string where
  "test_debug_star = [CHR ''-'', CHR 0x5C, CHR ''|'', CHR ''/'']"

text \<open>The index after the call and the character read from the array, \<open>None\<close> for a read outside of it.\<close>

definition test_verbose_debug :: "u8 \<Rightarrow> u8 \<times> char option" where
  "test_verbose_debug test_debug_idx =
     (let idx = test_debug_idx + 1;
          idx = (if of_nat (length test_debug_star) < idx then 0 else idx)
      in (idx, if unat idx < length test_debug_star then Some (test_debug_star ! unat idx) else None))"

lemma test_debug_star_length [simp]: "length test_debug_star = 4"
  by (simp add: test_debug_star_def)

fun debug_calls :: "nat \<Rightarrow> u8" where
  "debug_calls 0 = 0"
| "debug_calls (Suc n) = fst (test_verbose_debug (debug_calls n))"

lemma debug_idx: "debug_calls n = of_nat (n mod 5)"
proof (induction n)
  case (Suc n)
  have "n mod 5 \<in> {0, 1, 2, 3, 4}" by auto
  then show ?case using Suc by (auto simp: test_verbose_debug_def mod_Suc Let_def)
qed simp

text \<open>Every fifth call reads one element past the end of the array: the index is reset only after it has
  exceeded the length.\<close>

theorem verbose_debug_overrun:
  "snd (test_verbose_debug (debug_calls n)) = None \<longleftrightarrow> n mod 5 = 3"
proof -
  have "n mod 5 \<in> {0, 1, 2, 3, 4}" by auto
  then show ?thesis by (auto simp: debug_idx test_verbose_debug_def Let_def)
qed

section \<open>Output on the AVR\<close>

definition BV :: "nat \<Rightarrow> u8" where
  "BV n = push_bit n 1"

text \<open>The registers of the UART. \<open>UDR0\<close> lists the bytes written to the data register, \<open>polls\<close> counts the readings of the
  status register \<open>UCSR0A\<close>. When the data register is empty (\<open>UDRE0\<close>) is up to the hardware: \<open>udre n\<close> is the bit at
  the \<open>n\<close>th reading.\<close>

record avr_uart =
  UBRR0H :: u8
  UBRR0L :: u8
  UCSR0A :: u8
  UCSR0B :: u8
  UCSR0C :: u8
  UDR0 :: "u8 list"
  polls :: nat

text \<open>The values for the baud rate come from \<^verbatim>\<open>util/setbaud.h\<close> of the C library.\<close>

definition uart_init :: "u8 \<Rightarrow> u8 \<Rightarrow> bool \<Rightarrow> avr_uart \<Rightarrow> avr_uart" where
  "uart_init UBRRH_VALUE UBRRL_VALUE USE_2X u =
     (let u = u\<lparr>UBRR0H := UBRRH_VALUE\<rparr>;
          u = u\<lparr>UBRR0L := UBRRL_VALUE\<rparr>;
          u = (if USE_2X then u\<lparr>UCSR0A := UCSR0A u OR BV 1\<rparr> else u\<lparr>UCSR0A := UCSR0A u AND NOT (BV 1)\<rparr>);
          u = u\<lparr>UCSR0C := UCSR0C u OR (BV 1 OR BV 2)\<rparr>
      in u\<lparr>UCSR0B := UCSR0B u OR (BV 4 OR BV 3)\<rparr>)"

partial_function (option) uart_poll :: "(nat \<Rightarrow> bool) \<Rightarrow> avr_uart \<Rightarrow> avr_uart option" where
  "uart_poll udre u =
     (let ready = udre (polls u); u = u\<lparr>polls := polls u + 1\<rparr>
      in if \<not> ready then uart_poll udre u else Some u)"

partial_function (option) uart_tx_loop :: "(nat \<Rightarrow> bool) \<Rightarrow> (u16 \<Rightarrow> u8) \<Rightarrow> u16 \<Rightarrow> avr_uart \<Rightarrow> avr_uart option" where
  "uart_tx_loop udre str i u =
     (let val = str i
      in if val \<noteq> 0
         then case uart_poll udre u of
                None \<Rightarrow> None
              | Some u \<Rightarrow> uart_tx_loop udre str (i + 1) (u\<lparr>UDR0 := UDR0 u @ [val]\<rparr>)
         else Some u)"

definition uart_tx_rammem :: "(nat \<Rightarrow> bool) \<Rightarrow> (u16 \<Rightarrow> u8) \<Rightarrow> avr_uart \<Rightarrow> avr_uart option" where
  "uart_tx_rammem udre str u = uart_tx_loop udre str 0 u"

text \<open>\<open>test_debug_printf\<close> formats into a buffer at \<open>buff\<close> of half the minimal stack. \<open>txt\<close> is the formatted text, of
  which \<open>vsnprintf_P\<close> writes at most one byte less than its size argument, and a NUL.\<close>

definition vsnprintf_P :: "u16 \<Rightarrow> nat \<Rightarrow> u8 list \<Rightarrow> (u16 \<Rightarrow> u8) \<Rightarrow> u16 \<Rightarrow> u8" where
  "vsnprintf_P buff len txt ram =
     (let bytes = take (len - 1) txt @ [0]
      in (\<lambda>a. if unat (a - buff) < length bytes then bytes ! unat (a - buff) else ram a))"

definition debug_buff_size :: nat where
  "debug_buff_size = unat OS_STACK_MINSIZE div 2"

definition avr_debug_printf :: "(nat \<Rightarrow> bool) \<Rightarrow> u16 \<Rightarrow> u8 list \<Rightarrow> (u16 \<Rightarrow> u8) \<Rightarrow> avr_uart \<Rightarrow> avr_uart option" where
  "avr_debug_printf udre buff txt ram u =
     (let ram = vsnprintf_P buff (debug_buff_size - 1) txt ram;
          ram = ram(buff + of_nat (debug_buff_size - 1) := 0)
      in uart_tx_rammem udre (\<lambda>i. ram (buff + i)) u)"

text \<open>The hardware gets ready again and again.\<close>

definition keeps_ready :: "(nat \<Rightarrow> bool) \<Rightarrow> bool" where
  "keeps_ready udre \<longleftrightarrow> (\<forall>n. \<exists>k. udre (n + k))"

lemma uart_poll_ends:
  assumes "udre (polls u + k)"
  shows "\<exists>n. uart_poll udre u = Some (u\<lparr>polls := n\<rparr>)"
  using assms
proof (induction k arbitrary: u)
  case 0
  then show ?case by (subst uart_poll.simps) (auto simp: Let_def)
next
  case (Suc k)
  show ?case
  proof (cases "udre (polls u)")
    case True
    then show ?thesis by (subst uart_poll.simps) (auto simp: Let_def)
  next
    case False
    then show ?thesis using Suc.IH [of "u\<lparr>polls := polls u + 1\<rparr>"] Suc.prems by (subst uart_poll.simps) (simp add: Let_def)
  qed
qed

text \<open>A string of memory is sent up to its NUL, whatever the pace of the hardware.\<close>

lemma uart_tx_sends:
  assumes r: "keeps_ready udre" and nul: "str (i + of_nat k) = 0" and val: "\<And>j. j < k \<Longrightarrow> str (i + of_nat j) \<noteq> 0"
  shows "\<exists>n. uart_tx_loop udre str i u = Some (u\<lparr>UDR0 := UDR0 u @ map (\<lambda>j. str (i + of_nat j)) [0..<k], polls := n\<rparr>)"
  using nul val
proof (induction k arbitrary: i u)
  case 0
  then show ?case by (subst uart_tx_loop.simps) (auto intro: exI [of _ "polls u"])
next
  case (Suc k)
  obtain n where n: "uart_poll udre u = Some (u\<lparr>polls := n\<rparr>)"
    using r uart_poll_ends [of udre u] unfolding keeps_ready_def by blast
  have v: "str i \<noteq> 0" using Suc.prems(2) [of 0] by simp
  have "str ((i + 1) + of_nat j) \<noteq> 0" if "j < k" for j using Suc.prems(2) [of "Suc j"] that by (simp add: ac_simps)
  moreover have "str ((i + 1) + of_nat k) = 0" using Suc.prems(1) by (simp add: ac_simps)
  ultimately obtain n' where "uart_tx_loop udre str (i + 1) (u\<lparr>polls := n, UDR0 := UDR0 u @ [str i]\<rparr>) =
      Some (u\<lparr>UDR0 := UDR0 u @ [str i] @ map (\<lambda>j. str ((i + 1) + of_nat j)) [0..<k], polls := n'\<rparr>)"
    using Suc.IH [of "i + 1" "u\<lparr>polls := n, UDR0 := UDR0 u @ [str i]\<rparr>"] by auto
  moreover have "map (\<lambda>j. str (i + of_nat j)) [0..<Suc k] = str i # map (\<lambda>j. str ((i + 1) + of_nat j)) [0..<k]"
    by (simp add: map_upt_Suc ac_simps del: upt_Suc)
  ultimately show ?case using n v by (subst uart_tx_loop.simps) (auto simp: Let_def)
qed

text \<open>A debug message arrives up to its first NUL, cut to what fits in the buffer: 68 bytes.\<close>

theorem debug_printf_output:
  assumes "keeps_ready udre"
  shows "\<exists>u'. avr_debug_printf udre buff txt ram u = Some u' \<and>
    UDR0 u' = UDR0 u @ takeWhile (\<lambda>b. b \<noteq> 0) (take 68 txt)"
proof -
  let ?b = "take 68 txt @ [0]"
  define str where "str = (\<lambda>i. ((vsnprintf_P buff (debug_buff_size - 1) txt ram)(buff + of_nat (debug_buff_size - 1) := 0)) (buff + i))"
  let ?k = "length (takeWhile (\<lambda>b. b \<noteq> 0) (take 68 txt))"
  have size: "debug_buff_size = 70" by (simp add: debug_buff_size_def OS_STACK_MINSIZE_def)
  have kl: "?k \<le> length (take 68 txt)" by (rule length_takeWhile_le)
  have str: "str (of_nat j) = ?b ! j" if "j < length ?b" for j
  proof -
    have j: "j < 69" using that by simp
    then have u: "unat (of_nat j :: u16) = j" by (simp add: unat_of_nat)
    have "(of_nat j :: u16) \<noteq> 69" using u j by auto
    then show ?thesis using that u by (simp add: str_def vsnprintf_P_def size)
  qed
  have "str (0 + of_nat ?k) = 0"
    using str [of ?k] kl nth_length_takeWhile [of "\<lambda>b. b \<noteq> 0" "take 68 txt"] by (cases "?k = length (take 68 txt)") (auto simp: nth_append)
  moreover have "str (0 + of_nat j) \<noteq> 0" if "j < ?k" for j
  proof -
    have "j < length ?b" using less_le_trans [OF that kl] by (auto simp: less_Suc_eq)
    have "str (of_nat j) = takeWhile (\<lambda>b. b \<noteq> 0) (take 68 txt) ! j"
      using str [OF \<open>j < length ?b\<close>] that kl by (simp add: nth_append takeWhile_nth)
    then show ?thesis using set_takeWhileD [OF nth_mem [OF that]] by simp
  qed
  ultimately obtain n where "uart_tx_loop udre str 0 u =
      Some (u\<lparr>UDR0 := UDR0 u @ map (\<lambda>j. str (0 + of_nat j)) [0..<?k], polls := n\<rparr>)"
    using uart_tx_sends [OF assms, of str 0 ?k u] by blast
  moreover have "map (\<lambda>j. str (0 + of_nat j)) [0..<?k] = takeWhile (\<lambda>b. b \<noteq> 0) (take 68 txt)"
    by (rule nth_equalityI) (use str kl in \<open>auto simp: nth_append takeWhile_nth\<close>)
  ultimately show ?thesis by (simp add: avr_debug_printf_def uart_tx_rammem_def str_def Let_def)
qed

section \<open>Results and set-up\<close>

text \<open>How a test ends: the processor halts, or on Linux the process exits with a code. \<open>pos\<close> is the prefix of file and
  line that the macro \<open>test_debug\<close> puts in front (\<open>rpos\<close> that of the message in \<open>test_result\<close>).\<close>

datatype test_end = Test_halt | Test_exit int

definition bytes_of :: "string \<Rightarrow> u8 list" where
  "bytes_of str = map of_char str"

definition test_debug :: "string \<Rightarrow> string \<Rightarrow> u8 list" where
  "test_debug pos msg = bytes_of (pos @ '' '' @ msg @ [CHR 0x0D, CHR 0x0A])"

record avr_test =
  result_store :: int
  uart :: avr_uart

definition avr_test_result ::
  "(nat \<Rightarrow> bool) \<Rightarrow> u16 \<Rightarrow> (u16 \<Rightarrow> u8) \<Rightarrow> string \<Rightarrow> int \<Rightarrow> avr_test \<Rightarrow> (test_end \<times> avr_test) option" where
  "avr_test_result udre buff ram pos result h =
     (let h = h\<lparr>result_store := result\<rparr>
      in case avr_debug_printf udre buff
           (test_debug pos (if 0 = result then ''Test PASSED'' else ''Test FAILURE'')) ram (uart h) of
           None \<Rightarrow> None
         | Some u \<Rightarrow> Some (Test_halt, h\<lparr>uart := u\<rparr>))"

text \<open>A failed assertion reports its condition and ends the test; otherwise the test goes on.\<close>

definition avr_test_assert ::
  "(nat \<Rightarrow> bool) \<Rightarrow> u16 \<Rightarrow> (u16 \<Rightarrow> u8) \<Rightarrow> string \<Rightarrow> string \<Rightarrow> string \<Rightarrow> bool \<Rightarrow> avr_test \<Rightarrow> (test_end option \<times> avr_test) option" where
  "avr_test_assert udre buff ram pos rpos txt cond h =
     (if \<not> cond
      then case avr_debug_printf udre buff (test_debug pos (''Test assert failed: '' @ txt)) ram (uart h) of
             None \<Rightarrow> None
           | Some u \<Rightarrow> map_option (apfst Some) (avr_test_result udre buff ram rpos (- 1) (h\<lparr>uart := u\<rparr>))
      else Some (None, h))"

definition avr_test_setupmain ::
  "(nat \<Rightarrow> bool) \<Rightarrow> u16 \<Rightarrow> (u16 \<Rightarrow> u8) \<Rightarrow> u8 \<Rightarrow> u8 \<Rightarrow> bool \<Rightarrow> string \<Rightarrow> string \<Rightarrow> avr_test \<Rightarrow> avr_test option" where
  "avr_test_setupmain udre buff ram UBRRH_VALUE UBRRL_VALUE USE_2X pos name h =
     (let u = uart_init UBRRH_VALUE UBRRL_VALUE USE_2X (uart h)
      in map_option (\<lambda>u. h\<lparr>uart := u\<rparr>) (avr_debug_printf udre buff (test_debug pos (''Starting test: '' @ name)) ram u))"

definition linux_test_result :: "string \<Rightarrow> int \<Rightarrow> string \<times> test_end" where
  "linux_test_result name result =
     (name @ (if 0 = result then '': Test PASSED'' else '': Test FAILURE'') @ [CHR 0x0A], Test_exit result)"

text \<open>Ticks on request are missing on the AVR; the assertion that says so fails.\<close>

definition avr_test_reqtick ::
  "(nat \<Rightarrow> bool) \<Rightarrow> u16 \<Rightarrow> (u16 \<Rightarrow> u8) \<Rightarrow> string \<Rightarrow> string \<Rightarrow> avr_test \<Rightarrow> (test_end option \<times> avr_test) option" where
  "avr_test_reqtick udre buff ram pos rpos h =
     avr_test_assert udre buff ram pos rpos ([CHR ''!'', CHR 0x22] @ ''Missing implementation!'' @ [CHR 0x22]) False h"

text \<open>The report of a failed assertion always arrives: a test that ends with it has stored a result that is not 0.\<close>

theorem test_assert_reports:
  assumes "keeps_ready udre"
  shows "\<exists>h'. avr_test_assert udre buff ram pos rpos txt cond h = Some (if cond then None else Some Test_halt, h') \<and>
    (if cond then h' = h
     else result_store h' = - 1 \<and>
       (\<exists>out. UDR0 (uart h') = UDR0 (uart h) @ takeWhile (\<lambda>b. b \<noteq> 0) (take 68 (test_debug pos (''Test assert failed: '' @ txt))) @ out))"
proof (cases cond)
  case False
  obtain u where u: "avr_debug_printf udre buff (test_debug pos (''Test assert failed: '' @ txt)) ram (uart h) = Some u"
    "UDR0 u = UDR0 (uart h) @ takeWhile (\<lambda>b. b \<noteq> 0) (take 68 (test_debug pos (''Test assert failed: '' @ txt)))"
    using debug_printf_output [OF assms] by blast
  obtain u' where u': "avr_debug_printf udre buff (test_debug rpos ''Test FAILURE'') ram u = Some u'"
    "UDR0 u' = UDR0 u @ takeWhile (\<lambda>b. b \<noteq> 0) (take 68 (test_debug rpos ''Test FAILURE''))"
    using debug_printf_output [OF assms] by blast
  show ?thesis using False u u' by (auto simp: avr_test_assert_def avr_test_result_def)
qed (simp add: avr_test_assert_def)

text \<open>On the MSP430 nothing is printed and nothing is stored: the status register is all that a test changes.
  \<open>None\<close> says that the call does not return.\<close>

definition msp430_test_debug_printf :: "u16 \<Rightarrow> u16" where
  "msp430_test_debug_printf sr = sr"

definition msp430_test_result :: "int \<Rightarrow> u16 \<Rightarrow> u16 option" where
  "msp430_test_result result sr =
     (let sr = (if 0 = result then msp430_test_debug_printf sr else msp430_test_debug_printf sr);
          (cristate, sr) = msp430_critical_enter sr
      in case msp430_halt sr of
           None \<Rightarrow> None
         | Some sr \<Rightarrow> Some (msp430_critical_exit cristate sr))"

definition msp430_test_assert :: "bool \<Rightarrow> u16 \<Rightarrow> u16 option" where
  "msp430_test_assert cond sr = (if \<not> cond then msp430_test_result (- 1) sr else Some sr)"

definition msp430_test_setupmain :: "u16 \<Rightarrow> u16 option" where
  "msp430_test_setupmain sr = msp430_test_assert False sr"

definition msp430_test_setuptick :: "u16 \<Rightarrow> u16 option" where
  "msp430_test_setuptick sr = msp430_test_assert False sr"

definition msp430_test_reqtick :: "u16 \<Rightarrow> u16 option" where
  "msp430_test_reqtick sr = msp430_test_assert False sr"

text \<open>No test runs on the MSP430: its set-up does not return, and a test that passes ends like one that fails.\<close>

theorem msp430_tests_hang:
  "msp430_test_setupmain sr = None" "msp430_test_setuptick sr = None" "msp430_test_reqtick sr = None"
  "msp430_test_result r sr = None" "msp430_test_assert c sr = (if c then Some sr else None)"
proof -
  show "msp430_test_result r sr = None" for r by (simp add: msp430_test_result_def msp430_halts(1) Let_def case_prod_beta)
  then show "msp430_test_setupmain sr = None" "msp430_test_setuptick sr = None" "msp430_test_reqtick sr = None"
    "msp430_test_assert c sr = (if c then Some sr else None)"
    by (simp_all add: msp430_test_setupmain_def msp430_test_setuptick_def msp430_test_reqtick_def msp430_test_assert_def)
qed

section \<open>The tick timer of the AVR\<close>

text \<open>The registers of timer 1 and the callback; \<open>F_CPU\<close> is 16 MHz (\<^verbatim>\<open>target.mk\<close>) and \<open>unsigned long\<close> has 32 bits.\<close>

record avr_timer1 =
  OCR1A :: u16
  TCCR1B :: u8
  TIMSK1 :: u8
  tick_clbck :: "nat option"

definition CS12 :: nat where "CS12 = 2"

definition WGM12 :: nat where "WGM12 = 3"

definition OCIE1A :: nat where "OCIE1A = 1"

definition avr_setuptick :: "nat option \<Rightarrow> 32 word \<Rightarrow> avr_timer1 \<Rightarrow> avr_timer1" where
  "avr_setuptick cb nsec h =
     (let h = h\<lparr>TIMSK1 := 0\<rparr>;
          h = h\<lparr>tick_clbck := cb\<rparr>
      in if nsec > 0
         then h\<lparr>OCR1A := ucast (16000000 div 256 * nsec div 1000000000), TCCR1B := BV CS12 OR BV WGM12, TIMSK1 := BV OCIE1A\<rparr>
         else h)"

text \<open>The compare value of a period of \<open>nsec\<close> nanoseconds.\<close>

definition intended_compare :: "32 word \<Rightarrow> nat" where
  "intended_compare nsec = 62500 * unat nsec div 1000000000"

lemma unat_compare:
  "unat (16000000 div 256 * nsec div 1000000000 :: 32 word) = 62500 * unat nsec mod 2 ^ 32 div 1000000000"
proof -
  have "(16000000 div 256 :: 32 word) = 62500" by (simp add: word_arith_nat_div)
  then show ?thesis by (simp add: unat_div unat_word_ariths)
qed

text \<open>The product overflows: the compare value is never more than 4 (80 microseconds), and it is the
  intended one only for periods of at most 68719 nanoseconds.\<close>

theorem setuptick_overflows:
  assumes "nsec > 0"
  shows "unat (OCR1A (avr_setuptick cb nsec h)) \<le> 4 \<and>
    (unat (OCR1A (avr_setuptick cb nsec h)) = intended_compare nsec \<longleftrightarrow> unat nsec \<le> 68719)"
proof -
  let ?p = "62500 * unat nsec"
  have le: "?p mod 2 ^ 32 div 1000000000 \<le> 4" using mod_less_divisor [of "2 ^ 32" ?p] by simp
  have v: "unat (OCR1A (avr_setuptick cb nsec h)) = ?p mod 2 ^ 32 div 1000000000"
    using assms le unat_compare [of nsec]
    by (simp add: avr_setuptick_def Let_def unsigned_ucast_eq take_bit_eq_mod del: One_nat_def)
  have "?p mod 2 ^ 32 div 1000000000 \<noteq> ?p div 1000000000" if "68719 < unat nsec"
  proof (cases "?p < 5000000000")
    case True
    then have "?p mod 2 ^ 32 = ?p - 2 ^ 32" using that by (simp add: mod_if)
    then show ?thesis using True that by simp
  next
    case False
    then show ?thesis using le by linarith
  qed
  moreover have "?p mod 2 ^ 32 = ?p" if "unat nsec \<le> 68719" using that by simp
  ultimately show ?thesis using v le unfolding intended_compare_def by (metis not_le_imp_less)
qed

section \<open>The tick timer on Linux\<close>

text \<open>The POSIX timers of the process, and the variable \<open>test_timer\<close>, 0 as long as it has not been set.
  The identifier a \<open>timer_create\<close> returns is given by the system.\<close>

record linux_test =
  posix_timers :: "nat set"
  test_timer :: nat
  linux_clbck :: "nat option"
  alrm_mask :: "sigset option"
  lx_test_name :: "string option"

text \<open>\<open>timer_delete\<close> fails on an identifier that names no timer, and \<open>timer_settime\<close> on nanoseconds that make a
  second or more (the code leaves the seconds 0); a failed \<open>test_assert\<close> ends the test.\<close>

definition timer_delete :: "nat \<Rightarrow> nat set \<Rightarrow> nat set option" where
  "timer_delete t ts = (if t \<in> ts then Some (ts - {t}) else None)"

definition linux_setuptick :: "nat \<Rightarrow> nat option \<Rightarrow> 32 word \<Rightarrow> linux_test \<Rightarrow> linux_test option" where
  "linux_setuptick new cb nsec s =
     (case (if test_timer s \<noteq> 0 then timer_delete (test_timer s) (posix_timers s) else Some (posix_timers s)) of
        None \<Rightarrow> None
      | Some ts \<Rightarrow>
          let s = s\<lparr>posix_timers := ts, linux_clbck := cb\<rparr>
          in if nsec > 0
             then if nsec < 1000000000
               then Some (s\<lparr>posix_timers := insert new (posix_timers s), test_timer := new\<rparr>)
               else None
             else Some s)"

text \<open>A running tick can be replaced, but once it has been stopped it cannot be started again:
  \<open>test_timer\<close> still names the deleted timer.\<close>

theorem setuptick_stop_is_final:
  assumes "test_timer s \<noteq> 0" and "posix_timers s = {test_timer s}" and "new \<noteq> 0" and "nsec > 0" and "nsec < 1000000000"
  shows "\<exists>s'. linux_setuptick new cb nsec s = Some s' \<and> posix_timers s' = {new} \<and> test_timer s' = new"
    and "\<exists>s'. linux_setuptick new cb 0 s = Some s' \<and> posix_timers s' = {} \<and> (\<forall>n c m. linux_setuptick n c m s' = None)"
  using assms by (auto simp: linux_setuptick_def timer_delete_def)

section \<open>Manual ticks on Linux\<close>

definition SIGALRM :: nat where "SIGALRM = 14"

text \<open>\<open>test_setupmain\<close> installs the handler of SIGALRM; while it runs, the signals of \<open>sa_mask\<close> and SIGALRM itself are added
  to the mask. \<open>test_reqtick\<close> raises SIGALRM: the result is the mask in the handler, or \<open>None\<close> if the signal stays pending.\<close>

definition linux_test_setupmain :: "sigset \<Rightarrow> string \<Rightarrow> linux_test \<Rightarrow> linux_test" where
  "linux_test_setupmain arch_crit_signals name s = s\<lparr>alrm_mask := Some arch_crit_signals, lx_test_name := Some name\<rparr>"

definition linux_test_reqtick :: "linux_test \<Rightarrow> sigset \<Rightarrow> sigset option" where
  "linux_test_reqtick s m =
     (if SIGALRM \<in> m then None
      else map_option (\<lambda>sa. accepted (m \<union> sa \<union> {SIGALRM})) (alrm_mask s))"

text \<open>The handler of the tick runs as in a critical section, as its comment claims, if it has interrupted code that masks no
  other signals than a critical section does; inside a critical section the tick has to wait.\<close>

theorem reqtick_is_critical:
  assumes "crit = fst (linux_os_init m0)" and "m \<subseteq> crit"
  shows "(\<forall>h. linux_test_reqtick (linux_test_setupmain crit name s) m = Some h \<longrightarrow> linux_is_dint crit h) \<and>
    (SIGALRM \<notin> m \<longrightarrow> linux_test_reqtick (linux_test_setupmain crit name s) m = Some crit) \<and>
    linux_test_reqtick (linux_test_setupmain crit name s) (snd (linux_critical_enter crit m)) = None"
proof -
  have crit: "crit = {1..64} - {SIGUSR1, SIGKILL, SIGSTOP}"
    using assms(1) crit_signals [of m0] by auto
  have a: "SIGALRM \<in> crit" "accepted crit = crit"
    by (auto simp: crit SIGALRM_def SIGUSR1_def SIGKILL_def SIGSTOP_def accepted_def)
  then have "m \<union> crit \<union> {SIGALRM} = crit" "m \<union> crit = crit" using assms(2) by auto
  then show ?thesis
    using a by (simp add: linux_test_reqtick_def linux_test_setupmain_def linux_is_dint_def linux_critical_enter_def sigprocmask_def)
qed

end
