(* ===== verification/Spec2Isabelle.thy ===== *)
theory Spec2Isabelle
  imports System_Run Avr_Asm Linux_Port Test_Support
begin

text \<open>
  A verification library for RadOs, a small real-time operating system in C: preemptive tasks with
  static priorities, semaphores, mutexes with priority inheritance, wait queues and software timers,
  on ports for the AVR, the MSP430 and Linux.

  \<^bold>\<open>Parts of the program and their theories\<close>

  \<^item> \<open>List_H\<close>: the intrusive lists of \<^verbatim>\<open>source/list.h\<close>, on an explicit heap of links (\<open>lheap\<close>).
    \<open>dlist h head xs\<close> says that the nodes \<open>xs\<close> form a well-linked ring with the given head.
  \<^item> \<open>Arch_Port\<close>: masks, interrupt flag, critical sections and atomic macros of the AVR port, and the
    priority encoder of the three ports.
  \<^item> \<open>Kernel_State\<close>: the structs and global variables of the kernel as one record \<open>kstate\<close>; tasks,
    mutexes, semaphores and timers are identified by numbers, their link fields are nodes of the heaps
    \<open>tqh\<close>, \<open>mxh\<close> and \<open>tmh\<close>. A call is a function to \<open>kres\<close>: a result, an error (\<open>Halted\<close> for a failed
    \<open>OS_ASSERT\<close>, \<open>Null_deref\<close>), or no result for a loop that does not end.
  \<^item> \<open>Taskqueue\<close>: the \<open>os_taskqueue_*\<close> functions of \<^verbatim>\<open>source/os_sched.c\<close> and the helpers of
    \<^verbatim>\<open>source/os_private.h\<close>.
  \<^item> \<open>Sched\<close>: \<open>os_schedule\<close>, blocking, the scheduler lock, creation, yield, \<open>os_init\<close>, \<open>os_start\<close>, and the
    entry and exit of interrupts, all of \<^verbatim>\<open>source/os_sched.c\<close> but joining and exiting.
  \<^item> \<open>Timer\<close>: \<^verbatim>\<open>source/os_timer.c\<close>, with the callbacks as a parameter.
  \<^item> \<open>Wakeup\<close>: the invariant \<open>kinv\<close> of the whole kernel (queues, tasks, timers and the guards of blocking
    calls) and what waking up and timing out a task do to it.
  \<^item> \<open>Sem\<close>, \<open>Mtx\<close>, \<open>Waitqueue\<close>: \<^verbatim>\<open>source/os_sem.c\<close>, \<^verbatim>\<open>source/os_mtx.c\<close>, \<^verbatim>\<open>source/os_waitqueue.c\<close> with their
    inline functions in the headers.
  \<^item> \<open>Task_Life\<close>: \<open>os_task_join\<close>, \<open>os_task_exit\<close>, and \<open>resume\<close>, the code that runs when a task gets the CPU back.
  \<^item> \<open>Timeout\<close>: the tick interrupt (\<^verbatim>\<open>arch_test.c\<close>) on the kernel with its own timeout callbacks.
  \<^item> \<open>System_State\<close>, \<open>System\<close>, \<open>System_Objects\<close>, \<open>System_Run\<close>: the kernel as a step system. The first has
    what the continuation of a suspended task says about the state, and the invariant of mutexes and
    priorities; the second the steps and the calls of scheduler, semaphores, wait queues and timers; the
    third mutexes, exit and join; the last interrupts, continuations and the reachable states.
  \<^item> \<open>Avr_Asm\<close>, \<open>Msp430_Port\<close>, \<open>Linux_Port\<close>: the ports. The assembler of the context switch and of the
    interrupt entry and exit is a list of instructions on a model of the processor; the Linux port is a
    model of signal masks and \<open>ucontext\<close>.
  \<^item> \<open>Test_Support\<close>: the test support of the three ports (\<^verbatim>\<open>arch_test.c\<close>, \<^verbatim>\<open>source/os_test.c\<close>): output through
    the UART, results, assertions, set-up of tests and of the tick.
  \<^item> \<open>Prelude\<close> has the machine integers and shared lemmas; \<open>Interfaces\<close> the interfaces between the parts as
    locales: FIFO and priority queues, clients of the timers, loops that empty a queue, step systems with
    an invariant. Each is interpreted in the theory of the part that provides it.

  \<^bold>\<open>Context switches\<close>

  A kernel function that switches the context ends with \<open>Switched\<close>; the rest of its body is recorded as a
  continuation (\<open>kont\<close>) in the record of the suspended task, and \<open>resume\<close> runs it once the task is current
  again. The theories of the ports show that the assembler code does this on the machine: registers,
  stack pointer, program counter and interrupt flag of a suspended task come back.

  \<^bold>\<open>What is shown\<close>

  \<^item> Data structures: lists and task queues refine functional queues; the order is by priority, first-in
    first-out within one (\<open>List_H\<close>, \<open>Taskqueue\<close>); the ports agree on the encoder.
  \<^item> Each operation on all branches, with the exact conditions under which it blocks, preempts or halts,
    and that it keeps the invariant (\<open>Sched\<close>, \<open>Sem\<close>, \<open>Mtx\<close>, \<open>Waitqueue\<close>, \<open>Task_Life\<close>).
  \<^item> Time: a tick refines a clock that counts down every timer; timers and timeouts expire on time
    (\<open>Timer\<close>, \<open>Timeout\<close>).
  \<^item> Loops: \<open>timer_trigger\<close>, \<open>listprio_append\<close> and the wake-up loops end; the priority boost of \<open>os_mtx_lock\<close>
    ends exactly if there is no cycle of blocked owners (\<open>Mtx\<close>).
  \<^item> The whole (\<open>System_Run\<close>): in every reachable state of tasks that make any of the calls of the kernel,
    with interrupts between calls, all structures are in order and no step fails; with scheduling
    unlocked, the CPU belongs to a task of the highest ready priority; only its owner gives up a mutex,
    and only a free one is taken; nobody waits for a semaphore above 0 or for a free mutex; and the owners
    of mutexes wait in no cycle, so that there is always a task that is not blocked on a mutex. The
    calls keep to their contracts (\<open>contract\<close> in \<open>System\<close>, from the preconditions in the headers); one of them
    is that a task does not lock a mutex whose owner waits, directly or through others, for a mutex of
    this task, which \<^verbatim>\<open>source/os_mtx.h\<close> calls a bug of the application.
  \<^item> Priority inheritance: a task never has a priority that no waiter of its mutexes justifies; it has
    exactly the inherited one if the tasks follow a discipline (the flag \<open>strict\<close> of the steps): no
    blocking on a mutex while scheduling is locked, no exit of an owner. \<open>boost_lowers_owner\<close> (\<open>Mtx\<close>)
    shows why a discipline is needed.
  \<^item> Where the code does not do what it should, a lemma shows it on a concrete or general state:
    \<open>destroy_in_callback_restarts\<close> and \<open>destroy_next_never_returns\<close> (\<open>Timer\<close>),
    \<open>sem_up_in_callback_never_returns\<close> (\<open>Timeout\<close>), \<open>boost_lowers_owner\<close> (\<open>Mtx\<close>),
    \<open>wait_leaves_higher_ready\<close> (\<open>System_Run\<close>), \<open>msp430_task_init_halts\<close> (\<open>Msp430_Port\<close>), and the three of
    \<open>Test_Support\<close>.

  \<^bold>\<open>Bounds and loops\<close>

  Integers have the width of the AVR port: 8 bits for priorities, counters and the scheduler lock, 16 bits
  for ticks and addresses. Loops that may not end are partial functions into \<open>option\<close>; there is no fuel.
  \<open>OS_CONFIG_PRIOCNT\<close> and the other constants are those of \<^verbatim>\<open>source/os_config.h\<close>.

  \<^bold>\<open>Not modelled\<close>

  \<^item> The idle loop of the application, \<open>arch_halt\<close> of the Linux port, and the variants of the AVR code
    for processors with \<open>RAMPZ\<close> or a 3 byte program counter (the latter does not compile).
  \<^item> The test programs under \<^verbatim>\<open>test/\<close>; in the test support the formatting of \<open>printf\<close> (the formatted text is an
    argument) and the variant that blinks a LED (\<open>TEST_BLINK\<close>).
  \<^item> Interrupts inside the C code between two critical sections of one call: a call is one step, and an
    interrupt comes between calls (the window between \<open>os_waitqueue_prepare\<close> and \<open>os_waitqueue_wait\<close> is one).
  \<^item> In the step system: callbacks of application timers that call the kernel (\<open>sem_up_in_callback_never_returns\<close>
    shows that even \<open>os_sem_up\<close> there can keep the tick from returning). \<open>Timer\<close> treats any callback that satisfies
    the laws of a client of the timers. \<open>makecontext\<close> of the C library is a parameter of \<open>Linux_Port\<close>.
\<close>

end
